(* ===== verification/Prelude.thy ===== *)
theory Prelude
  imports Main "HOL-Library.Word"
begin

text \<open>
  Shared vocabulary of the development: the run-time faults a C statement can hit, the command
  type in which every C function is written (a state transformer that either faults or returns
  a value and the new state), mutexes, pointers, and linked lists in a heap together with their
  abstraction to HOL lists, and the weakest-precondition rules \<open>wp\<close>. The collections \<open>c_defs\<close> (the primitives of the command type) and
  \<open>c_exec\<close> (one execution rule per C function) drive the symbolic execution of the
  component proofs.
\<close>

named_theorems c_defs
named_theorems c_exec
named_theorems wp

section \<open>Faults and commands\<close>

text \<open>
  \<open>Null_Deref\<close>, \<open>Dangling\<close>, \<open>Out_Of_Bounds\<close>, \<open>Uninitialised\<close> and \<open>Signed_Overflow\<close> are undefined behaviour of C.
  \<open>Self_Deadlock\<close> is a second lock of a held mutex by the same thread. \<open>Would_Block\<close> is a thread that goes
  to sleep in \<open>pthread_cond_wait\<close>. \<open>Exit_Failure\<close> is a call of \<open>exit\<close>. \<open>Out_Of_Fuel\<close> is the bound
  of a modelled loop, which the lemmas show is never reached with enough fuel.
\<close>

datatype fault =
    Null_Deref
  | Dangling
  | Out_Of_Bounds
  | Uninitialised
  | Signed_Overflow
  | Self_Deadlock
  | Would_Block
  | Exit_Failure
  | Out_Of_Fuel

type_synonym ('s, 'a) cmd = "'s \<Rightarrow> fault + ('a \<times> 's)"

type_synonym addr = nat

text \<open>A pointer is \<open>None\<close> for \<open>NULL\<close> or \<open>Some a\<close> for the object allocated at \<open>a\<close>.\<close>

type_synonym ptr = "addr option"

text \<open>A byte of memory; \<open>None\<close> is an indeterminate byte, one never written since \<open>malloc\<close>.\<close>

type_synonym cell = "char option"

definition returnM :: "'a \<Rightarrow> ('s, 'a) cmd" where
  [c_defs]: "returnM x s = Inr (x, s)"

definition failM :: "fault \<Rightarrow> ('s, 'a) cmd" where
  [c_defs]: "failM e s = Inl e"

definition bindM :: "('s, 'a) cmd \<Rightarrow> ('a \<Rightarrow> ('s, 'b) cmd) \<Rightarrow> ('s, 'b) cmd" where
  [c_exec]: "bindM f g s = (case f s of Inl e \<Rightarrow> Inl e | Inr (x, s') \<Rightarrow> g x s')"

definition thenM :: "('s, unit) cmd \<Rightarrow> ('s, 'b) cmd \<Rightarrow> ('s, 'b) cmd" where
  [c_exec]: "thenM f g = bindM f (\<lambda>_. g)"

definition getM :: "('s \<Rightarrow> 'a) \<Rightarrow> ('s, 'a) cmd" where
  [c_defs]: "getM f s = Inr (f s, s)"

definition modifyM :: "('s \<Rightarrow> 's) \<Rightarrow> ('s, unit) cmd" where
  [c_defs]: "modifyM f s = Inr ((), f s)"

definition whenM :: "bool \<Rightarrow> ('s, unit) cmd \<Rightarrow> ('s, unit) cmd" where
  "whenM b f = (if b then f else returnM ())"

text \<open>Access to a heap object through a pointer: \<open>NULL\<close> and a freed object are faults.\<close>

definition derefM :: "('s \<Rightarrow> addr \<Rightarrow> 'o option) \<Rightarrow> ptr \<Rightarrow> ('s, 'o) cmd" where
  "derefM h p s =
     (case p of None \<Rightarrow> Inl Null_Deref
      | Some a \<Rightarrow> (case h s a of None \<Rightarrow> Inl Dangling | Some v \<Rightarrow> Inr (v, s)))"

text \<open>
  Total correctness: started in \<open>s\<close>, the command returns without a fault, and its result and final
  state satisfy \<open>Q\<close>. The rules \<open>wp\<close> compute this predicate backwards through a command.
\<close>

definition okM :: "('s, 'a) cmd \<Rightarrow> 's \<Rightarrow> ('a \<Rightarrow> 's \<Rightarrow> bool) \<Rightarrow> bool" where
  "okM f s Q = (case f s of Inl _ \<Rightarrow> False | Inr (x, s') \<Rightarrow> Q x s')"

lemma okM_iff: "okM f s Q \<longleftrightarrow> (\<exists>x s'. f s = Inr (x, s') \<and> Q x s')"
  by (auto simp: okM_def split: sum.splits)

lemma okM_mono: "okM f s Q \<Longrightarrow> (\<And>x s'. Q x s' \<Longrightarrow> R x s') \<Longrightarrow> okM f s R"
  by (auto simp: okM_iff)

lemma okM_Inr: "f s = Inr (x, s') \<Longrightarrow> okM f s Q = Q x s'"
  by (simp add: okM_def)

lemma okM_bind [wp]: "okM (bindM f g) s Q = okM f s (\<lambda>x s'. okM (g x) s' Q)"
  by (auto simp: okM_def bindM_def split: sum.splits)

lemma okM_then [wp]: "okM (thenM f g) s Q = okM f s (\<lambda>_ s'. okM g s' Q)"
  by (simp add: thenM_def okM_bind)

lemma okM_basic [wp]:
  "okM (returnM x) s Q = Q x s"
  "okM (modifyM h) s Q' = Q' () (h s)"
  "okM (getM k) s R = R (k s) s"
  "okM (failM e) s T = False"
  by (auto simp: okM_def c_defs)

lemma okM_if [wp]: "okM (if b then f else g) s Q = (if b then okM f s Q else okM g s Q)"
  by simp

lemma okM_when [wp]: "okM (whenM b f) s Q = (if b then okM f s Q else Q () s)"
  by (simp add: whenM_def okM_basic)

lemma okM_ptr [wp]:
  "okM (case p of None \<Rightarrow> f | Some a \<Rightarrow> g a) s Q = (case p of None \<Rightarrow> okM f s Q | Some a \<Rightarrow> okM (g a) s Q)"
  by (cases p) auto

lemma bindM_Inr: "f s = Inr (x, s') \<Longrightarrow> bindM f g s = g x s'"
  by (simp add: bindM_def)

lemma bindM_Inl: "f s = Inl e \<Longrightarrow> bindM f g s = Inl e"
  by (simp add: bindM_def)

lemma bindM_return [simp]: "bindM (returnM x) g = g x"
  by (simp add: bindM_def returnM_def fun_eq_iff)

lemma bindM_assoc: "bindM (bindM f g) h = bindM f (\<lambda>x. bindM (g x) h)"
  by (auto simp: bindM_def fun_eq_iff split: sum.splits)

lemma thenM_Inr: "f s = Inr ((), s') \<Longrightarrow> thenM f g s = g s'"
  by (simp add: thenM_def bindM_def)

lemma thenM_Inl: "f s = Inl e \<Longrightarrow> thenM f g s = Inl e"
  by (simp add: thenM_def bindM_def)

lemma whenM_True [simp]: "whenM True f = f"
  and whenM_False [simp]: "whenM False f = returnM ()"
  by (simp_all add: whenM_def)

lemma bindM_get [simp]: "bindM (getM f) g s = g (f s) s"
  by (simp add: bindM_def getM_def)

lemma bindM_deref_Some: "h s a = Some v \<Longrightarrow> bindM (derefM h (Some a)) g s = g v s"
  by (simp add: bindM_def derefM_def)

lemma bindM_deref_None: "h s a = None \<Longrightarrow> bindM (derefM h (Some a)) g s = Inl Dangling"
  by (simp add: bindM_def derefM_def)

lemma bindM_deref_Null [simp]: "bindM (derefM h None) g s = Inl Null_Deref"
  by (simp add: bindM_def derefM_def)

lemma thenM_modify [simp]: "thenM (modifyM f) g s = g (f s)"
  by (simp add: thenM_def bindM_def modifyM_def)

lemma thenM_return [simp]: "thenM (returnM ()) g = g"
  by (simp add: thenM_def)

section \<open>Mutexes\<close>

text \<open>
  One thread runs a command; a mutex is free, held by the running thread, or destroyed. Locking a
  held mutex never returns, and using a destroyed one is undefined.
\<close>

datatype mutex = Unlocked | Locked | Destroyed

definition mutex_lock :: "mutex \<Rightarrow> ('s, mutex) cmd" where
  "mutex_lock m =
     (case m of Unlocked \<Rightarrow> returnM Locked | Locked \<Rightarrow> failM Self_Deadlock | Destroyed \<Rightarrow> failM Dangling)"

definition mutex_unlock :: "mutex \<Rightarrow> ('s, mutex) cmd" where
  "mutex_unlock m =
     (case m of Locked \<Rightarrow> returnM Unlocked | Unlocked \<Rightarrow> failM Self_Deadlock | Destroyed \<Rightarrow> failM Dangling)"

lemma mutex_lock_Unlocked [simp]: "mutex_lock Unlocked = returnM Locked"
  by (simp add: mutex_lock_def)

lemma mutex_unlock_Locked [simp]: "mutex_unlock Locked = returnM Unlocked"
  by (simp add: mutex_unlock_def)

section \<open>Linked lists in a heap\<close>

text \<open>
  A singly linked list is given by the \<open>next\<close> pointers of the allocated nodes, \<open>nx a = None\<close> for an
  address that holds no node. \<open>chain nx p xs\<close>: following the pointers from \<open>p\<close> visits exactly the
  nodes \<open>xs\<close> and ends in \<open>NULL\<close>.
\<close>

fun chain :: "(addr \<Rightarrow> ptr option) \<Rightarrow> ptr \<Rightarrow> addr list \<Rightarrow> bool" where
  "chain nx p [] = (p = None)"
| "chain nx p (a # as) =
     (p = Some a \<and> (case nx a of None \<Rightarrow> False | Some q \<Rightarrow> chain nx q as))"

lemma chain_Cons_iff: "chain nx p (a # as) \<longleftrightarrow> p = Some a \<and> (\<exists>q. nx a = Some q \<and> chain nx q as)"
  by (auto split: option.splits)

lemma chain_None [simp]: "chain nx None xs \<longleftrightarrow> xs = []"
  by (cases xs) auto

lemma chain_Some: "chain nx (Some a) xs \<longleftrightarrow> (\<exists>as q. xs = a # as \<and> nx a = Some q \<and> chain nx q as)"
  by (cases xs) (auto split: option.splits)

lemma chain_allocated: "chain nx p xs \<Longrightarrow> a \<in> set xs \<Longrightarrow> nx a \<noteq> None"
  by (induction xs arbitrary: p) (auto split: option.splits)

lemma chain_cong: "(\<And>a. a \<in> set xs \<Longrightarrow> nx a = nx' a) \<Longrightarrow> chain nx p xs = chain nx' p xs"
  by (induction xs arbitrary: p) (auto split: option.splits)

lemma chain_upd_other [simp]: "a \<notin> set xs \<Longrightarrow> chain (nx(a := v)) p xs = chain nx p xs"
  by (rule chain_cong) auto

lemma chain_unique: "chain nx p xs \<Longrightarrow> chain nx p ys \<Longrightarrow> xs = ys"
proof (induction xs arbitrary: p ys)
  case Nil
  then show ?case by simp
next
  case (Cons a xs)
  then show ?case by (auto simp: chain_Some split: option.splits)
qed

lemma chain_append: "chain nx p (xs @ a # ys) \<Longrightarrow> chain nx (Some a) (a # ys)"
  by (induction xs arbitrary: p) (force simp: chain_Cons_iff simp del: chain.simps(2))+

text \<open>A list that ends in \<open>NULL\<close> visits no node twice.\<close>

lemma chain_distinct: "chain nx p xs \<Longrightarrow> distinct xs"
proof (induction xs arbitrary: p)
  case Nil
  then show ?case by simp
next
  case (Cons a xs)
  then obtain q where q: "nx a = Some q" "chain nx q xs" by (auto split: option.splits)
  have "a \<notin> set xs"
  proof
    assume "a \<in> set xs"
    then obtain ys zs where "xs = ys @ a # zs" by (auto dest: split_list)
    with q have "chain nx q zs" "chain nx q (ys @ a # zs)" using chain_append [of nx q ys a zs] by auto
    then have "zs = ys @ a # zs" by (rule chain_unique)
    then show False by (metis append_self_conv2 append.assoc append_Cons append_Nil list.discI append_is_Nil_conv)
  qed
  with Cons.IH [OF q(2)] show ?case by simp
qed

text \<open>Appending a fresh node at the tail of a non-empty list, as \<open>tail->next = node\<close> does.\<close>

lemma chain_snoc:
  assumes "chain nx p (xs @ [t])" and "distinct (xs @ [t])" and "a \<notin> set (xs @ [t])"
  shows "chain (nx(t := Some (Some a), a := Some None)) p (xs @ [t, a])"
  using assms
proof (induction xs arbitrary: p)
  case Nil
  then show ?case by (auto split: option.splits)
next
  case (Cons b xs)
  then obtain q where q: "p = Some b" "nx b = Some q" "chain nx q (xs @ [t])"
    by (auto split: option.splits)
  have "chain (nx(t := Some (Some a), a := Some None)) q (xs @ [t, a])"
    by (rule Cons.IH) (use q Cons.prems in auto)
  with q Cons.prems show ?case by (simp only: append_Cons chain_Cons_iff) auto
qed

section \<open>Small facts on lists and maps\<close>

lemma last_snoc_eq: "xs \<noteq> [] \<Longrightarrow> \<exists>ys. xs = ys @ [last xs]"
  by (metis append_butlast_last_id)

lemma take_append_drop_take: "k \<le> length xs \<Longrightarrow> take k xs @ take m (drop k xs) = take (k + m) xs"
  by (simp add: take_add)

lemma Some_upd_neq: "m a = Some x \<Longrightarrow> m b = None \<Longrightarrow> a \<noteq> b"
  by auto

end
