(* ===== verification/Posix.thy ===== *)
theory Posix
  imports Prelude
begin

text \<open>
  The part of the operating system the servers rely on: the table of open descriptors, what the
  kernel will deliver on and accept from each socket, pipes, the interest lists of epoll and kqueue
  instances, \<open>errno\<close>, the clock and the memory allocator. Nondeterminism of the environment is data
  of the state: \<open>rx\<close> and \<open>tx\<close> script the outcomes of the coming \<open>read\<close> and \<open>write\<close> calls on a socket,
  \<open>ep_waits\<close> and \<open>kq_waits\<close> those of the coming waits, \<open>accepts\<close> the connections waiting at a listening
  socket, \<open>newfd\<close> the descriptors handed out next and
  \<open>mem\<close> the outcomes of the coming allocations. A theorem for every state is therefore a theorem for
  every behaviour of the peer, the kernel and the allocator.
  Every other theory extends the record \<open>kernel\<close> with the heap of its own objects, so that the
  operations here apply to each of the extended states.
\<close>

datatype errno_t = E_OK | EAGAIN | EINTR | EBADF | EEXIST | ENOENT | ECONNRESET | EPIPE | ENOMEM | EMFILE

text \<open>
  What the kernel holds for the next reads of a socket: a non-empty chunk of bytes, the end of
  the stream, or an error. An empty script is a read that would block.
\<close>

datatype rx_item = Chunk char string | Fin | RdErr errno_t

text \<open>What it answers the next write: the number of bytes it takes, or an error.\<close>

datatype tx_item = Accept nat | WrErr errno_t

text \<open>
  A byte of a pipe: a plain byte, or the \<open>k\<close>-th byte of a pointer or of an \<open>int\<close> that was written as raw memory.
\<close>

datatype pcell = PByte nat | PPtr addr nat | PInt int nat

text \<open>
  The user data registered with a descriptor: a \<open>void *\<close> that the server makes point at a connection,
  at the \<open>pipe_fd[0]\<close> or at the \<open>msg_pipe_fd[0]\<close> field of an I/O thread, or \<open>NULL\<close>; the smaller servers
  use the member \<open>data.fd\<close> of the union and store the descriptor itself.
\<close>

datatype udata = U_Null | U_Conn addr | U_Pipe addr | U_MsgPipe addr | U_Fd int

text \<open>The address and the port of a peer.\<close>

type_synonym sockaddr_in = "32 word \<times> 16 word"

datatype kfilter = EVFILT_READ | EVFILT_WRITE

record kernel =
  fd_open :: "int set"
  errno :: errno_t
  rx :: "int \<Rightarrow> rx_item list"
  tx :: "int \<Rightarrow> tx_item list"
  sent :: "int \<Rightarrow> string"
  pipe_peer :: "int \<Rightarrow> int"
  pipe_buf :: "int \<Rightarrow> pcell list"
  ep_interest :: "int \<Rightarrow> int \<Rightarrow> (32 word \<times> udata) option"
  kq_filters :: "int \<Rightarrow> int \<times> kfilter \<Rightarrow> (32 word \<times> udata) option"
  ep_waits :: "int \<Rightarrow> (errno_t + (udata \<times> 32 word) list) list"
  kq_waits :: "int \<Rightarrow> (errno_t + (int \<times> kfilter \<times> 32 word \<times> udata) list) list"
  newfd :: "int list"
  mem :: "bool list"
  next_addr :: addr
  now :: nat
  closes :: "int list"
  accepts :: "int \<Rightarrow> (errno_t + int \<times> sockaddr_in) list"

definition PIPE_CAPACITY :: nat where
  "PIPE_CAPACITY = 65536"

definition POINTER_SIZE :: nat where
  "POINTER_SIZE = 8"

section \<open>Memory\<close>

text \<open>
  \<open>malloc\<close>: an address that was never handed out before, or \<open>NULL\<close> where the script says so. Addresses
  are not reused, so a pointer to a freed object never becomes valid again.
\<close>

definition mallocM :: "('a kernel_scheme, ptr) cmd" where
  "mallocM s =
     (case mem s of
        [] \<Rightarrow> Inr (Some (next_addr s), s\<lparr>next_addr := Suc (next_addr s)\<rparr>)
      | ok # oks \<Rightarrow>
          if ok then Inr (Some (next_addr s), s\<lparr>next_addr := Suc (next_addr s), mem := oks\<rparr>)
          else Inr (None, s\<lparr>mem := oks\<rparr>))"

section \<open>Descriptors\<close>

text \<open>
  \<open>close\<close> removes the descriptor from every epoll and kqueue instance. Closing a descriptor that
  is not open fails with \<open>EBADF\<close>. The field \<open>closes\<close> records the calls in order.
\<close>

definition drop_fd :: "int \<Rightarrow> (int \<times> kfilter \<Rightarrow> 'v option) \<Rightarrow> int \<times> kfilter \<Rightarrow> 'v option" where
  "drop_fd fd m e = (if fst e = fd then None else m e)"

definition after_close :: "int \<Rightarrow> 'a kernel_scheme \<Rightarrow> 'a kernel_scheme" where
  "after_close fd s =
     (if fd \<in> fd_open s then
        s\<lparr>fd_open := fd_open s - {fd},
          ep_interest := (\<lambda>e. (ep_interest s e)(fd := None)),
          kq_filters := (\<lambda>q. drop_fd fd (kq_filters s q)),
          closes := closes s @ [fd]\<rparr>
      else s\<lparr>errno := EBADF, closes := closes s @ [fd]\<rparr>)"

definition sys_close :: "int \<Rightarrow> ('a kernel_scheme, int) cmd" where
  [c_exec]: "sys_close fd s = Inr (if fd \<in> fd_open s then 0 else - 1, after_close fd s)"

text \<open>\<open>if (fd >= 0) close(fd);\<close>\<close>

definition maybe_close :: "int \<Rightarrow> 'a kernel_scheme \<Rightarrow> 'a kernel_scheme" where
  "maybe_close fd s = (if 0 \<le> fd then after_close fd s else s)"

text \<open>
  A call that makes a descriptor (\<open>epoll_create1\<close>, \<open>kqueue\<close>): the scripted one, which is not open yet,
  or \<open>- 1\<close>.
\<close>

definition sys_newfd :: "('a kernel_scheme, int) cmd" where
  "sys_newfd s =
     (case newfd s of
        [] \<Rightarrow> Inr (- 1, s\<lparr>errno := EMFILE\<rparr>)
      | f # fs \<Rightarrow>
          if 0 \<le> f \<and> f \<notin> fd_open s then Inr (f, s\<lparr>fd_open := insert f (fd_open s), newfd := fs\<rparr>)
          else Inr (- 1, s\<lparr>errno := EMFILE, newfd := fs\<rparr>))"

text \<open>
  \<open>accept\<close> on a non-blocking listening socket: the descriptor of the next connection, which is not open yet, and the address of
  its peer, or \<open>- 1\<close>.
\<close>

definition sys_accept :: "int \<Rightarrow> ('a kernel_scheme, int \<times> sockaddr_in) cmd" where
  "sys_accept lfd s =
     (if lfd \<notin> fd_open s then Inr ((- 1, 0, 0), s\<lparr>errno := EBADF\<rparr>)
      else case accepts s lfd of
        [] \<Rightarrow> Inr ((- 1, 0, 0), s\<lparr>errno := EAGAIN\<rparr>)
      | Inl e # r \<Rightarrow> Inr ((- 1, 0, 0), s\<lparr>errno := e, accepts := (accepts s)(lfd := r)\<rparr>)
      | Inr (fd, a) # r \<Rightarrow>
          if 0 \<le> fd \<and> fd \<notin> fd_open s
          then Inr ((fd, a), s\<lparr>fd_open := insert fd (fd_open s), accepts := (accepts s)(lfd := r)\<rparr>)
          else Inr ((- 1, 0, 0), s\<lparr>errno := EMFILE, accepts := (accepts s)(lfd := r)\<rparr>))"

text \<open>\<open>read\<close> on a non-blocking socket: the result and the bytes stored in the caller's buffer.\<close>

definition sys_read :: "int \<Rightarrow> nat \<Rightarrow> ('a kernel_scheme, int \<times> string) cmd" where
  "sys_read fd cnt s =
     (if fd \<notin> fd_open s then Inr ((- 1, []), s\<lparr>errno := EBADF\<rparr>)
      else case rx s fd of
        [] \<Rightarrow> Inr ((- 1, []), s\<lparr>errno := EAGAIN\<rparr>)
      | Fin # _ \<Rightarrow> Inr ((0, []), s)
      | RdErr e # r \<Rightarrow> Inr ((- 1, []), s\<lparr>errno := e, rx := (rx s)(fd := r)\<rparr>)
      | Chunk c cs # r \<Rightarrow>
          let got = take cnt (c # cs);
              rest = (case drop cnt (c # cs) of [] \<Rightarrow> r | d # ds \<Rightarrow> Chunk d ds # r)
          in Inr ((int (length got), got), s\<lparr>rx := (rx s)(fd := rest)\<rparr>))"

text \<open>
  \<open>write\<close> on a non-blocking socket. The bytes come from memory, so an indeterminate one is a fault. A
  result of 0 leaves \<open>errno\<close> as it was.
\<close>

definition sys_write :: "int \<Rightarrow> cell list \<Rightarrow> ('a kernel_scheme, int) cmd" where
  "sys_write fd bs s =
     (if fd \<notin> fd_open s then Inr (- 1, s\<lparr>errno := EBADF\<rparr>)
      else if None \<in> set bs then Inl Uninitialised
      else case tx s fd of
        [] \<Rightarrow> Inr (- 1, s\<lparr>errno := EAGAIN\<rparr>)
      | WrErr e # r \<Rightarrow> Inr (- 1, s\<lparr>errno := e, tx := (tx s)(fd := r)\<rparr>)
      | Accept k # r \<Rightarrow>
          let n = min k (length bs)
          in Inr (int n, s\<lparr>tx := (tx s)(fd := r),
                           sent := (sent s)(fd := sent s fd @ map the (take n bs))\<rparr>))"

section \<open>Pipes\<close>

definition ptr_cells :: "addr \<Rightarrow> pcell list" where
  "ptr_cells a = map (PPtr a) [0..<POINTER_SIZE]"

text \<open>
  \<open>write\<close> to a non-blocking pipe of at most \<open>PIPE_BUF\<close> bytes is all or nothing; \<open>pipe_peer\<close> maps the
  write end to the read end, whose buffer receives the bytes.
\<close>

definition sys_pipe_write :: "int \<Rightarrow> pcell list \<Rightarrow> ('a kernel_scheme, int) cmd" where
  "sys_pipe_write fd cs s =
     (if fd \<notin> fd_open s then Inr (- 1, s\<lparr>errno := EBADF\<rparr>)
      else let r = pipe_peer s fd in
        if length (pipe_buf s r) + length cs \<le> PIPE_CAPACITY
        then Inr (int (length cs), s\<lparr>pipe_buf := (pipe_buf s)(r := pipe_buf s r @ cs)\<rparr>)
        else Inr (- 1, s\<lparr>errno := EAGAIN\<rparr>))"

definition sys_pipe_read :: "int \<Rightarrow> nat \<Rightarrow> ('a kernel_scheme, int \<times> pcell list) cmd" where
  "sys_pipe_read fd cnt s =
     (if fd \<notin> fd_open s then Inr ((- 1, []), s\<lparr>errno := EBADF\<rparr>)
      else case pipe_buf s fd of
        [] \<Rightarrow> Inr ((- 1, []), s\<lparr>errno := EAGAIN\<rparr>)
      | bs \<Rightarrow> Inr ((int (length (take cnt bs)), take cnt bs),
                   s\<lparr>pipe_buf := (pipe_buf s)(fd := drop cnt bs)\<rparr>))"

text \<open>
  \<open>pipe\<close>: the next two scripted descriptors become the read end and the write end of a new, empty pipe.
\<close>

definition sys_pipe :: "('a kernel_scheme, int \<times> int \<times> int) cmd" where
  "sys_pipe s =
     (case newfd s of
        r # w # fs \<Rightarrow>
          if 0 \<le> r \<and> 0 \<le> w \<and> r \<noteq> w \<and> r \<notin> fd_open s \<and> w \<notin> fd_open s
          then Inr ((0, r, w), s\<lparr>fd_open := insert r (insert w (fd_open s)), newfd := fs,
                                pipe_peer := (pipe_peer s)(w := r), pipe_buf := (pipe_buf s)(r := [])\<rparr>)
          else Inr ((- 1, - 1, - 1), s\<lparr>errno := EMFILE, newfd := fs\<rparr>)
      | _ \<Rightarrow> Inr ((- 1, - 1, - 1), s\<lparr>errno := EMFILE\<rparr>))"

text \<open>The pointer whose bytes were read, if they are the bytes of one pointer in order.\<close>

definition cells_ptr :: "pcell list \<Rightarrow> ptr" where
  "cells_ptr cs = (case cs of PPtr a 0 # _ \<Rightarrow> if cs = ptr_cells a then Some a else None | _ \<Rightarrow> None)"

section \<open>Readiness interfaces\<close>

datatype epoll_op = EPOLL_CTL_ADD | EPOLL_CTL_MOD | EPOLL_CTL_DEL

definition sys_epoll_ctl :: "int \<Rightarrow> epoll_op \<Rightarrow> int \<Rightarrow> 32 word \<times> udata \<Rightarrow> ('a kernel_scheme, int) cmd" where
  "sys_epoll_ctl epfd op fd ev s =
     (if epfd \<notin> fd_open s \<or> fd \<notin> fd_open s then Inr (- 1, s\<lparr>errno := EBADF\<rparr>)
      else case (op, ep_interest s epfd fd) of
        (EPOLL_CTL_ADD, Some _) \<Rightarrow> Inr (- 1, s\<lparr>errno := EEXIST\<rparr>)
      | (EPOLL_CTL_ADD, None) \<Rightarrow>
          Inr (0, s\<lparr>ep_interest := (ep_interest s)(epfd := (ep_interest s epfd)(fd := Some ev))\<rparr>)
      | (EPOLL_CTL_MOD, None) \<Rightarrow> Inr (- 1, s\<lparr>errno := ENOENT\<rparr>)
      | (EPOLL_CTL_MOD, Some _) \<Rightarrow>
          Inr (0, s\<lparr>ep_interest := (ep_interest s)(epfd := (ep_interest s epfd)(fd := Some ev))\<rparr>)
      | (EPOLL_CTL_DEL, None) \<Rightarrow> Inr (- 1, s\<lparr>errno := ENOENT\<rparr>)
      | (EPOLL_CTL_DEL, Some _) \<Rightarrow>
          Inr (0, s\<lparr>ep_interest := (ep_interest s)(epfd := (ep_interest s epfd)(fd := None))\<rparr>))"

text \<open>
  The change list of \<open>kevent\<close> with no room for events: changes are applied in order, and the
  first failing one ends the call with \<open>- 1\<close>. \<open>EV_DELETE\<close> of a filter that is not registered is \<open>ENOENT\<close>.
\<close>

datatype kchange = K_Add int kfilter "32 word" udata | K_Delete int kfilter

fun kevent_changes :: "int \<Rightarrow> kchange list \<Rightarrow> ('a kernel_scheme, int) cmd" where
  "kevent_changes kq [] s = Inr (0, s)"
| "kevent_changes kq (K_Add fd k flags ud # cs) s =
     (if kq \<notin> fd_open s \<or> fd \<notin> fd_open s then Inr (- 1, s\<lparr>errno := EBADF\<rparr>)
      else kevent_changes kq cs
        (s\<lparr>kq_filters := (kq_filters s)(kq := (kq_filters s kq)((fd, k) := Some (flags, ud)))\<rparr>))"
| "kevent_changes kq (K_Delete fd k # cs) s =
     (if kq \<notin> fd_open s \<or> fd \<notin> fd_open s then Inr (- 1, s\<lparr>errno := EBADF\<rparr>)
      else if kq_filters s kq (fd, k) = None then Inr (- 1, s\<lparr>errno := ENOENT\<rparr>)
      else kevent_changes kq cs
        (s\<lparr>kq_filters := (kq_filters s)(kq := (kq_filters s kq)((fd, k) := None))\<rparr>))"

text \<open>
  Waiting: at most \<open>maxevents\<close> of the scripted events are stored into the caller's array of \<open>cap\<close>
  entries, one more than fit is a write out of bounds; an empty script is a timeout.
\<close>

definition deliver :: "nat \<Rightarrow> int \<Rightarrow> 'e list \<Rightarrow> fault + (int \<times> 'e list)" where
  "deliver cap maxevents evs =
     (let got = take (nat maxevents) evs
      in if cap < length got then Inl Out_Of_Bounds else Inr (int (length got), got))"

definition sys_epoll_wait :: "int \<Rightarrow> nat \<Rightarrow> int \<Rightarrow> int \<Rightarrow> ('a kernel_scheme, int \<times> (udata \<times> 32 word) list) cmd" where
  "sys_epoll_wait epfd cap maxevents timeout s =
     (if epfd \<notin> fd_open s then Inr ((- 1, []), s\<lparr>errno := EBADF\<rparr>)
      else case ep_waits s epfd of
        [] \<Rightarrow> Inr ((0, []), s)
      | Inl e # r \<Rightarrow> Inr ((- 1, []), s\<lparr>errno := e, ep_waits := (ep_waits s)(epfd := r)\<rparr>)
      | Inr evs # r \<Rightarrow>
          (case deliver cap maxevents evs of
             Inl e \<Rightarrow> Inl e
           | Inr res \<Rightarrow> Inr (res, s\<lparr>ep_waits := (ep_waits s)(epfd := r)\<rparr>)))"

definition sys_kevent_wait ::
  "int \<Rightarrow> nat \<Rightarrow> int \<Rightarrow> (int \<times> int) option \<Rightarrow>
     ('a kernel_scheme, int \<times> (int \<times> kfilter \<times> 32 word \<times> udata) list) cmd" where
  "sys_kevent_wait kq cap maxevents ts s =
     (if kq \<notin> fd_open s then Inr ((- 1, []), s\<lparr>errno := EBADF\<rparr>)
      else case kq_waits s kq of
        [] \<Rightarrow> Inr ((0, []), s)
      | Inl e # r \<Rightarrow> Inr ((- 1, []), s\<lparr>errno := e, kq_waits := (kq_waits s)(kq := r)\<rparr>)
      | Inr evs # r \<Rightarrow>
          (case deliver cap maxevents evs of
             Inl e \<Rightarrow> Inl e
           | Inr res \<Rightarrow> Inr (res, s\<lparr>kq_waits := (kq_waits s)(kq := r)\<rparr>)))"

section \<open>Laws of the system calls\<close>

lemma okM_malloc [wp]:
  "okM mallocM s Q = (case mem s of
     [] \<Rightarrow> Q (Some (next_addr s)) (s\<lparr>next_addr := Suc (next_addr s)\<rparr>)
   | True # oks \<Rightarrow> Q (Some (next_addr s)) (s\<lparr>next_addr := Suc (next_addr s), mem := oks\<rparr>)
   | False # oks \<Rightarrow> Q None (s\<lparr>mem := oks\<rparr>))"
  by (auto simp: okM_def mallocM_def split: list.splits)

lemma okM_newfd [wp]:
  "okM sys_newfd s Q = (case newfd s of
     [] \<Rightarrow> Q (- 1) (s\<lparr>errno := EMFILE\<rparr>)
   | f # fs \<Rightarrow>
       if 0 \<le> f \<and> f \<notin> fd_open s then Q f (s\<lparr>fd_open := insert f (fd_open s), newfd := fs\<rparr>)
       else Q (- 1) (s\<lparr>errno := EMFILE, newfd := fs\<rparr>))"
  by (auto simp: okM_def sys_newfd_def split: list.splits)

lemma okM_close [wp]: "okM (sys_close f) s Q = Q (if f \<in> fd_open s then 0 else - 1) (after_close f s)"
  by (simp add: okM_def sys_close_def)

lemma okM_pipe:
  assumes "Q (- 1, - 1, - 1) (s\<lparr>errno := EMFILE\<rparr>)" and "\<And>fs. Q (- 1, - 1, - 1) (s\<lparr>errno := EMFILE, newfd := fs\<rparr>)"
    and "\<And>r w fs. 0 \<le> r \<Longrightarrow> 0 \<le> w \<Longrightarrow> r \<noteq> w \<Longrightarrow> r \<notin> fd_open s \<Longrightarrow> w \<notin> fd_open s \<Longrightarrow>
      Q (0, r, w) (s\<lparr>fd_open := insert r (insert w (fd_open s)), newfd := fs,
                     pipe_peer := (pipe_peer s)(w := r), pipe_buf := (pipe_buf s)(r := [])\<rparr>)"
  shows "okM sys_pipe s Q"
  using assms by (auto simp: okM_def sys_pipe_def split: list.splits)

lemma length_ptr_cells [simp]: "length (ptr_cells a) = POINTER_SIZE"
  by (simp add: ptr_cells_def)

lemma cells_ptr_roundtrip [simp]: "cells_ptr (ptr_cells a) = Some a"
  by (simp add: cells_ptr_def ptr_cells_def POINTER_SIZE_def upt_rec)

lemma after_close_closed: "fd \<notin> fd_open (after_close fd s)"
  by (simp add: after_close_def)

lemma sys_close_again:
  "sys_close fd (after_close fd s) = Inr (- 1, (after_close fd s)\<lparr>errno := EBADF, closes := closes s @ [fd, fd]\<rparr>)"
  by (simp add: sys_close_def after_close_def)

lemma after_close_frame [simp]:
  "rx (after_close fd s) = rx s" "tx (after_close fd s) = tx s" "sent (after_close fd s) = sent s"
  "pipe_buf (after_close fd s) = pipe_buf s" "pipe_peer (after_close fd s) = pipe_peer s"
  "mem (after_close fd s) = mem s" "next_addr (after_close fd s) = next_addr s"
  "now (after_close fd s) = now s" "closes (after_close fd s) = closes s @ [fd]"
  "fd_open (after_close fd s) = fd_open s - {fd}"
  by (simp_all add: after_close_def)

lemma maybe_close_frame [simp]:
  "rx (maybe_close fd s) = rx s" "tx (maybe_close fd s) = tx s" "sent (maybe_close fd s) = sent s"
  "pipe_buf (maybe_close fd s) = pipe_buf s" "pipe_peer (maybe_close fd s) = pipe_peer s"
  "mem (maybe_close fd s) = mem s" "next_addr (maybe_close fd s) = next_addr s"
  "now (maybe_close fd s) = now s"
  by (simp_all add: maybe_close_def)

lemma closes_maybe_close: "closes (maybe_close fd s) = closes s @ (if 0 \<le> fd then [fd] else [])"
  by (simp add: maybe_close_def)

lemma maybe_close_negative [simp]: "maybe_close (- 1) s = s"
  by (simp add: maybe_close_def)

text \<open>The bytes still to be read from a socket, and a measure of the reads they take.\<close>

fun item_bytes :: "rx_item \<Rightarrow> string" where
  "item_bytes (Chunk c cs) = c # cs"
| "item_bytes Fin = []"
| "item_bytes (RdErr e) = []"

fun rx_size :: "rx_item list \<Rightarrow> nat" where
  "rx_size [] = 0"
| "rx_size (Chunk c cs # r) = Suc (Suc (length cs)) + rx_size r"
| "rx_size (Fin # r) = Suc (rx_size r)"
| "rx_size (RdErr e # r) = Suc (rx_size r)"

end
