(* ===== verification/Event_Loop.thy ===== *)
theory Event_Loop
  imports Posix
begin

text \<open>
  \<open>advanced-reactor-server/event_loop.h\<close>, \<open>event_loop.c\<close>, \<open>event_loop_epoll.c\<close> and \<open>event_loop_kqueue.c\<close>:
  the platform-independent event loop and its two back ends. The operation table \<open>loop->ops\<close> is the
  back end it belongs to. The state gains the heap \<open>loops\<close>. The contract both back ends offer
  to the I/O threads is the locale \<open>event_backend\<close>.
\<close>

unbundle bit_operations_syntax

section \<open>Event masks\<close>

definition EVENT_READ :: "32 word" where "EVENT_READ = 0x01"
definition EVENT_WRITE :: "32 word" where "EVENT_WRITE = 0x02"
definition EVENT_ERROR :: "32 word" where "EVENT_ERROR = 0x04"
definition EVENT_HUP :: "32 word" where "EVENT_HUP = 0x08"
definition EVENT_RDHUP :: "32 word" where "EVENT_RDHUP = 0x10"
definition EVENT_ET :: "32 word" where "EVENT_ET = 0x20"

text \<open>The masks of \<open>sys/epoll.h\<close> and the flags of \<open>sys/event.h\<close>.\<close>

definition EPOLLIN :: "32 word" where "EPOLLIN = 0x001"
definition EPOLLOUT :: "32 word" where "EPOLLOUT = 0x004"
definition EPOLLERR :: "32 word" where "EPOLLERR = 0x008"
definition EPOLLHUP :: "32 word" where "EPOLLHUP = 0x010"
definition EPOLLRDHUP :: "32 word" where "EPOLLRDHUP = 0x2000"
definition EPOLLET :: "32 word" where "EPOLLET = 0x80000000"
definition EV_ADD :: "32 word" where "EV_ADD = 0x0001"
definition EV_ENABLE :: "32 word" where "EV_ENABLE = 0x0004"
definition EV_CLEAR :: "32 word" where "EV_CLEAR = 0x0020"
definition EV_ERROR :: "32 word" where "EV_ERROR = 0x4000"
definition EV_EOF :: "32 word" where "EV_EOF = 0x8000"

text \<open>\<open>if (b) acc |= f;\<close>\<close>

definition or_if :: "bool \<Rightarrow> 32 word \<Rightarrow> 32 word \<Rightarrow> 32 word" where
  "or_if b f acc = (if b then acc OR f else acc)"

definition to_epoll_events :: "32 word \<Rightarrow> 32 word" where
  "to_epoll_events events =
    (let e0 = 0;
         e1 = or_if (events AND EVENT_READ \<noteq> 0) EPOLLIN e0;
         e2 = or_if (events AND EVENT_WRITE \<noteq> 0) EPOLLOUT e1;
         e3 = or_if (events AND EVENT_ERROR \<noteq> 0) EPOLLERR e2;
         e4 = or_if (events AND EVENT_HUP \<noteq> 0) EPOLLHUP e3;
         e5 = or_if (events AND EVENT_RDHUP \<noteq> 0) EPOLLRDHUP e4
     in or_if (events AND EVENT_ET \<noteq> 0) EPOLLET e5)"

definition from_epoll_events :: "32 word \<Rightarrow> 32 word" where
  "from_epoll_events epoll_events =
    (let e0 = 0;
         e1 = or_if (epoll_events AND EPOLLIN \<noteq> 0) EVENT_READ e0;
         e2 = or_if (epoll_events AND EPOLLOUT \<noteq> 0) EVENT_WRITE e1;
         e3 = or_if (epoll_events AND EPOLLERR \<noteq> 0) EVENT_ERROR e2;
         e4 = or_if (epoll_events AND EPOLLHUP \<noteq> 0) EVENT_HUP e3
     in or_if (epoll_events AND EPOLLRDHUP \<noteq> 0) EVENT_RDHUP e4)"

section \<open>Event loops\<close>

record event =
  ev_data :: udata
  ev_events :: "32 word"
  ev_fd :: int

datatype backend = epoll_ops | kqueue_ops

text \<open>
  \<open>epoll_impl_t\<close> with the size of its event array; \<open>kqueue_impl_t\<close> with the size of its event
  array, the pending changes and their limit.
\<close>

datatype impl = Epoll int nat | Kqueue int nat "kchange list" int

record event_loop =
  l_impl :: "impl option"
  l_ops :: "backend option"
  l_max_events :: int

record loop_store = kernel +
  loops :: "addr \<Rightarrow> event_loop option"

definition loop_load :: "ptr \<Rightarrow> ('a loop_store_scheme, event_loop) cmd" where
  "loop_load p = derefM loops p"

definition loop_set :: "addr \<Rightarrow> event_loop option \<Rightarrow> ('a loop_store_scheme, unit) cmd" where
  "loop_set a l = modifyM (\<lambda>s. s\<lparr>loops := (loops s)(a := l)\<rparr>)"

subsection \<open>The epoll back end\<close>

definition epoll_create_impl :: "addr \<Rightarrow> int \<Rightarrow> ('a loop_store_scheme, int) cmd" where
  "epoll_create_impl a max_events =
     bindM mallocM (\<lambda>impl.
       if impl = None then returnM (- 1)
       else bindM sys_newfd (\<lambda>epfd.
         if epfd = - 1 then returnM (- 1)
         else bindM mallocM (\<lambda>events.
           if events = None then bindM (sys_close epfd) (\<lambda>_. returnM (- 1))
           else bindM (loop_load (Some a)) (\<lambda>l.
             thenM (loop_set a (Some (l\<lparr>l_impl := Some (Epoll epfd (nat max_events)), l_max_events := max_events\<rparr>)))
                   (returnM 0)))))"

definition epoll_destroy_impl :: "addr \<Rightarrow> ('a loop_store_scheme, unit) cmd" where
  "epoll_destroy_impl a =
     bindM (loop_load (Some a)) (\<lambda>l. case l_impl l of
       Some (Epoll epfd cap) \<Rightarrow>
         thenM (whenM (0 \<le> epfd) (bindM (sys_close epfd) (\<lambda>_. returnM ())))
               (loop_set a (Some (l\<lparr>l_impl := None\<rparr>)))
     | _ \<Rightarrow> returnM ())"

definition epoll_add_impl :: "event_loop \<Rightarrow> int \<Rightarrow> 32 word \<Rightarrow> udata \<Rightarrow> ('a loop_store_scheme, int) cmd" where
  "epoll_add_impl l fd events data = (case l_impl l of
     Some (Epoll epfd cap) \<Rightarrow>
       if fd < 0 then returnM (- 1)
       else sys_epoll_ctl epfd EPOLL_CTL_ADD fd (to_epoll_events events, data)
   | _ \<Rightarrow> returnM (- 1))"

definition epoll_mod_impl :: "event_loop \<Rightarrow> int \<Rightarrow> 32 word \<Rightarrow> udata \<Rightarrow> ('a loop_store_scheme, int) cmd" where
  "epoll_mod_impl l fd events data = (case l_impl l of
     Some (Epoll epfd cap) \<Rightarrow>
       if fd < 0 then returnM (- 1)
       else sys_epoll_ctl epfd EPOLL_CTL_MOD fd (to_epoll_events events, data)
   | _ \<Rightarrow> returnM (- 1))"

definition epoll_del_impl :: "event_loop \<Rightarrow> int \<Rightarrow> ('a loop_store_scheme, int) cmd" where
  "epoll_del_impl l fd = (case l_impl l of
     Some (Epoll epfd cap) \<Rightarrow>
       if fd < 0 then returnM (- 1)
       else sys_epoll_ctl epfd EPOLL_CTL_DEL fd (0, U_Null)
   | _ \<Rightarrow> returnM (- 1))"

definition epoll_wait_impl :: "event_loop \<Rightarrow> int \<Rightarrow> int \<Rightarrow> ('a loop_store_scheme, int \<times> event list) cmd" where
  "epoll_wait_impl l max_events timeout = (case l_impl l of
     Some (Epoll epfd cap) \<Rightarrow>
       bindM (sys_epoll_wait epfd cap max_events timeout) (\<lambda>(n, evs).
         returnM (n, map (\<lambda>(d, m). \<lparr>ev_data = d, ev_events = from_epoll_events m, ev_fd = - 1\<rparr>) evs))
   | _ \<Rightarrow> returnM (- 1, []))"

subsection \<open>The kqueue back end\<close>

definition kqueue_create_impl :: "addr \<Rightarrow> int \<Rightarrow> ('a loop_store_scheme, int) cmd" where
  "kqueue_create_impl a max_events =
     bindM mallocM (\<lambda>impl.
       if impl = None then returnM (- 1)
       else bindM sys_newfd (\<lambda>kq.
         if kq = - 1 then returnM (- 1)
         else bindM mallocM (\<lambda>events.
           if events = None then bindM (sys_close kq) (\<lambda>_. returnM (- 1))
           else bindM mallocM (\<lambda>changes.
             if changes = None then bindM (sys_close kq) (\<lambda>_. returnM (- 1))
             else bindM (loop_load (Some a)) (\<lambda>l.
               thenM (loop_set a (Some (l\<lparr>l_impl := Some (Kqueue kq (nat max_events) [] max_events),
                                         l_max_events := max_events\<rparr>)))
                     (returnM 0))))))"

definition kqueue_destroy_impl :: "addr \<Rightarrow> ('a loop_store_scheme, unit) cmd" where
  "kqueue_destroy_impl a =
     bindM (loop_load (Some a)) (\<lambda>l. case l_impl l of
       Some (Kqueue kq cap cs maxc) \<Rightarrow>
         thenM (whenM (0 \<le> kq) (bindM (sys_close kq) (\<lambda>_. returnM ())))
               (loop_set a (Some (l\<lparr>l_impl := None\<rparr>)))
     | _ \<Rightarrow> returnM ())"

text \<open>
  The change list built by \<open>kqueue_add_impl\<close>, \<open>None\<close> where the code returns \<open>- 1\<close> because the array is full.
\<close>

definition kqueue_add_changes :: "int \<Rightarrow> int \<Rightarrow> 32 word \<Rightarrow> udata \<Rightarrow> kchange list option" where
  "kqueue_add_changes max_changes fd events data =
     (let flags = or_if (events AND EVENT_ET \<noteq> 0) EV_CLEAR (EV_ADD OR EV_ENABLE);
          step = (\<lambda>b k cs. if b then (if max_changes \<le> int (length cs) then None
                                        else Some (cs @ [K_Add fd k flags data])) else Some cs)
      in case step (events AND EVENT_READ \<noteq> 0) EVFILT_READ [] of
           None \<Rightarrow> None
         | Some cs \<Rightarrow> step (events AND EVENT_WRITE \<noteq> 0) EVFILT_WRITE cs)"

text \<open>\<open>nchanges\<close> is reset before and after, so the pending changes are empty between two operations.\<close>

definition kqueue_add_impl :: "event_loop \<Rightarrow> int \<Rightarrow> 32 word \<Rightarrow> udata \<Rightarrow> ('a loop_store_scheme, int) cmd" where
  "kqueue_add_impl l fd events data = (case l_impl l of
     Some (Kqueue kq cap cs maxc) \<Rightarrow>
       if fd < 0 then returnM (- 1)
       else (case kqueue_add_changes maxc fd events data of
          None \<Rightarrow> returnM (- 1)
        | Some changes \<Rightarrow>
            bindM (kevent_changes kq changes) (\<lambda>ret. returnM (if ret < 0 then - 1 else 0)))
   | _ \<Rightarrow> returnM (- 1))"

definition kqueue_mod_impl :: "event_loop \<Rightarrow> int \<Rightarrow> 32 word \<Rightarrow> udata \<Rightarrow> ('a loop_store_scheme, int) cmd" where
  "kqueue_mod_impl l fd events data = kqueue_add_impl l fd events data"

definition kqueue_del_impl :: "event_loop \<Rightarrow> int \<Rightarrow> ('a loop_store_scheme, int) cmd" where
  "kqueue_del_impl l fd = (case l_impl l of
     Some (Kqueue kq cap cs maxc) \<Rightarrow>
       if fd < 0 then returnM (- 1)
       else (let c1 = (if 0 < maxc then [K_Delete fd EVFILT_READ] else []);
                 c2 = (if int (length c1) < maxc then c1 @ [K_Delete fd EVFILT_WRITE] else c1)
             in bindM (kevent_changes kq c2) (\<lambda>ret. returnM (if ret < 0 then - 1 else 0)))
   | _ \<Rightarrow> returnM (- 1))"

text \<open>The \<open>timespec\<close> of a wait: none for a negative timeout in milliseconds.\<close>

definition kqueue_timeout :: "int \<Rightarrow> (int \<times> int) option" where
  "kqueue_timeout timeout =
     (if 0 \<le> timeout then Some (timeout div 1000, (timeout mod 1000) * 1000000) else None)"

definition kqueue_event :: "int \<times> kfilter \<times> 32 word \<times> udata \<Rightarrow> event" where
  "kqueue_event = (\<lambda>(ident, filt, flags, ud).
     (let e0 = 0;
          e1 = or_if (filt = EVFILT_READ) EVENT_READ e0;
          e2 = or_if (filt = EVFILT_WRITE) EVENT_WRITE e1;
          e3 = or_if (flags AND EV_EOF \<noteq> 0) EVENT_HUP e2;
          e4 = or_if (flags AND EV_ERROR \<noteq> 0) EVENT_ERROR e3
      in \<lparr>ev_data = ud, ev_events = e4, ev_fd = ident\<rparr>))"

definition kqueue_wait_impl :: "event_loop \<Rightarrow> int \<Rightarrow> int \<Rightarrow> ('a loop_store_scheme, int \<times> event list) cmd" where
  "kqueue_wait_impl l max_events timeout = (case l_impl l of
     Some (Kqueue kq cap cs maxc) \<Rightarrow>
       bindM (sys_kevent_wait kq cap max_events (kqueue_timeout timeout)) (\<lambda>(n, evs).
         returnM (n, map kqueue_event evs))
   | _ \<Rightarrow> returnM (- 1, []))"

subsection \<open>The public interface\<close>

text \<open>\<open>platform\<close> is the back end the preprocessor selects.\<close>

definition event_loop_create :: "backend \<Rightarrow> int \<Rightarrow> ('a loop_store_scheme, ptr) cmd" where
  "event_loop_create platform max_events =
     bindM mallocM (\<lambda>p. case p of
       None \<Rightarrow> returnM None
     | Some a \<Rightarrow>
         thenM (loop_set a (Some \<lparr>l_impl = None, l_ops = Some platform, l_max_events = 0\<rparr>))
        (bindM (case platform of epoll_ops \<Rightarrow> epoll_create_impl a max_events
                             | kqueue_ops \<Rightarrow> kqueue_create_impl a max_events) (\<lambda>r.
           if r < 0 then thenM (loop_set a None) (returnM None) else returnM (Some a))))"

definition event_loop_destroy :: "ptr \<Rightarrow> ('a loop_store_scheme, unit) cmd" where
  "event_loop_destroy loop = (case loop of
     None \<Rightarrow> returnM ()
   | Some a \<Rightarrow>
       bindM (loop_load (Some a)) (\<lambda>l.
       thenM (case l_ops l of
                None \<Rightarrow> returnM ()
              | Some epoll_ops \<Rightarrow> epoll_destroy_impl a
              | Some kqueue_ops \<Rightarrow> kqueue_destroy_impl a)
             (loop_set a None)))"

definition event_loop_add :: "ptr \<Rightarrow> int \<Rightarrow> 32 word \<Rightarrow> udata \<Rightarrow> ('a loop_store_scheme, int) cmd" where
  "event_loop_add loop fd events data = (case loop of
     None \<Rightarrow> returnM (- 1)
   | Some a \<Rightarrow>
       bindM (loop_load (Some a)) (\<lambda>l. case l_ops l of
         None \<Rightarrow> returnM (- 1)
       | Some epoll_ops \<Rightarrow> epoll_add_impl l fd events data
       | Some kqueue_ops \<Rightarrow> kqueue_add_impl l fd events data))"

definition event_loop_mod :: "ptr \<Rightarrow> int \<Rightarrow> 32 word \<Rightarrow> udata \<Rightarrow> ('a loop_store_scheme, int) cmd" where
  "event_loop_mod loop fd events data = (case loop of
     None \<Rightarrow> returnM (- 1)
   | Some a \<Rightarrow>
       bindM (loop_load (Some a)) (\<lambda>l. case l_ops l of
         None \<Rightarrow> returnM (- 1)
       | Some epoll_ops \<Rightarrow> epoll_mod_impl l fd events data
       | Some kqueue_ops \<Rightarrow> kqueue_mod_impl l fd events data))"

definition event_loop_del :: "ptr \<Rightarrow> int \<Rightarrow> ('a loop_store_scheme, int) cmd" where
  "event_loop_del loop fd = (case loop of
     None \<Rightarrow> returnM (- 1)
   | Some a \<Rightarrow>
       bindM (loop_load (Some a)) (\<lambda>l. case l_ops l of
         None \<Rightarrow> returnM (- 1)
       | Some epoll_ops \<Rightarrow> epoll_del_impl l fd
       | Some kqueue_ops \<Rightarrow> kqueue_del_impl l fd))"

definition event_loop_wait :: "ptr \<Rightarrow> int \<Rightarrow> int \<Rightarrow> ('a loop_store_scheme, int \<times> event list) cmd" where
  "event_loop_wait loop max_events timeout = (case loop of
     None \<Rightarrow> returnM (- 1, [])
   | Some a \<Rightarrow>
       bindM (loop_load (Some a)) (\<lambda>l. case l_ops l of
         None \<Rightarrow> returnM (- 1, [])
       | Some epoll_ops \<Rightarrow> epoll_wait_impl l max_events timeout
       | Some kqueue_ops \<Rightarrow> kqueue_wait_impl l max_events timeout))"

section \<open>What a loop watches\<close>

definition RW :: "32 word" where
  "RW = EVENT_READ OR EVENT_WRITE"

text \<open>The read and write events for which the loop at \<open>a\<close> watches descriptor \<open>fd\<close>.\<close>

definition loop_wants :: "addr \<Rightarrow> 'a loop_store_scheme \<Rightarrow> int \<Rightarrow> 32 word" where
  "loop_wants a s fd = (case loops s a of
     None \<Rightarrow> 0
   | Some l \<Rightarrow> (case l_impl l of
       None \<Rightarrow> 0
     | Some (Epoll epfd cap) \<Rightarrow>
         (case ep_interest s epfd fd of None \<Rightarrow> 0 | Some (m, d) \<Rightarrow> from_epoll_events m AND RW)
     | Some (Kqueue kq cap cs maxc) \<Rightarrow>
         or_if (kq_filters s kq (fd, EVFILT_WRITE) \<noteq> None) EVENT_WRITE
           (or_if (kq_filters s kq (fd, EVFILT_READ) \<noteq> None) EVENT_READ 0)))"

definition loop_registered :: "addr \<Rightarrow> 'a loop_store_scheme \<Rightarrow> int \<Rightarrow> bool" where
  "loop_registered a s fd = (case loops s a of
     None \<Rightarrow> False
   | Some l \<Rightarrow> (case l_impl l of
       None \<Rightarrow> False
     | Some (Epoll epfd cap) \<Rightarrow> ep_interest s epfd fd \<noteq> None
     | Some (Kqueue kq cap cs maxc) \<Rightarrow> loop_wants a s fd \<noteq> 0))"

text \<open>The loop at \<open>a\<close> uses the back end \<open>be\<close>, its instance and the descriptor are open.\<close>

definition loop_ready :: "backend \<Rightarrow> addr \<Rightarrow> 'a loop_store_scheme \<Rightarrow> int \<Rightarrow> bool" where
  "loop_ready be a s fd \<longleftrightarrow> 0 \<le> fd \<and> fd \<in> fd_open s \<and> (case loops s a of
     None \<Rightarrow> False
   | Some l \<Rightarrow> l_ops l = Some be \<and> (case (be, l_impl l) of
       (epoll_ops, Some (Epoll epfd cap)) \<Rightarrow> epfd \<in> fd_open s
     | (kqueue_ops, Some (Kqueue kq cap cs maxc)) \<Rightarrow> kq \<in> fd_open s \<and> 2 \<le> maxc
     | _ \<Rightarrow> False))"

locale event_backend =
  fixes ready :: "'s \<Rightarrow> int \<Rightarrow> bool"
    and registered :: "'s \<Rightarrow> int \<Rightarrow> bool"
    and wants :: "'s \<Rightarrow> int \<Rightarrow> 32 word"
    and add :: "int \<Rightarrow> 32 word \<Rightarrow> udata \<Rightarrow> ('s, int) cmd"
    and modify :: "int \<Rightarrow> 32 word \<Rightarrow> udata \<Rightarrow> ('s, int) cmd"
  assumes add_new: "ready s fd \<Longrightarrow> \<not> registered s fd \<Longrightarrow> ev AND RW \<noteq> 0 \<Longrightarrow>
      \<exists>s'. add fd ev d s = Inr (0, s') \<and> ready s' = ready s \<and> registered s' fd \<and> wants s' fd = ev AND RW"
    and modify_covers: "ready s fd \<Longrightarrow> registered s fd \<Longrightarrow>
      \<exists>s'. modify fd ev d s = Inr (0, s') \<and> ready s' = ready s \<and> wants s' fd AND (ev AND RW) = ev AND RW"
begin

text \<open>
  What the I/O thread relies on: a connection registered for reading that is then switched to
  writing is watched for writing, and both calls succeed.
\<close>

lemma add_then_modify:
  assumes "ready s fd" and "\<not> registered s fd" and "ev AND RW \<noteq> 0"
  shows "\<exists>s'. bindM (add fd ev d) (\<lambda>_. modify fd ev' d) s = Inr (0, s') \<and> wants s' fd AND (ev' AND RW) = ev' AND RW"
proof -
  obtain s1 where "add fd ev d s = Inr (0, s1)" "ready s1 = ready s" "registered s1 fd"
    using add_new [OF assms] by blast
  with assms modify_covers [of s1 fd ev' d] show ?thesis by (auto simp: bindM_Inr)
qed

end

text \<open>The event array of the loop has the size the loop was created with.\<close>

definition loop_sized :: "event_loop \<Rightarrow> bool" where
  "loop_sized l = (case l_impl l of
     None \<Rightarrow> True
   | Some (Epoll epfd cap) \<Rightarrow> cap = nat (l_max_events l)
   | Some (Kqueue kq cap cs maxc) \<Rightarrow> cap = nat (l_max_events l))"

text \<open>
  The outcome of creating a loop for \<open>n\<close> events: nothing is left behind on failure; on success there is one
  new loop of that size and one new descriptor, its instance.
\<close>

definition loop_created :: "backend \<Rightarrow> int \<Rightarrow> 'a loop_store_scheme \<Rightarrow> ptr \<Rightarrow> 'a loop_store_scheme \<Rightarrow> bool" where
  "loop_created be n s p s' = (case p of
     None \<Rightarrow> fd_open s' = fd_open s \<and> loops s' = loops s
   | Some a \<Rightarrow> \<exists>l fd. loops s' = (loops s)(a \<mapsto> l) \<and> loop_sized l \<and> l_max_events l = n \<and> l_ops l = Some be \<and>
        0 \<le> fd \<and> fd \<notin> fd_open s \<and> fd_open s' = insert fd (fd_open s) \<and>
        l_impl l = Some (case be of epoll_ops \<Rightarrow> Epoll fd (nat n) | kqueue_ops \<Rightarrow> Kqueue fd (nat n) [] n))"

text \<open>
  A concrete store: an epoll loop at address 1 on descriptor 3 and a kqueue loop at address 2 on
  descriptor 4; descriptor 5 is open.
\<close>

definition demo_loop_store :: loop_store where
  "demo_loop_store =
     \<lparr>fd_open = {3, 4, 5}, errno = E_OK, rx = (\<lambda>_. []), tx = (\<lambda>_. []), sent = (\<lambda>_. []),
      pipe_peer = id, pipe_buf = (\<lambda>_. []), ep_interest = (\<lambda>_ _. None),
      kq_filters = (\<lambda>_ _. None), ep_waits = (\<lambda>_. [Inr [(U_Conn 0, EPOLLIN)]]), kq_waits = (\<lambda>_. []), newfd = [],
      mem = [], next_addr = 100, now = 0, closes = [], accepts = (\<lambda>_. []),
      loops = [1 \<mapsto> \<lparr>l_impl = Some (Epoll 3 10), l_ops = Some epoll_ops, l_max_events = 10\<rparr>,
               2 \<mapsto> \<lparr>l_impl = Some (Kqueue 4 10 [] 10), l_ops = Some kqueue_ops, l_max_events = 10\<rparr>]\<rparr>"

section \<open>Masks\<close>

lemmas event_flags = EVENT_READ_def EVENT_WRITE_def EVENT_ERROR_def EVENT_HUP_def EVENT_RDHUP_def EVENT_ET_def
lemmas epoll_flags = EPOLLIN_def EPOLLOUT_def EPOLLERR_def EPOLLHUP_def EPOLLRDHUP_def EPOLLET_def

lemma and_single_bit: "(x :: 32 word) AND 2 ^ n = (if x AND 2 ^ n \<noteq> 0 then 2 ^ n else 0)"
  by (rule bit_eqI) (auto simp: and_exp_eq_0_iff_not_bit bit_and_iff bit_exp_iff split: if_splits)

lemma and_low_bits: "(x :: 32 word) AND 0x1F = (x AND 1) OR (x AND 2) OR (x AND 4) OR (x AND 8) OR (x AND 16)"
  by (simp flip: bit.conj_disj_distrib)

lemma from_to_epoll: "from_epoll_events (to_epoll_events x) = x AND 0x1F"
  unfolding and_low_bits
  using and_single_bit [of x 0] and_single_bit [of x 1] and_single_bit [of x 2] and_single_bit [of x 3] and_single_bit [of x 4]
  by (simp add: from_epoll_events_def to_epoll_events_def or_if_def event_flags epoll_flags Let_def split: if_splits)

lemma RW_and: "x AND RW = (x AND 1) OR (x AND 2)"
  by (simp add: RW_def event_flags flip: bit.conj_disj_distrib)

lemma RW_split: "x AND RW = or_if (x AND EVENT_WRITE \<noteq> 0) EVENT_WRITE (or_if (x AND EVENT_READ \<noteq> 0) EVENT_READ 0)"
  unfolding RW_and using and_single_bit [of x 0] and_single_bit [of x 1]
  by (simp add: or_if_def event_flags split: if_splits)

lemma from_to_epoll_RW: "from_epoll_events (to_epoll_events x) AND RW = x AND RW"
  by (simp add: from_to_epoll RW_def event_flags and.assoc)

section \<open>The back ends meet the contract\<close>

lemma loop_ready_epoll:
  assumes "loop_ready epoll_ops a s fd"
  obtains l epfd cap where "loops s a = Some l" "l_ops l = Some epoll_ops" "l_impl l = Some (Epoll epfd cap)"
    "epfd \<in> fd_open s" "fd \<in> fd_open s" "0 \<le> fd"
  using assms by (auto simp: loop_ready_def split: option.splits impl.splits)

lemma loop_ready_kqueue:
  assumes "loop_ready kqueue_ops a s fd"
  obtains l kq cap cs maxc where "loops s a = Some l" "l_ops l = Some kqueue_ops"
    "l_impl l = Some (Kqueue kq cap cs maxc)" "kq \<in> fd_open s" "2 \<le> maxc" "fd \<in> fd_open s" "0 \<le> fd"
  using assms by (auto simp: loop_ready_def split: option.splits impl.splits)

lemma loop_load_Some [c_exec]: "loops s a = Some l \<Longrightarrow> loop_load (Some a) s = Inr (l, s)"
  by (simp add: loop_load_def derefM_def)

lemma loop_load_None [c_exec]: "loops s a = None \<Longrightarrow> loop_load (Some a) s = Inl Dangling"
  by (simp add: loop_load_def derefM_def)

lemma okM_loop_load [wp]: "okM (loop_load (Some a)) s Q = (case loops s a of None \<Rightarrow> False | Some l \<Rightarrow> Q l s)"
  by (auto simp: okM_def loop_load_def derefM_def split: option.splits)

lemma okM_loop_set [wp]: "okM (loop_set a l) s Q = Q () (s\<lparr>loops := (loops s)(a := l)\<rparr>)"
  by (simp add: loop_set_def wp)

lemma loops_after_close [simp]: "loops (after_close f s) = loops s"
  by (simp add: after_close_def)

lemma loop_ready_cong:
  "loops s' = loops s \<Longrightarrow> fd_open s' = fd_open s \<Longrightarrow> loop_ready be a s' = loop_ready be a s"
  unfolding loop_ready_def [abs_def] by (simp only:)

lemma epoll_add_exec:
  assumes "loop_ready epoll_ops a s fd" and "\<not> loop_registered a s fd"
  shows "\<exists>s'. event_loop_add (Some a) fd ev d s = Inr (0, s') \<and> loops s' = loops s \<and> fd_open s' = fd_open s \<and>
           loop_registered a s' fd \<and> loop_wants a s' fd = ev AND RW"
proof -
  from assms(1) obtain l epfd cap where l: "loops s a = Some l" "l_ops l = Some epoll_ops"
    "l_impl l = Some (Epoll epfd cap)" "epfd \<in> fd_open s" "fd \<in> fd_open s" "0 \<le> fd" by (rule loop_ready_epoll)
  with assms(2) have "ep_interest s epfd fd = None" by (cases "ep_interest s epfd fd") (auto simp: loop_registered_def)
  with l show ?thesis
    by (simp add: event_loop_add_def epoll_add_impl_def sys_epoll_ctl_def c_exec loop_registered_def loop_wants_def
        from_to_epoll_RW)
qed

lemma epoll_mod_exec:
  assumes "loop_ready epoll_ops a s fd" and "loop_registered a s fd"
  shows "\<exists>s'. event_loop_mod (Some a) fd ev d s = Inr (0, s') \<and> loops s' = loops s \<and> fd_open s' = fd_open s \<and>
           loop_registered a s' fd \<and> loop_wants a s' fd = ev AND RW"
proof -
  from assms(1) obtain l epfd cap where l: "loops s a = Some l" "l_ops l = Some epoll_ops"
    "l_impl l = Some (Epoll epfd cap)" "epfd \<in> fd_open s" "fd \<in> fd_open s" "0 \<le> fd" by (rule loop_ready_epoll)
  with assms(2) obtain e where "ep_interest s epfd fd = Some e" by (auto simp: loop_registered_def)
  with l show ?thesis
    by (simp add: event_loop_mod_def epoll_mod_impl_def sys_epoll_ctl_def c_exec loop_registered_def loop_wants_def
        from_to_epoll_RW)
qed

lemma kqueue_add_changes_exec:
  "2 \<le> maxc \<Longrightarrow> kqueue_add_changes maxc fd ev d =
     Some ((if ev AND EVENT_READ \<noteq> 0 then [K_Add fd EVFILT_READ (or_if (ev AND EVENT_ET \<noteq> 0) EV_CLEAR (EV_ADD OR EV_ENABLE)) d] else []) @
           (if ev AND EVENT_WRITE \<noteq> 0 then [K_Add fd EVFILT_WRITE (or_if (ev AND EVENT_ET \<noteq> 0) EV_CLEAR (EV_ADD OR EV_ENABLE)) d] else []))"
  by (simp add: kqueue_add_changes_def Let_def)

lemma kqueue_wants_or:
  "or_if (w \<or> w') EVENT_WRITE (or_if (r \<or> r') EVENT_READ 0) =
     or_if w EVENT_WRITE (or_if r EVENT_READ 0) OR or_if w' EVENT_WRITE (or_if r' EVENT_READ 0)"
  by (auto simp: or_if_def event_flags)

lemma kqueue_add_exec:
  assumes "loop_ready kqueue_ops a s fd"
  shows "\<exists>s'. event_loop_add (Some a) fd ev d s = Inr (0, s') \<and> loops s' = loops s \<and> fd_open s' = fd_open s \<and>
           loop_wants a s' fd = loop_wants a s fd OR (ev AND RW)"
proof -
  from assms(1) obtain l kq cap cs maxc where l: "loops s a = Some l" "l_ops l = Some kqueue_ops"
    "l_impl l = Some (Kqueue kq cap cs maxc)" "kq \<in> fd_open s" "2 \<le> maxc" "fd \<in> fd_open s" "0 \<le> fd"
    by (rule loop_ready_kqueue)
  then show ?thesis
    by (auto simp: event_loop_add_def kqueue_add_impl_def kqueue_add_changes_exec c_exec c_defs loop_wants_def RW_split
        simp flip: kqueue_wants_or)
qed

lemma kqueue_mod_exec: "loop_ready kqueue_ops a s fd \<Longrightarrow> event_loop_mod (Some a) fd ev d s = event_loop_add (Some a) fd ev d s"
  by (erule loop_ready_kqueue) (simp add: event_loop_mod_def event_loop_add_def kqueue_mod_impl_def c_exec)

interpretation epoll: event_backend "loop_ready epoll_ops a" "loop_registered a" "loop_wants a"
  "event_loop_add (Some a)" "event_loop_mod (Some a)" for a
proof unfold_locales
  fix s :: "'a loop_store_scheme" and fd ev d
  show "\<exists>s'. event_loop_add (Some a) fd ev d s = Inr (0, s') \<and> loop_ready epoll_ops a s' = loop_ready epoll_ops a s \<and>
      loop_registered a s' fd \<and> loop_wants a s' fd = ev AND RW"
    if "loop_ready epoll_ops a s fd" "\<not> loop_registered a s fd"
    using epoll_add_exec [OF that, of ev d] loop_ready_cong by blast
  show "\<exists>s'. event_loop_mod (Some a) fd ev d s = Inr (0, s') \<and> loop_ready epoll_ops a s' = loop_ready epoll_ops a s \<and>
      loop_wants a s' fd AND (ev AND RW) = ev AND RW"
    if reg: "loop_ready epoll_ops a s fd" "loop_registered a s fd"
  proof -
    obtain s' where "event_loop_mod (Some a) fd ev d s = Inr (0, s')" "loops s' = loops s" "fd_open s' = fd_open s"
      "loop_wants a s' fd = ev AND RW" using epoll_mod_exec [OF reg, of ev d] by blast
    then show ?thesis using loop_ready_cong [of s' s epoll_ops a] by (intro exI [of _ s']) simp
  qed
qed

lemma kqueue_registered: "loop_ready kqueue_ops a s fd \<Longrightarrow> loop_registered a s fd \<longleftrightarrow> loop_wants a s fd \<noteq> 0"
  by (erule loop_ready_kqueue) (simp add: loop_registered_def)

interpretation kqueue: event_backend "loop_ready kqueue_ops a" "loop_registered a" "loop_wants a"
  "event_loop_add (Some a)" "event_loop_mod (Some a)" for a
proof unfold_locales
  fix s :: "'a loop_store_scheme" and fd ev d
  assume r: "loop_ready kqueue_ops a s fd"
  from kqueue_add_exec [OF r, of ev d] obtain s' where s': "event_loop_add (Some a) fd ev d s = Inr (0, s')"
    "loops s' = loops s" "fd_open s' = fd_open s" "loop_wants a s' fd = loop_wants a s fd OR (ev AND RW)" by blast
  then have rd: "loop_ready kqueue_ops a s' = loop_ready kqueue_ops a s" by (intro loop_ready_cong)
  show "\<exists>s'. event_loop_add (Some a) fd ev d s = Inr (0, s') \<and> loop_ready kqueue_ops a s' = loop_ready kqueue_ops a s \<and>
      loop_registered a s' fd \<and> loop_wants a s' fd = ev AND RW"
    if "\<not> loop_registered a s fd" "ev AND RW \<noteq> 0"
    using that r s' rd kqueue_registered [of a s fd] kqueue_registered [of a s' fd] by auto
  show "\<exists>s'. event_loop_mod (Some a) fd ev d s = Inr (0, s') \<and> loop_ready kqueue_ops a s' = loop_ready kqueue_ops a s \<and>
      loop_wants a s' fd AND (ev AND RW) = ev AND RW"
    using s' rd by (auto simp: kqueue_mod_exec [OF r] bit.conj_disj_distrib2)
qed

section \<open>Creation\<close>

lemma loop_create_epoll:
  "loops s (next_addr s) = None \<Longrightarrow>
     okM (event_loop_create epoll_ops n) s (loop_created epoll_ops n s)"
  by (simp add: event_loop_create_def epoll_create_impl_def wp split: list.split bool.split)
     (auto simp: loop_created_def fun_upd_idem loop_sized_def)

lemma loop_create_kqueue:
  "loops s (next_addr s) = None \<Longrightarrow>
     okM (event_loop_create kqueue_ops n) s (loop_created kqueue_ops n s)"
  by (simp add: event_loop_create_def kqueue_create_impl_def wp split: list.split bool.split)
     (auto simp: loop_created_def fun_upd_idem loop_sized_def)

lemma loop_destroy_created:
  assumes "loop_created be n s (Some a) s'" and "loops s a = None"
  shows "okM (event_loop_destroy (Some a)) s' (\<lambda>_ s''. fd_open s'' = fd_open s \<and> loops s'' = loops s)"
  using assms
  by (cases be) (auto simp: loop_created_def event_loop_destroy_def epoll_destroy_impl_def kqueue_destroy_impl_def wp fun_upd_idem)

section \<open>Correctness of the event loops\<close>

text \<open>
  C9. Masks survive the trip through epoll: converting a generic mask to epoll's bits and back keeps the
  five event bits and drops exactly the edge-triggered flag and the undefined bits.
\<close>

theorem epoll_mask_roundtrip: "from_epoll_events (to_epoll_events ev) = ev AND (RW OR EVENT_ERROR OR EVENT_HUP OR EVENT_RDHUP)"
  by (simp add: from_to_epoll RW_def event_flags)

text \<open>
  C10. Switching a registered connection between reading and writing works on both platforms: a descriptor
  added for some read or write event and then modified is watched for every requested event,
  and both calls return 0.
\<close>

theorem event_loop_add_mod:
  assumes "loop_ready be a s fd" and "\<not> loop_registered a s fd" and "ev AND RW \<noteq> 0"
  shows "\<exists>s'. bindM (event_loop_add (Some a) fd ev d) (\<lambda>_. event_loop_mod (Some a) fd ev' d) s = Inr (0, s') \<and>
           loop_wants a s' fd AND (ev' AND RW) = ev' AND RW"
  using assms epoll.add_then_modify [where a = a] kqueue.add_then_modify [where a = a] by (cases be) auto

theorem event_loop_add_mod_witness:
  "\<exists>s'. bindM (event_loop_add (Some 1) 5 (EVENT_READ OR EVENT_ET) (U_Conn 0))
              (\<lambda>_. event_loop_mod (Some 1) 5 (EVENT_WRITE OR EVENT_ET) (U_Conn 0)) demo_loop_store = Inr (0, s')"
proof -
  have "loop_ready epoll_ops 1 demo_loop_store 5" "\<not> loop_registered 1 demo_loop_store 5"
    by (simp_all add: loop_ready_def loop_registered_def demo_loop_store_def)
  moreover have "(EVENT_READ OR EVENT_ET) AND RW \<noteq> 0" by (simp add: RW_def event_flags)
  ultimately show ?thesis using event_loop_add_mod by blast
qed

text \<open>
  C11. The two back ends disagree on what a modification removes: epoll replaces the interest of the
  descriptor by the requested events, kqueue only adds to it, so a descriptor switched from
  reading to writing stays watched for reading.
\<close>

theorem event_loop_mod_backends:
  assumes "loop_ready be a s fd" and "loop_registered a s fd"
  shows "\<exists>s'. event_loop_mod (Some a) fd ev d s = Inr (0, s') \<and>
           loop_wants a s' fd = (case be of epoll_ops \<Rightarrow> ev AND RW | kqueue_ops \<Rightarrow> loop_wants a s fd OR (ev AND RW))"
proof (cases be)
  case epoll_ops
  with assms show ?thesis using epoll_mod_exec [of a s fd ev d] by auto
next
  case kqueue_ops
  with assms show ?thesis using kqueue_add_exec [of a s fd ev d] by (auto simp: kqueue_mod_exec)
qed

theorem event_loop_mod_backends_witness:
  "\<exists>(s :: loop_store) s'. event_loop_mod (Some 2) 5 (EVENT_WRITE OR EVENT_ET) (U_Conn 0) s = Inr (0, s') \<and>
      loop_wants 2 s' 5 = (EVENT_READ OR EVENT_WRITE)"
proof -
  let ?s = "demo_loop_store\<lparr>kq_filters := (\<lambda>q e. if e = (5, EVFILT_READ) then Some (EV_ADD, U_Conn 0) else None)\<rparr>"
  have 1: "loop_ready kqueue_ops 2 ?s 5" and 2: "loop_registered 2 ?s 5" and 3: "loop_wants 2 ?s 5 = EVENT_READ"
    by (simp_all add: loop_ready_def loop_registered_def loop_wants_def demo_loop_store_def or_if_def event_flags)
  have "\<exists>s'. event_loop_mod (Some 2) 5 (EVENT_WRITE OR EVENT_ET) (U_Conn 0) ?s = Inr (0, s') \<and>
      loop_wants 2 s' 5 = EVENT_READ OR ((EVENT_WRITE OR EVENT_ET) AND RW)"
    using event_loop_mod_backends [OF 1 2] 3 by auto
  moreover have "EVENT_READ OR ((EVENT_WRITE OR EVENT_ET) AND RW) = EVENT_READ OR EVENT_WRITE"
    by (simp add: RW_def event_flags)
  ultimately show ?thesis by auto
qed

lemma deliver_bounded:
  "n \<le> cap \<Longrightarrow> deliver (nat cap) n evs = Inr (int (length (take (nat n) evs)), take (nat n) evs)"
  by (auto simp: deliver_def Let_def)





section \<open>What the operations leave alone\<close>

text \<open>Registering, modifying and deleting change nothing but \<open>errno\<close> and the interest lists.\<close>

definition interest_frame :: "'a kernel_scheme \<Rightarrow> 'a kernel_scheme \<Rightarrow> bool" where
  "interest_frame s s' \<longleftrightarrow>
     s'\<lparr>errno := E_OK, ep_interest := \<lambda>_ _. None, kq_filters := \<lambda>_ _. None\<rparr> =
     s\<lparr>errno := E_OK, ep_interest := \<lambda>_ _. None, kq_filters := \<lambda>_ _. None\<rparr>"

lemma interest_frame_single [simp]:
  "interest_frame s s" "interest_frame s (s\<lparr>errno := e\<rparr>)" "interest_frame s (s\<lparr>ep_interest := i\<rparr>)" "interest_frame s (s\<lparr>kq_filters := k\<rparr>)"
  by (simp_all add: interest_frame_def)

lemma interest_frame_trans: "interest_frame s s1 \<Longrightarrow> interest_frame s1 s2 \<Longrightarrow> interest_frame s s2"
  by (simp add: interest_frame_def)

lemma interest_frameD:
  assumes "interest_frame s s'"
  shows "fd_open s' = fd_open s" "rx s' = rx s" "tx s' = tx s" "sent s' = sent s" "pipe_peer s' = pipe_peer s"
    "pipe_buf s' = pipe_buf s" "next_addr s' = next_addr s" "mem s' = mem s" "now s' = now s" "closes s' = closes s"
    "kernel.more s' = kernel.more s"
  using assms by (cases s; cases s'; simp add: interest_frame_def)+

lemma interest_frame_loops: "interest_frame s s' \<Longrightarrow> loops s' = loops s \<and> loop_store.more s' = loop_store.more s"
  by (cases s; cases s') (simp add: interest_frame_def)

lemma epoll_ctl_frame: "\<exists>r s'. sys_epoll_ctl ep op fd ev s = Inr (r, s') \<and> interest_frame s s'"
  by (auto simp: sys_epoll_ctl_def split: epoll_op.splits option.splits)

lemma kevent_changes_frame: "\<exists>r s'. kevent_changes kq cs s = Inr (r, s') \<and> interest_frame s s'"
proof (induction kq cs s rule: kevent_changes.induct)
  case (2 kq fd k flags ud cs s)
  then show ?case using interest_frame_single(4) [THEN interest_frame_trans] by fastforce
next
  case (3 kq fd k cs s)
  then show ?case using interest_frame_single(4) [THEN interest_frame_trans] by fastforce
qed simp

lemma epoll_impl_frame:
  "\<exists>r s'. epoll_add_impl l fd ev d s = Inr (r, s') \<and> interest_frame s s'"
  "\<exists>r s'. epoll_mod_impl l fd ev d s = Inr (r, s') \<and> interest_frame s s'"
  "\<exists>r s'. epoll_del_impl l fd s = Inr (r, s') \<and> interest_frame s s'"
  using epoll_ctl_frame
  by (auto simp: epoll_add_impl_def epoll_mod_impl_def epoll_del_impl_def returnM_def split: option.splits impl.splits)

lemma kqueue_impl_frame:
  "\<exists>r s'. kqueue_add_impl l fd ev d s = Inr (r, s') \<and> interest_frame s s'"
  "\<exists>r s'. kqueue_del_impl l fd s = Inr (r, s') \<and> interest_frame s s'"
proof -
  have run: "\<exists>r s'. bindM (kevent_changes kq cs) (\<lambda>r. returnM (g r)) s = Inr (r, s') \<and> interest_frame s s'" for kq cs and g :: "int \<Rightarrow> int"
    using kevent_changes_frame [of kq cs s] by (auto simp: bindM_Inr returnM_def)
  show "\<exists>r s'. kqueue_add_impl l fd ev d s = Inr (r, s') \<and> interest_frame s s'"
    using run by (auto simp: kqueue_add_impl_def returnM_def [of "- 1"] split: option.splits impl.splits)
  show "\<exists>r s'. kqueue_del_impl l fd s = Inr (r, s') \<and> interest_frame s s'"
    using run by (auto simp: kqueue_del_impl_def returnM_def [of "- 1"] Let_def split: option.splits impl.splits)
qed

text \<open>On a live loop the three operations always return.\<close>

lemma event_loop_ops_frame:
  assumes "loops s a = Some l"
  shows "\<exists>r s'. event_loop_add (Some a) fd ev d s = Inr (r, s') \<and> interest_frame s s'"
    and "\<exists>r s'. event_loop_mod (Some a) fd ev d s = Inr (r, s') \<and> interest_frame s s'"
    and "\<exists>r s'. event_loop_del (Some a) fd s = Inr (r, s') \<and> interest_frame s s'"
  using assms epoll_impl_frame [where l = l and s = s] kqueue_impl_frame [where l = l and s = s]
  by (simp_all add: event_loop_add_def event_loop_mod_def event_loop_del_def kqueue_mod_impl_def bindM_Inr loop_load_Some returnM_def
      split: option.splits backend.splits)

end
