(* ===== verification/Interfaces.thy ===== *)
theory Interfaces
  imports Prelude
begin

text \<open>
  The contracts between components, as locales: a reference-counted object
  (provided by the connections, relied on by tasks and messages), a linked queue in a heap
  (provided by the task queue and by the message queue of an I/O thread) and a map in a store
  (provided by the table of pending output). What a client may conclude from a contract is
  proved once inside the locale.
\<close>

section \<open>Drivers\<close>

text \<open>
  A client's use of one counted object: \<open>True\<close> takes a reference, \<open>False\<close> drops one.
\<close>

fun run_refs :: "(ptr \<Rightarrow> ('s, unit) cmd) \<Rightarrow> (ptr \<Rightarrow> ('s, unit) cmd) \<Rightarrow> addr \<Rightarrow> bool list \<Rightarrow> ('s, unit) cmd" where
  "run_refs acq rel a [] = returnM ()"
| "run_refs acq rel a (b # bs) = thenM ((if b then acq else rel) (Some a)) (run_refs acq rel a bs)"

text \<open>
  The count a use must end with when it starts at \<open>n\<close>: \<open>Some 0\<close> when the last operation drops the
  last reference, \<open>None\<close> when an operation comes after that.
\<close>

fun final_count :: "int \<Rightarrow> bool list \<Rightarrow> int option" where
  "final_count n [] = Some n"
| "final_count n (True # bs) = final_count (n + 1) bs"
| "final_count n (False # bs) =
     (if n = 1 then (if bs = [] then Some 0 else None) else final_count (n - 1) bs)"

fun push_all :: "(addr \<Rightarrow> ('s, 'r) cmd) \<Rightarrow> addr list \<Rightarrow> ('s, unit) cmd" where
  "push_all push [] = returnM ()"
| "push_all push (x # xs) = bindM (push x) (\<lambda>_. push_all push xs)"

fun pop_n :: "('s, ptr) cmd \<Rightarrow> nat \<Rightarrow> ('s, ptr list) cmd" where
  "pop_n pop 0 = returnM []"
| "pop_n pop (Suc n) = bindM pop (\<lambda>p. bindM (pop_n pop n) (\<lambda>ps. returnM (p # ps)))"

text \<open>A sequence of updates of a map, and what it does to the map it stands for.\<close>

datatype ('k, 'v) map_op = Put 'k 'v | Del 'k

fun run_map :: "('k \<Rightarrow> 'v \<Rightarrow> ('s, unit) cmd) \<Rightarrow> ('k \<Rightarrow> ('s, unit) cmd) \<Rightarrow> ('k, 'v) map_op list \<Rightarrow> ('s, unit) cmd" where
  "run_map put del [] = returnM ()"
| "run_map put del (Put k v # ops) = thenM (put k v) (run_map put del ops)"
| "run_map put del (Del k # ops) = thenM (del k) (run_map put del ops)"

fun map_after :: "('k \<Rightarrow> 'v option) \<Rightarrow> ('k, 'v) map_op list \<Rightarrow> 'k \<Rightarrow> 'v option" where
  "map_after M [] = M"
| "map_after M (Put k v # ops) = map_after (M(k \<mapsto> v)) ops"
| "map_after M (Del k # ops) = map_after (M(k := None)) ops"

text \<open>The counts of objects that are held \<open>r a\<close> times each: an object nobody holds is gone.\<close>

definition counts_to :: "(addr \<Rightarrow> nat) \<Rightarrow> addr \<Rightarrow> int option" where
  "counts_to r a = (if r a = 0 then None else Some (int (r a)))"

lemma counts_to_None [simp]: "counts_to r a = None \<longleftrightarrow> r a = 0"
  by (simp add: counts_to_def)

lemma counts_to_upd: "counts_to (r(a := n)) = (counts_to r)(a := (if n = 0 then None else Some (int n)))"
  by (auto simp: counts_to_def)

section \<open>Reference-counted objects\<close>

locale ref_counted =
  fixes wf :: "'s \<Rightarrow> bool"
    and count :: "'s \<Rightarrow> addr \<Rightarrow> int option"
    and acquire :: "ptr \<Rightarrow> ('s, unit) cmd"
    and release :: "ptr \<Rightarrow> ('s, unit) cmd"
  assumes count_pos: "wf s \<Longrightarrow> count s a = Some n \<Longrightarrow> 0 < n"
    and acquire_live: "wf s \<Longrightarrow> count s a = Some n \<Longrightarrow>
      \<exists>s'. acquire (Some a) s = Inr ((), s') \<and> wf s' \<and> count s' = (count s)(a \<mapsto> n + 1)"
    and release_shared: "wf s \<Longrightarrow> count s a = Some n \<Longrightarrow> 1 < n \<Longrightarrow>
      \<exists>s'. release (Some a) s = Inr ((), s') \<and> wf s' \<and> count s' = (count s)(a \<mapsto> n - 1)"
    and release_last: "wf s \<Longrightarrow> count s a = Some 1 \<Longrightarrow>
      \<exists>s'. release (Some a) s = Inr ((), s') \<and> wf s' \<and> count s' = (count s)(a := None)"
    and acquire_dead: "count s a = None \<Longrightarrow> acquire (Some a) s = Inl Dangling"
    and release_dead: "count s a = None \<Longrightarrow> release (Some a) s = Inl Dangling"
begin

lemma run_refs_dead:
  "count s a = None \<Longrightarrow> bs \<noteq> [] \<Longrightarrow> run_refs acquire release a bs s = Inl Dangling"
  by (cases bs) (auto simp: thenM_Inl acquire_dead release_dead)

text \<open>A use of the object succeeds exactly when no operation follows the drop of the last reference.\<close>

lemma run_refs_exact:
  assumes "wf s" and "count s a = Some n"
  shows "case final_count n bs of
           None \<Rightarrow> run_refs acquire release a bs s = Inl Dangling
         | Some k \<Rightarrow> \<exists>s'. run_refs acquire release a bs s = Inr ((), s') \<and> wf s' \<and>
                      count s' = (count s)(a := (if k = 0 then None else Some k))"
  using assms
proof (induction n bs arbitrary: s rule: final_count.induct)
  case (1 n)
  then show ?case using count_pos [OF 1] by (auto simp: returnM_def fun_upd_idem)
next
  case (2 n bs)
  obtain s' where s': "acquire (Some a) s = Inr ((), s')" "wf s'" "count s' = (count s)(a \<mapsto> n + 1)"
    using acquire_live [OF 2(2,3)] by blast
  with 2(1) [of s'] show ?case by (cases "final_count (n + 1) bs") (simp_all add: thenM_Inr)
next
  case (3 n bs)
  show ?case
  proof (cases "n = 1")
    case True
    then obtain s' where s': "release (Some a) s = Inr ((), s')" "wf s'" "count s' = (count s)(a := None)"
      using release_last 3(2,3) by blast
    then show ?thesis using True run_refs_dead [of s' a bs] by (auto simp: thenM_Inr returnM_def)
  next
    case False
    then have "1 < n" using count_pos [OF 3(2,3)] by simp
    then obtain s' where s': "release (Some a) s = Inr ((), s')" "wf s'" "count s' = (count s)(a \<mapsto> n - 1)"
      using release_shared 3(2,3) by blast
    with 3(1) [of s'] False show ?thesis by (cases "final_count (n - 1) bs") (simp_all add: thenM_Inr)
  qed
qed

text \<open>A holder may take another reference, and drop its own whether or not it is the last one.\<close>

lemma acquire_held:
  assumes "wf s" and "count s = counts_to r" and "r a \<noteq> 0"
  shows "\<exists>s'. acquire (Some a) s = Inr ((), s') \<and> wf s' \<and> count s' = counts_to (r(a := Suc (r a)))"
  using acquire_live [of s a "int (r a)"] assms by (simp add: counts_to_upd) (simp add: counts_to_def add.commute)

lemma release_held:
  assumes "wf s" and "count s = counts_to r" and "r a \<noteq> 0"
  shows "\<exists>s'. release (Some a) s = Inr ((), s') \<and> wf s' \<and> count s' = counts_to (r(a := r a - 1))"
proof (cases "r a = 1")
  case True
  with assms show ?thesis using release_last [of s a] by (simp add: counts_to_upd) (simp add: counts_to_def)
next
  case False
  with assms have "1 < r a" by simp
  with assms show ?thesis
    using release_shared [of s a "int (r a)"] by (simp add: counts_to_upd of_nat_diff) (simp add: counts_to_def)
qed

text \<open>Taking a reference and dropping it again leaves every count as it was.\<close>

lemma acquire_release_neutral:
  assumes "wf s" and "count s a = Some n"
  shows "\<exists>s'. thenM (acquire (Some a)) (release (Some a)) s = Inr ((), s') \<and> wf s' \<and> count s' = count s"
proof -
  obtain s1 where s1: "acquire (Some a) s = Inr ((), s1)" "wf s1" "count s1 = (count s)(a \<mapsto> n + 1)"
    using acquire_live [OF assms] by blast
  moreover have "0 < n" by (rule count_pos [OF assms])
  ultimately obtain s2 where "release (Some a) s1 = Inr ((), s2)" "wf s2" "count s2 = (count s1)(a \<mapsto> n)"
    using release_shared [of s1 a "n + 1"] by auto
  with s1 assms show ?thesis by (auto simp: thenM_Inr fun_upd_idem)
qed

end

section \<open>Linked queues\<close>

text \<open>
  \<open>repr s xs\<close>: in state \<open>s\<close> the queue holds the nodes \<open>xs\<close>, oldest first. \<open>node s x\<close>: \<open>x\<close> is an
  allocated node that may be inserted. \<open>room s n\<close>: \<open>n\<close> insertions would not wait and are not refused.
\<close>

locale fifo_queue =
  fixes repr :: "'s \<Rightarrow> addr list \<Rightarrow> bool"
    and node :: "'s \<Rightarrow> addr \<Rightarrow> bool"
    and room :: "'s \<Rightarrow> nat \<Rightarrow> bool"
    and push :: "addr \<Rightarrow> ('s, 'r) cmd"
    and pop :: "('s, ptr) cmd"
  assumes push_law: "repr s xs \<Longrightarrow> node s x \<Longrightarrow> x \<notin> set xs \<Longrightarrow> room s (Suc n) \<Longrightarrow>
      \<exists>r s'. push x s = Inr (r, s') \<and> repr s' (xs @ [x]) \<and> (\<forall>y. node s y \<longrightarrow> y \<notin> set (xs @ [x]) \<longrightarrow> node s' y) \<and> room s' n"
    and pop_law: "repr s (x # xs) \<Longrightarrow> \<exists>s'. pop s = Inr (Some x, s') \<and> repr s' xs"
begin

lemma push_all_repr:
  "repr s xs \<Longrightarrow> (\<And>y. y \<in> set ys \<Longrightarrow> node s y) \<Longrightarrow> distinct (xs @ ys) \<Longrightarrow> room s (length ys) \<Longrightarrow>
     \<exists>s'. push_all push ys s = Inr ((), s') \<and> repr s' (xs @ ys)"
proof (induction ys arbitrary: s xs)
  case Nil
  then show ?case by (simp add: returnM_def)
next
  case (Cons y ys)
  then obtain r s1 where s1: "push y s = Inr (r, s1)" "repr s1 (xs @ [y])"
      "\<And>z. node s z \<Longrightarrow> z \<notin> set (xs @ [y]) \<Longrightarrow> node s1 z" "room s1 (length ys)"
    using push_law [of s xs y "length ys"] by auto
  have "node s1 z" if "z \<in> set ys" for z using that s1(3) Cons.prems(2,3) by auto
  with Cons.IH [OF s1(2) _ _ s1(4)] Cons.prems(3) s1(1) show ?case by (auto simp: bindM_Inr)
qed

lemma pop_n_repr:
  "repr s (xs @ ys) \<Longrightarrow> \<exists>s'. pop_n pop (length xs) s = Inr (map Some xs, s') \<and> repr s' ys"
proof (induction xs arbitrary: s)
  case Nil
  then show ?case by (simp add: returnM_def)
next
  case (Cons x xs)
  then obtain s1 where s1: "pop s = Inr (Some x, s1)" "repr s1 (xs @ ys)"
    using pop_law by fastforce
  with Cons.IH [of s1] show ?case by (auto simp: bindM_Inr returnM_def)
qed

text \<open>First in, first out: nodes leave in the order in which they were inserted, after the older ones.\<close>

lemma fifo_order:
  assumes "repr s xs" and "\<And>y. y \<in> set ys \<Longrightarrow> node s y" and "distinct (xs @ ys)" and "room s (length ys)"
  shows "\<exists>s'. thenM (push_all push ys) (pop_n pop (length (xs @ ys))) s = Inr (map Some (xs @ ys), s') \<and> repr s' []"
proof -
  obtain s1 where s1: "push_all push ys s = Inr ((), s1)" "repr s1 (xs @ ys)"
    using push_all_repr [OF assms] by blast
  with pop_n_repr [of s1 "xs @ ys" "[]"] show ?thesis by (auto simp: thenM_Inr)
qed

end

section \<open>Maps\<close>

text \<open>\<open>repr s M\<close>: in state \<open>s\<close> the table stands for the map \<open>M\<close>.\<close>

locale store_map =
  fixes repr :: "'s \<Rightarrow> ('k \<Rightarrow> 'v option) \<Rightarrow> bool"
    and put :: "'k \<Rightarrow> 'v \<Rightarrow> ('s, unit) cmd"
    and get :: "'k \<Rightarrow> ('s, 'v option) cmd"
    and del :: "'k \<Rightarrow> ('s, unit) cmd"
  assumes put_law: "repr s M \<Longrightarrow> \<exists>s'. put k v s = Inr ((), s') \<and> repr s' (M(k \<mapsto> v))"
    and get_law: "repr s M \<Longrightarrow> get k s = Inr (M k, s)"
    and del_law: "repr s M \<Longrightarrow> \<exists>s'. del k s = Inr ((), s') \<and> repr s' (M(k := None))"
begin

lemma run_map_repr: "repr s M \<Longrightarrow> \<exists>s'. run_map put del ops s = Inr ((), s') \<and> repr s' (map_after M ops)"
proof (induction ops arbitrary: s M)
  case Nil
  then show ?case by (simp add: returnM_def)
next
  case (Cons op ops)
  show ?case
  proof (cases op)
    case (Put k v)
    with put_law [OF Cons.prems] obtain s1 where "put k v s = Inr ((), s1)" "repr s1 (M(k \<mapsto> v))" by blast
    with Cons.IH Put show ?thesis by (fastforce simp: thenM_Inr)
  next
    case (Del k)
    with del_law [OF Cons.prems] obtain s1 where "del k s = Inr ((), s1)" "repr s1 (M(k := None))" by blast
    with Cons.IH Del show ?thesis by (fastforce simp: thenM_Inr)
  qed
qed

text \<open>After any sequence of updates a look-up returns what the map says.\<close>

lemma get_after:
  assumes "repr s M"
  shows "\<exists>s'. bindM (run_map put del ops) (\<lambda>_. get k) s = Inr (map_after M ops k, s') \<and> repr s' (map_after M ops)"
  using run_map_repr [OF assms, of ops] get_law by (auto simp: bindM_Inr)

end

end
