(* ===== verification/Connection.thy ===== *)
theory Connection
  imports Event_Loop Interfaces
begin

text \<open>
  \<open>advanced-reactor-server/common.h\<close> and \<open>connection.c\<close>: the connection object, its states, and its
  reference count. The state gains the heap \<open>conns\<close> of allocated connections; a freed
  connection is absent from it.
\<close>

section \<open>Data\<close>

definition BUFFER_SIZE :: nat where
  "BUFFER_SIZE = 4096"

datatype conn_state_t =
    CONN_STATE_CONNECTED
  | CONN_STATE_READING
  | CONN_STATE_WRITING
  | CONN_STATE_CLOSING
  | CONN_STATE_CLOSED

record connection =
  c_fd :: int
  c_event_loop :: ptr
  c_state :: conn_state_t
  c_read_buf :: "cell list"
  c_write_buf :: "cell list"
  c_read_pos :: int
  c_write_pos :: int
  c_write_size :: int
  c_addr :: sockaddr_in
  c_last_active :: nat
  c_io_thread :: ptr
  c_mutex :: mutex
  c_ref_count :: int
  c_closing :: bool

record conn_store = loop_store +
  conns :: "addr \<Rightarrow> connection option"

section \<open>Operations\<close>

definition conn_load :: "addr \<Rightarrow> ('a conn_store_scheme, connection) cmd" where
  "conn_load a = derefM conns (Some a)"

definition conn_update :: "addr \<Rightarrow> (connection \<Rightarrow> connection) \<Rightarrow> ('a conn_store_scheme, unit) cmd" where
  "conn_update a f = bindM (conn_load a) (\<lambda>c. modifyM (\<lambda>s. s\<lparr>conns := (conns s)(a \<mapsto> f c)\<rparr>))"

definition conn_lock :: "addr \<Rightarrow> ('a conn_store_scheme, unit) cmd" where
  "conn_lock a =
     bindM (conn_load a) (\<lambda>c. bindM (mutex_lock (c_mutex c)) (\<lambda>m. conn_update a (c_mutex_update (\<lambda>_. m))))"

definition conn_unlock :: "addr \<Rightarrow> ('a conn_store_scheme, unit) cmd" where
  "conn_unlock a =
     bindM (conn_load a) (\<lambda>c. bindM (mutex_unlock (c_mutex c)) (\<lambda>m. conn_update a (c_mutex_update (\<lambda>_. m))))"

text \<open>\<open>if (conn->fd >= 0) { close(conn->fd); conn->fd = -1; }\<close>\<close>

definition conn_close_fd :: "addr \<Rightarrow> ('a conn_store_scheme, unit) cmd" where
  "conn_close_fd a =
     bindM (conn_load a) (\<lambda>c.
       whenM (0 \<le> c_fd c)
         (bindM (sys_close (c_fd c)) (\<lambda>_. conn_update a (\<lambda>c. c\<lparr>c_fd := - 1\<rparr>))))"

text \<open>
  \<open>conn_create\<close>; \<open>mutex_ok\<close> is the outcome of \<open>pthread_mutex_init\<close>. The buffers come from \<open>malloc\<close> and
  are indeterminate.
\<close>

definition conn_create ::
  "int \<Rightarrow> ptr \<Rightarrow> sockaddr_in option \<Rightarrow> ptr \<Rightarrow> bool \<Rightarrow> ('a conn_store_scheme, ptr) cmd" where
  "conn_create fd event_loop addr io_thread mutex_ok =
     bindM mallocM (\<lambda>p. case p of
       None \<Rightarrow> returnM None
     | Some a \<Rightarrow>
         bindM (getM now) (\<lambda>t.
         thenM (modifyM (\<lambda>s. s\<lparr>conns := (conns s)(a \<mapsto>
           \<lparr>c_fd = fd, c_event_loop = event_loop, c_state = CONN_STATE_CONNECTED,
            c_read_buf = replicate BUFFER_SIZE None, c_write_buf = replicate BUFFER_SIZE None,
            c_read_pos = 0, c_write_pos = 0, c_write_size = 0,
            c_addr = (case addr of Some sa \<Rightarrow> sa | None \<Rightarrow> (0, 0)),
            c_last_active = t, c_io_thread = io_thread, c_mutex = Unlocked,
            c_ref_count = 1, c_closing = False\<rparr>)\<rparr>))
         (if mutex_ok then returnM (Some a)
          else thenM (modifyM (\<lambda>s. s\<lparr>conns := (conns s)(a := None)\<rparr>)) (returnM None))))"

definition conn_acquire :: "ptr \<Rightarrow> ('a conn_store_scheme, unit) cmd" where
  "conn_acquire conn = (case conn of
     None \<Rightarrow> returnM ()
   | Some a \<Rightarrow>
       thenM (conn_lock a)
      (thenM (conn_update a (\<lambda>c. c\<lparr>c_ref_count := c_ref_count c + 1\<rparr>))
             (conn_unlock a)))"

definition conn_release :: "ptr \<Rightarrow> ('a conn_store_scheme, unit) cmd" where
  "conn_release conn = (case conn of
     None \<Rightarrow> returnM ()
   | Some a \<Rightarrow>
       thenM (conn_lock a)
      (thenM (conn_update a (\<lambda>c. c\<lparr>c_ref_count := c_ref_count c - 1\<rparr>))
      (bindM (conn_load a) (\<lambda>c. let should_free = (c_ref_count c \<le> 0) in
       thenM (conn_unlock a)
             (whenM should_free
               (thenM (conn_close_fd a)
               (thenM (conn_update a (\<lambda>c. c\<lparr>c_mutex := Destroyed\<rparr>))
                      (modifyM (\<lambda>s. s\<lparr>conns := (conns s)(a := None)\<rparr>)))))))))"

definition conn_is_valid :: "ptr \<Rightarrow> ('a conn_store_scheme, bool) cmd" where
  "conn_is_valid conn = (case conn of
     None \<Rightarrow> returnM False
   | Some a \<Rightarrow>
       thenM (conn_lock a)
      (bindM (conn_load a) (\<lambda>c. let valid = (\<not> c_closing c \<and> c_state c \<noteq> CONN_STATE_CLOSED) in
       thenM (conn_unlock a) (returnM valid))))"

definition conn_mark_closing :: "ptr \<Rightarrow> ('a conn_store_scheme, unit) cmd" where
  "conn_mark_closing conn = (case conn of
     None \<Rightarrow> returnM ()
   | Some a \<Rightarrow>
       thenM (conn_lock a)
      (bindM (conn_load a) (\<lambda>c.
       thenM (whenM (\<not> c_closing c)
               (thenM (conn_update a (\<lambda>c. c\<lparr>c_closing := True, c_state := CONN_STATE_CLOSING\<rparr>))
                      (conn_close_fd a)))
             (conn_unlock a))))"

section \<open>Well-formed stores\<close>

text \<open>
  A connection between two operations: its mutex is free, its count positive, a closing connection has
  given its descriptor back, the buffers have their size, and the unsent part of the
  response lies inside the write buffer and is initialised.
\<close>

definition conn_wf :: "connection \<Rightarrow> bool" where
  "conn_wf c \<longleftrightarrow>
     c_mutex c = Unlocked \<and> 0 < c_ref_count c \<and>
     (c_closing c \<longrightarrow> c_fd c < 0) \<and> c_state c \<noteq> CONN_STATE_CLOSED \<and>
     length (c_write_buf c) = BUFFER_SIZE \<and>
     0 \<le> c_write_pos c \<and> c_write_pos c \<le> c_write_size c \<and> c_write_size c < int BUFFER_SIZE \<and>
     None \<notin> set (take (nat (c_write_size c)) (c_write_buf c))"

definition conns_wf :: "'a conn_store_scheme \<Rightarrow> bool" where
  "conns_wf s \<longleftrightarrow> (\<forall>a c. conns s a = Some c \<longrightarrow> conn_wf c)"

definition conn_count :: "'a conn_store_scheme \<Rightarrow> addr \<Rightarrow> int option" where
  "conn_count s a = map_option c_ref_count (conns s a)"

text \<open>The descriptors a connection is still responsible for closing.\<close>

definition owned_fds :: "'a conn_store_scheme \<Rightarrow> addr \<Rightarrow> int list" where
  "owned_fds s a =
     (case conns s a of None \<Rightarrow> [] | Some c \<Rightarrow> if 0 \<le> c_fd c then [c_fd c] else [])"

text \<open>A client's calls on one connection, in order.\<close>

datatype conn_call = Op_acquire | Op_release | Op_mark_closing | Op_is_valid

fun conn_do :: "conn_call \<Rightarrow> ptr \<Rightarrow> ('a conn_store_scheme, unit) cmd" where
  "conn_do Op_acquire p = conn_acquire p"
| "conn_do Op_release p = conn_release p"
| "conn_do Op_mark_closing p = conn_mark_closing p"
| "conn_do Op_is_valid p = bindM (conn_is_valid p) (\<lambda>_. returnM ())"

fun conn_run :: "conn_call list \<Rightarrow> ptr \<Rightarrow> ('a conn_store_scheme, unit) cmd" where
  "conn_run [] p = returnM ()"
| "conn_run (x # xs) p = thenM (conn_do x p) (conn_run xs p)"

text \<open>A concrete store with the connections \<open>cs\<close> and the open descriptors \<open>fds\<close>, for closed examples.\<close>

definition demo_conn :: "int \<Rightarrow> int \<Rightarrow> connection" where
  "demo_conn fd n =
     \<lparr>c_fd = fd, c_event_loop = None, c_state = CONN_STATE_CONNECTED,
      c_read_buf = replicate BUFFER_SIZE None, c_write_buf = replicate BUFFER_SIZE None,
      c_read_pos = 0, c_write_pos = 0, c_write_size = 0, c_addr = (0, 0), c_last_active = 0,
      c_io_thread = None, c_mutex = Unlocked, c_ref_count = n, c_closing = False\<rparr>"

definition demo_conn_store :: "int set \<Rightarrow> (addr \<Rightarrow> connection option) \<Rightarrow> conn_store" where
  "demo_conn_store fds cs =
     \<lparr>fd_open = fds, errno = E_OK, rx = (\<lambda>_. []), tx = (\<lambda>_. []), sent = (\<lambda>_. []),
      pipe_peer = id, pipe_buf = (\<lambda>_. []), ep_interest = (\<lambda>_ _. None),
      kq_filters = (\<lambda>_ _. None), ep_waits = (\<lambda>_. []), kq_waits = (\<lambda>_. []), newfd = [], mem = [], next_addr = 100, now = 0, closes = [], accepts = (\<lambda>_. []),
      loops = Map.empty, conns = cs\<rparr>"

section \<open>Execution rules\<close>

lemma conn_unlocked_id [simp]: "c_mutex c = Unlocked \<Longrightarrow> c\<lparr>c_mutex := Unlocked\<rparr> = c"
  by (cases c) simp

lemma conn_fd_id [simp]: "c_fd c = n \<Longrightarrow> c\<lparr>c_fd := n\<rparr> = c"
  by (cases c) simp

lemma conn_load_Some [c_exec]: "conns s a = Some c \<Longrightarrow> conn_load a s = Inr (c, s)"
  by (simp add: conn_load_def derefM_def)

lemma conn_load_None [c_exec]: "conns s a = None \<Longrightarrow> conn_load a s = Inl Dangling"
  by (simp add: conn_load_def derefM_def)

lemma conn_update_Some [c_exec]:
  "conns s a = Some c \<Longrightarrow> conn_update a f s = Inr ((), s\<lparr>conns := (conns s)(a \<mapsto> f c)\<rparr>)"
  by (simp add: conn_update_def c_exec c_defs)

lemma conn_lock_Some [c_exec]:
  "conns s a = Some c \<Longrightarrow> c_mutex c = Unlocked \<Longrightarrow>
     conn_lock a s = Inr ((), s\<lparr>conns := (conns s)(a \<mapsto> c\<lparr>c_mutex := Locked\<rparr>)\<rparr>)"
  by (simp add: conn_lock_def c_exec c_defs)

lemma conn_lock_None [c_exec]: "conns s a = None \<Longrightarrow> conn_lock a s = Inl Dangling"
  by (simp add: conn_lock_def c_exec)

lemma conn_unlock_Some [c_exec]:
  "conns s a = Some c \<Longrightarrow> c_mutex c = Locked \<Longrightarrow>
     conn_unlock a s = Inr ((), s\<lparr>conns := (conns s)(a \<mapsto> c\<lparr>c_mutex := Unlocked\<rparr>)\<rparr>)"
  by (simp add: conn_unlock_def c_exec c_defs)

lemma conns_maybe_close [simp]: "conns (maybe_close fd s) = conns s"
  by (simp add: maybe_close_def after_close_def)

lemma maybe_close_conns [simp]:
  "maybe_close fd (s\<lparr>conns := X\<rparr>) = (maybe_close fd s)\<lparr>conns := X\<rparr>"
  by (cases s) (simp add: maybe_close_def after_close_def)

lemma conn_close_fd_Some [c_exec]:
  "conns s a = Some c \<Longrightarrow>
     conn_close_fd a s =
       Inr ((), (maybe_close (c_fd c) s)\<lparr>conns := (conns s)(a \<mapsto> (if 0 \<le> c_fd c then c\<lparr>c_fd := - 1\<rparr> else c))\<rparr>)"
  by (simp add: conn_close_fd_def c_exec c_defs maybe_close_def after_close_def fun_upd_idem)

lemma conn_acquire_Some [c_exec]:
  "conns s a = Some c \<Longrightarrow> c_mutex c = Unlocked \<Longrightarrow>
     conn_acquire (Some a) s =
       Inr ((), s\<lparr>conns := (conns s)(a \<mapsto> c\<lparr>c_ref_count := c_ref_count c + 1\<rparr>)\<rparr>)"
  by (simp add: conn_acquire_def c_exec)

lemma conn_release_shared [c_exec]:
  "conns s a = Some c \<Longrightarrow> c_mutex c = Unlocked \<Longrightarrow> 1 < c_ref_count c \<Longrightarrow>
     conn_release (Some a) s =
       Inr ((), s\<lparr>conns := (conns s)(a \<mapsto> c\<lparr>c_ref_count := c_ref_count c - 1\<rparr>)\<rparr>)"
  by (simp add: conn_release_def c_exec c_defs)

lemma conn_release_last [c_exec]:
  "conns s a = Some c \<Longrightarrow> c_mutex c = Unlocked \<Longrightarrow> c_ref_count c \<le> 1 \<Longrightarrow>
     conn_release (Some a) s =
       Inr ((), (maybe_close (c_fd c) s)\<lparr>conns := (conns s)(a := None)\<rparr>)"
  by (simp add: conn_release_def c_exec c_defs)

lemma conn_is_valid_Some [c_exec]:
  "conns s a = Some c \<Longrightarrow> c_mutex c = Unlocked \<Longrightarrow>
     conn_is_valid (Some a) s = Inr (\<not> c_closing c \<and> c_state c \<noteq> CONN_STATE_CLOSED, s)"
  by (simp add: conn_is_valid_def c_exec c_defs fun_upd_idem)

lemma conn_mark_closing_Some [c_exec]:
  "conns s a = Some c \<Longrightarrow> c_mutex c = Unlocked \<Longrightarrow>
     conn_mark_closing (Some a) s =
       (if c_closing c then Inr ((), s)
        else Inr ((), (maybe_close (c_fd c) s)\<lparr>conns := (conns s)(a \<mapsto>
               c\<lparr>c_closing := True, c_state := CONN_STATE_CLOSING, c_fd := (if 0 \<le> c_fd c then - 1 else c_fd c)\<rparr>)\<rparr>))"
  by (simp add: conn_mark_closing_def c_exec c_defs fun_upd_idem)

lemma conn_ops_dead [c_exec]:
  "conns s a = None \<Longrightarrow> conn_acquire (Some a) s = Inl Dangling"
  "conns s a = None \<Longrightarrow> conn_release (Some a) s = Inl Dangling"
  "conns s a = None \<Longrightarrow> conn_is_valid (Some a) s = Inl Dangling"
  "conns s a = None \<Longrightarrow> conn_mark_closing (Some a) s = Inl Dangling"
  by (simp_all add: conn_acquire_def conn_release_def conn_is_valid_def conn_mark_closing_def c_exec)

lemma conn_create_exec:
  "conn_create fd el sa io ok s =
     (case mallocM s of
        Inr (Some a, s1) \<Rightarrow>
          (if ok then Inr (Some a, s1\<lparr>conns := (conns s1)(a \<mapsto>
             \<lparr>c_fd = fd, c_event_loop = el, c_state = CONN_STATE_CONNECTED,
              c_read_buf = replicate BUFFER_SIZE None, c_write_buf = replicate BUFFER_SIZE None,
              c_read_pos = 0, c_write_pos = 0, c_write_size = 0,
              c_addr = (case sa of Some x \<Rightarrow> x | None \<Rightarrow> (0, 0)),
              c_last_active = now s1, c_io_thread = io, c_mutex = Unlocked,
              c_ref_count = 1, c_closing = False\<rparr>)\<rparr>)
           else Inr (None, s1\<lparr>conns := (conns s1)(a := None)\<rparr>))
      | Inr (None, s1) \<Rightarrow> Inr (None, s1)
      | Inl e \<Rightarrow> Inl e)"
  by (auto simp: conn_create_def bindM_def thenM_def c_defs split: sum.splits option.splits)

section \<open>Preservation of well-formedness\<close>

lemma conns_wfD: "conns_wf s \<Longrightarrow> conns s a = Some c \<Longrightarrow> conn_wf c"
  by (auto simp: conns_wf_def)

lemma conn_wf_unlocked [simp]: "conn_wf c \<Longrightarrow> c_mutex c = Unlocked"
  by (simp add: conn_wf_def)

lemma conns_wf_upd: "conns_wf s \<Longrightarrow> conn_wf c \<Longrightarrow> conns_wf (s\<lparr>conns := (conns s)(a \<mapsto> c)\<rparr>)"
  by (auto simp: conns_wf_def)

lemma conns_wf_del: "conns_wf s \<Longrightarrow> conns_wf (s\<lparr>conns := (conns s)(a := None)\<rparr>)"
  by (auto simp: conns_wf_def)

lemma conns_wf_cong: "conns s' = conns s \<Longrightarrow> conns_wf s' = conns_wf s"
  by (simp add: conns_wf_def)

lemma conn_wf_count: "conn_wf c \<Longrightarrow> 0 < n \<Longrightarrow> conn_wf (c\<lparr>c_ref_count := n\<rparr>)"
  by (simp add: conn_wf_def)

lemma conn_wf_closing:
  "conn_wf c \<Longrightarrow> conn_wf (c\<lparr>c_closing := True, c_state := CONN_STATE_CLOSING, c_fd := - 1\<rparr>)"
  by (simp add: conn_wf_def)

lemma conn_wf_fresh:
  "conn_wf \<lparr>c_fd = fd, c_event_loop = el, c_state = CONN_STATE_CONNECTED,
     c_read_buf = rb, c_write_buf = replicate BUFFER_SIZE None,
     c_read_pos = 0, c_write_pos = 0, c_write_size = 0, c_addr = sa,
     c_last_active = t, c_io_thread = io, c_mutex = Unlocked, c_ref_count = 1, c_closing = False\<rparr>"
  by (simp add: conn_wf_def BUFFER_SIZE_def)

lemma conn_count_Some: "conn_count s a = Some n \<longleftrightarrow> (\<exists>c. conns s a = Some c \<and> c_ref_count c = n)"
  by (auto simp: conn_count_def)

lemma conn_count_None: "conn_count s a = None \<longleftrightarrow> conns s a = None"
  by (simp add: conn_count_def)

lemma conn_count_upd: "conns s' = (conns s)(a := v) \<Longrightarrow> conn_count s' = (conn_count s)(a := map_option c_ref_count v)"
  by (auto simp: conn_count_def)

interpretation conn_refs: ref_counted conns_wf conn_count conn_acquire conn_release
proof unfold_locales
  fix s :: "'a conn_store_scheme" and a n
  show "0 < n" if "conns_wf s" "conn_count s a = Some n"
    using that by (auto simp: conn_count_Some conn_wf_def dest!: conns_wfD)
  show "\<exists>s'. conn_acquire (Some a) s = Inr ((), s') \<and> conns_wf s' \<and> conn_count s' = (conn_count s)(a \<mapsto> n + 1)"
    if wf: "conns_wf s" and "conn_count s a = Some n"
  proof -
    from that obtain c where c: "conns s a = Some c" "c_ref_count c = n" by (auto simp: conn_count_Some)
    with wf have "conn_wf c" "0 < n" by (auto dest!: conns_wfD simp: conn_wf_def)
    with c wf show ?thesis by (auto simp: c_exec conn_count_upd intro!: conns_wf_upd conn_wf_count)
  qed
  show "\<exists>s'. conn_release (Some a) s = Inr ((), s') \<and> conns_wf s' \<and> conn_count s' = (conn_count s)(a \<mapsto> n - 1)"
    if wf: "conns_wf s" and "conn_count s a = Some n" and "1 < n"
  proof -
    from that obtain c where c: "conns s a = Some c" "c_ref_count c = n" by (auto simp: conn_count_Some)
    with wf have "conn_wf c" by (auto dest!: conns_wfD)
    with c wf \<open>1 < n\<close> show ?thesis
      by (auto simp: conn_release_shared conn_count_upd intro!: conns_wf_upd conn_wf_count)
  qed
  show "\<exists>s'. conn_release (Some a) s = Inr ((), s') \<and> conns_wf s' \<and> conn_count s' = (conn_count s)(a := None)"
    if wf: "conns_wf s" and "conn_count s a = Some 1"
  proof -
    from that obtain c where c: "conns s a = Some c" "c_ref_count c = 1" by (auto simp: conn_count_Some)
    with wf have "conn_wf c" by (auto dest!: conns_wfD)
    with c wf show ?thesis
      by (auto simp: conn_release_last conn_count_upd intro!: conns_wf_del [of "maybe_close _ s", simplified]
          simp: conns_wf_cong [of "maybe_close _ s" s])
  qed
  show "conn_acquire (Some a) s = Inl Dangling" if "conn_count s a = None"
    using that by (simp add: conn_count_None c_exec)
  show "conn_release (Some a) s = Inl Dangling" if "conn_count s a = None"
    using that by (simp add: conn_count_None c_exec)
qed

section \<open>Correctness of the connection life cycle\<close>

lemma conn_wf_demo [simp]: "0 < n \<Longrightarrow> conn_wf (demo_conn fd n)"
  by (simp add: conn_wf_def demo_conn_def BUFFER_SIZE_def)

lemma conns_wf_demo [simp]: "0 < n \<Longrightarrow> conns_wf (demo_conn_store fds [a \<mapsto> demo_conn fd n])"
  by (auto simp: conns_wf_def demo_conn_store_def split: if_splits)



lemma conn_do_step:
  assumes "conns_wf s" and "conn_do x (Some a) s = Inr ((), s')"
  shows "conns_wf s' \<and> closes s' @ owned_fds s' a = closes s @ owned_fds s a"
proof (cases "conns s a")
  case None
  with assms(2) show ?thesis by (cases x) (auto simp: c_exec)
next
  case (Some c)
  with assms(1) have wf: "conn_wf c" by (rule conns_wfD)
  note upd = conns_wf_upd [OF assms(1)] conns_wf_upd [of "maybe_close (c_fd c) s", simplified]
    conns_wf_del [of "maybe_close (c_fd c) s", simplified] conns_wf_cong [of "maybe_close (c_fd c) s" s]
  show ?thesis
  proof (cases x)
    case Op_acquire
    with wf Some assms show ?thesis
      by (auto simp: c_exec owned_fds_def conn_wf_def intro!: upd conn_wf_count)
  next
    case Op_release
    with wf Some assms show ?thesis
      by (cases "c_ref_count c \<le> 1")
         (auto simp: conn_release_shared conn_release_last owned_fds_def closes_maybe_close
           upd(4) intro!: upd(1,3) conn_wf_count)
  next
    case Op_mark_closing
    with wf Some assms show ?thesis
      by (auto simp: c_exec owned_fds_def closes_maybe_close upd(4) conn_wf_def split: if_splits intro!: upd(2))
  next
    case Op_is_valid
    with wf Some assms show ?thesis by (auto simp: c_exec c_defs)
  qed
qed

text \<open>
  C23. No descriptor leaks and none is closed twice: over any sequence of calls on a connection that
  runs to its end, the descriptors passed to \<open>close\<close> so far followed by the one the connection still
  owns stay the same list. A freed connection owns none, so by then its descriptor has been closed
  exactly once, by \<open>conn_mark_closing\<close> or by the final \<open>conn_release\<close>.
\<close>

theorem conn_fd_closed_once:
  assumes "conns_wf s" and "conn_run xs (Some a) s = Inr ((), s')"
  shows "closes s' @ owned_fds s' a = closes s @ owned_fds s a"
  using assms
proof (induction xs arbitrary: s)
  case Nil
  then show ?case by (simp add: returnM_def)
next
  case (Cons x xs)
  from Cons.prems(2) obtain s1 where s1: "conn_do x (Some a) s = Inr ((), s1)" "conn_run xs (Some a) s1 = Inr ((), s')"
    by (auto simp: thenM_def bindM_def split: sum.splits)
  with conn_do_step [OF Cons.prems(1) s1(1)] Cons.IH [of s1] show ?case by simp
qed

theorem conn_fd_closed_once_witness:
  "\<exists>s'. conn_run [Op_mark_closing, Op_release] (Some 0) (demo_conn_store {5} [0 \<mapsto> demo_conn 5 1]) = Inr ((), s') \<and>
        closes s' = [5]"
proof -
  let ?s = "demo_conn_store {5} [0 \<mapsto> demo_conn 5 1]"
  have 1: "conns_wf ?s" by simp
  obtain s' where 2: "conn_run [Op_mark_closing, Op_release] (Some 0) ?s = Inr ((), s')" "owned_fds s' 0 = []"
    by (simp add: c_exec c_defs demo_conn_store_def demo_conn_def owned_fds_def)
  show ?thesis using conn_fd_closed_once [OF 1 2(1)] 2
    by (auto simp: owned_fds_def demo_conn_store_def demo_conn_def)
qed

end
