(* ===== verification/Task_Queue.thy ===== *)
theory Task_Queue
  imports Connection
begin

text \<open>
  \<open>advanced-reactor-server/task_queue.c\<close>: tasks, the bounded queue between the I/O threads and the
  workers, and its refinement of an abstract bounded queue. The heap representation is the
  code's: nodes linked by \<open>next\<close>, a head and a tail pointer and a size. The state gains the
  heaps \<open>tasks\<close> and \<open>queues\<close>.
\<close>

section \<open>Data\<close>

datatype task_type_t = TASK_TYPE_READ | TASK_TYPE_WRITE | TASK_TYPE_PROCESS | TASK_TYPE_CLOSE

text \<open>The block \<open>task->data\<close> is owned by its task and modelled inside it; \<open>None\<close> is \<open>NULL\<close>.\<close>

record task =
  t_type :: task_type_t
  t_conn :: ptr
  t_data :: "string option"
  t_data_len :: int
  t_next :: ptr

text \<open>Wake-ups issued on a condition variable, in order.\<close>

datatype wake = Signal | Broadcast

record task_queue =
  q_head :: ptr
  q_tail :: ptr
  q_size :: int
  q_max_size :: int
  q_mutex :: mutex
  q_not_empty :: "wake list"
  q_not_full :: "wake list"
  q_shutdown :: bool

record task_store = conn_store +
  tasks :: "addr \<Rightarrow> task option"
  queues :: "addr \<Rightarrow> task_queue option"

section \<open>Operations\<close>

definition task_load :: "addr \<Rightarrow> ('a task_store_scheme, task) cmd" where
  "task_load t = derefM tasks (Some t)"

definition task_update :: "addr \<Rightarrow> (task \<Rightarrow> task) \<Rightarrow> ('a task_store_scheme, unit) cmd" where
  "task_update t f = bindM (task_load t) (\<lambda>x. modifyM (\<lambda>s. s\<lparr>tasks := (tasks s)(t \<mapsto> f x)\<rparr>))"

definition queue_load :: "addr \<Rightarrow> ('a task_store_scheme, task_queue) cmd" where
  "queue_load q = derefM queues (Some q)"

definition queue_update :: "addr \<Rightarrow> (task_queue \<Rightarrow> task_queue) \<Rightarrow> ('a task_store_scheme, unit) cmd" where
  "queue_update q f = bindM (queue_load q) (\<lambda>x. modifyM (\<lambda>s. s\<lparr>queues := (queues s)(q \<mapsto> f x)\<rparr>))"

definition queue_lock :: "addr \<Rightarrow> ('a task_store_scheme, unit) cmd" where
  "queue_lock q =
     bindM (queue_load q) (\<lambda>x. bindM (mutex_lock (q_mutex x)) (\<lambda>m. queue_update q (q_mutex_update (\<lambda>_. m))))"

definition queue_unlock :: "addr \<Rightarrow> ('a task_store_scheme, unit) cmd" where
  "queue_unlock q =
     bindM (queue_load q) (\<lambda>x. bindM (mutex_unlock (q_mutex x)) (\<lambda>m. queue_update q (q_mutex_update (\<lambda>_. m))))"

definition task_queue_create :: "int \<Rightarrow> ('a task_store_scheme, ptr) cmd" where
  "task_queue_create max_size =
     bindM mallocM (\<lambda>p. case p of
       None \<Rightarrow> returnM None
     | Some q \<Rightarrow>
         thenM (modifyM (\<lambda>s. s\<lparr>queues := (queues s)(q \<mapsto>
           \<lparr>q_head = None, q_tail = None, q_size = 0, q_max_size = max_size, q_mutex = Unlocked,
            q_not_empty = [], q_not_full = [], q_shutdown = False\<rparr>)\<rparr>))
         (returnM (Some q)))"

text \<open>
  \<open>task_create\<close>: \<open>data\<close> is the caller's buffer, of which \<open>data_len\<close> bytes are copied.
\<close>

definition task_create ::
  "task_type_t \<Rightarrow> ptr \<Rightarrow> string option \<Rightarrow> int \<Rightarrow> ('a task_store_scheme, ptr) cmd" where
  "task_create type conn data data_len =
     bindM mallocM (\<lambda>p. case p of
       None \<Rightarrow> returnM None
     | Some t \<Rightarrow>
         thenM (modifyM (\<lambda>s. s\<lparr>tasks := (tasks s)(t \<mapsto>
           \<lparr>t_type = type, t_conn = conn, t_data = None, t_data_len = 0, t_next = None\<rparr>)\<rparr>))
        (thenM (conn_acquire conn)
        (case data of
           Some d \<Rightarrow>
             if 0 < data_len then
               bindM mallocM (\<lambda>b. case b of
                 Some _ \<Rightarrow>
                   if int (length d) < data_len then failM Out_Of_Bounds
                   else thenM (task_update t (\<lambda>x. x\<lparr>t_data := Some (take (nat data_len) d), t_data_len := data_len\<rparr>))
                              (returnM (Some t))
               | None \<Rightarrow> thenM (modifyM (\<lambda>s. s\<lparr>tasks := (tasks s)(t := None)\<rparr>)) (returnM None))
             else returnM (Some t)
         | None \<Rightarrow> returnM (Some t))))"

definition task_destroy :: "ptr \<Rightarrow> ('a task_store_scheme, unit) cmd" where
  "task_destroy task = (case task of
     None \<Rightarrow> returnM ()
   | Some t \<Rightarrow>
       bindM (task_load t) (\<lambda>x.
       thenM (conn_release (t_conn x))
             (modifyM (\<lambda>s. s\<lparr>tasks := (tasks s)(t := None)\<rparr>))))"

text \<open>
  \<open>task_queue_push\<close>. A producer that has to wait sleeps in \<open>pthread_cond_wait\<close>, which is the
  outcome \<open>Would_Block\<close> of this command with nothing changed; on waking it evaluates the
  loop condition again, which is running the command again.
\<close>

definition task_queue_push :: "ptr \<Rightarrow> ptr \<Rightarrow> ('a task_store_scheme, int) cmd" where
  "task_queue_push queue task = (case (queue, task) of
     (Some q, Some t) \<Rightarrow>
       thenM (queue_lock q)
      (bindM (queue_load q) (\<lambda>Q.
         if q_max_size Q \<le> q_size Q \<and> \<not> q_shutdown Q then failM Would_Block
         else if q_shutdown Q then thenM (queue_unlock q) (returnM (- 1))
         else
           thenM (task_update t (\<lambda>x. x\<lparr>t_next := None\<rparr>))
          (thenM (case q_tail Q of
                    Some l \<Rightarrow> thenM (task_update l (\<lambda>x. x\<lparr>t_next := Some t\<rparr>))
                                   (queue_update q (\<lambda>Q. Q\<lparr>q_tail := Some t\<rparr>))
                  | None \<Rightarrow> queue_update q (\<lambda>Q. Q\<lparr>q_head := Some t, q_tail := Some t\<rparr>))
          (thenM (queue_update q (\<lambda>Q. Q\<lparr>q_size := q_size Q + 1\<rparr>))
          (thenM (queue_update q (\<lambda>Q. Q\<lparr>q_not_empty := q_not_empty Q @ [Signal]\<rparr>))
          (thenM (queue_unlock q) (returnM 0)))))))
   | _ \<Rightarrow> returnM (- 1))"

definition task_queue_pop :: "ptr \<Rightarrow> ('a task_store_scheme, ptr) cmd" where
  "task_queue_pop queue = (case queue of
     None \<Rightarrow> returnM None
   | Some q \<Rightarrow>
       thenM (queue_lock q)
      (bindM (queue_load q) (\<lambda>Q.
         if q_size Q = 0 \<and> \<not> q_shutdown Q then failM Would_Block
         else if q_shutdown Q \<and> q_size Q = 0 then thenM (queue_unlock q) (returnM None)
         else
           thenM (case q_head Q of
                    None \<Rightarrow> returnM ()
                  | Some t \<Rightarrow>
                      bindM (task_load t) (\<lambda>x.
                      thenM (queue_update q (\<lambda>Q. Q\<lparr>q_head := t_next x\<rparr>))
                     (thenM (whenM (t_next x = None) (queue_update q (\<lambda>Q. Q\<lparr>q_tail := None\<rparr>)))
                     (thenM (queue_update q (\<lambda>Q. Q\<lparr>q_size := q_size Q - 1\<rparr>))
                     (thenM (task_update t (\<lambda>x. x\<lparr>t_next := None\<rparr>))
                            (queue_update q (\<lambda>Q. Q\<lparr>q_not_full := q_not_full Q @ [Signal]\<rparr>)))))))
          (thenM (queue_unlock q) (returnM (q_head Q))))))"

definition task_queue_shutdown :: "ptr \<Rightarrow> ('a task_store_scheme, unit) cmd" where
  "task_queue_shutdown queue = (case queue of
     None \<Rightarrow> returnM ()
   | Some q \<Rightarrow>
       thenM (queue_lock q)
      (thenM (queue_update q (\<lambda>Q. Q\<lparr>q_shutdown := True\<rparr>))
      (thenM (queue_update q (\<lambda>Q. Q\<lparr>q_not_empty := q_not_empty Q @ [Broadcast]\<rparr>))
      (thenM (queue_update q (\<lambda>Q. Q\<lparr>q_not_full := q_not_full Q @ [Broadcast]\<rparr>))
             (queue_unlock q)))))"

text \<open>The loop of \<open>task_queue_destroy\<close>, one unit of fuel per node.\<close>

fun destroy_tasks :: "nat \<Rightarrow> ptr \<Rightarrow> ('a task_store_scheme, unit) cmd" where
  "destroy_tasks fuel None = returnM ()"
| "destroy_tasks 0 (Some t) = failM Out_Of_Fuel"
| "destroy_tasks (Suc fuel) (Some t) =
     bindM (task_load t) (\<lambda>x. thenM (task_destroy (Some t)) (destroy_tasks fuel (t_next x)))"

definition task_queue_destroy :: "nat \<Rightarrow> ptr \<Rightarrow> ('a task_store_scheme, unit) cmd" where
  "task_queue_destroy fuel queue = (case queue of
     None \<Rightarrow> returnM ()
   | Some q \<Rightarrow>
       thenM (queue_lock q)
      (bindM (queue_load q) (\<lambda>Q.
       thenM (destroy_tasks fuel (q_head Q))
      (thenM (queue_unlock q)
      (thenM (queue_update q (\<lambda>Q. Q\<lparr>q_mutex := Destroyed\<rparr>))
             (modifyM (\<lambda>s. s\<lparr>queues := (queues s)(q := None)\<rparr>)))))))"

section \<open>The abstract bounded queue\<close>

record bqueue =
  b_items :: "addr list"
  b_max :: int
  b_shutdown :: bool

datatype push_result = Push_Wait | Push_Refused | Pushed bqueue
datatype pop_result = Pop_Wait | Pop_Closed | Popped addr bqueue

definition bq_push :: "addr \<Rightarrow> bqueue \<Rightarrow> push_result" where
  "bq_push t b =
     (if b_shutdown b then Push_Refused
      else if b_max b \<le> int (length (b_items b)) then Push_Wait
      else Pushed (b\<lparr>b_items := b_items b @ [t]\<rparr>))"

definition bq_pop :: "bqueue \<Rightarrow> pop_result" where
  "bq_pop b = (case b_items b of
      [] \<Rightarrow> if b_shutdown b then Pop_Closed else Pop_Wait
    | t # ts \<Rightarrow> Popped t (b\<lparr>b_items := ts\<rparr>))"

definition bq_shutdown :: "bqueue \<Rightarrow> bqueue" where
  "bq_shutdown b = b\<lparr>b_shutdown := True\<rparr>"

text \<open>The abstraction relation: the heap structure at \<open>q\<close> represents the abstract queue \<open>b\<close>.\<close>

definition task_next :: "'a task_store_scheme \<Rightarrow> addr \<Rightarrow> ptr option" where
  "task_next s t = map_option t_next (tasks s t)"

definition queue_abs :: "'a task_store_scheme \<Rightarrow> addr \<Rightarrow> bqueue \<Rightarrow> bool" where
  "queue_abs s q b \<longleftrightarrow> (case queues s q of
     None \<Rightarrow> False
   | Some Q \<Rightarrow> q_mutex Q = Unlocked \<and> chain (task_next s) (q_head Q) (b_items b) \<and>
       q_tail Q = (if b_items b = [] then None else Some (last (b_items b))) \<and>
       q_size Q = int (length (b_items b)) \<and> q_max_size Q = b_max b \<and> q_shutdown Q = b_shutdown b)"

text \<open>The parts of a task the queue never touches.\<close>

definition task_core :: "'a task_store_scheme \<Rightarrow> addr \<Rightarrow> (task_type_t \<times> ptr \<times> string option \<times> int) option" where
  "task_core s t = map_option (\<lambda>x. (t_type x, t_conn x, t_data x, t_data_len x)) (tasks s t)"

definition queue_frame :: "addr \<Rightarrow> 'a task_store_scheme \<Rightarrow> 'a task_store_scheme \<Rightarrow> bool" where
  "queue_frame q s s' \<longleftrightarrow>
     conn_store.truncate s' = conn_store.truncate s \<and> task_core s' = task_core s \<and>
     (\<forall>q'. q' \<noteq> q \<longrightarrow> queues s' q' = queues s q') \<and> task_store.more s' = task_store.more s"

text \<open>A concrete store: a queue at address 50 of capacity 4 that holds the tasks 1 and 2; task 3 is not queued.\<close>

definition demo_task :: "ptr \<Rightarrow> ptr \<Rightarrow> task" where
  "demo_task conn next = \<lparr>t_type = TASK_TYPE_PROCESS, t_conn = conn, t_data = Some ''hi'', t_data_len = 2, t_next = next\<rparr>"

definition demo_queue :: bqueue where
  "demo_queue = \<lparr>b_items = [1, 2], b_max = 4, b_shutdown = False\<rparr>"

definition demo_task_store :: task_store where
  "demo_task_store =
     \<lparr>fd_open = {5}, errno = E_OK, rx = (\<lambda>_. []), tx = (\<lambda>_. []), sent = (\<lambda>_. []),
      pipe_peer = id, pipe_buf = (\<lambda>_. []), ep_interest = (\<lambda>_ _. None),
      kq_filters = (\<lambda>_ _. None), ep_waits = (\<lambda>_. []), kq_waits = (\<lambda>_. []), newfd = [], mem = [], next_addr = 100, now = 0, closes = [], accepts = (\<lambda>_. []),
      loops = Map.empty, conns = [0 \<mapsto> demo_conn 5 4],
      tasks = [1 \<mapsto> demo_task (Some 0) (Some 2), 2 \<mapsto> demo_task (Some 0) None, 3 \<mapsto> demo_task (Some 0) None],
      queues = [50 \<mapsto> \<lparr>q_head = Some 1, q_tail = Some 2, q_size = 2, q_max_size = 4, q_mutex = Unlocked,
                      q_not_empty = [], q_not_full = [], q_shutdown = False\<rparr>]\<rparr>"

section \<open>Execution rules\<close>

lemma task_load_Some [c_exec]: "tasks s t = Some x \<Longrightarrow> task_load t s = Inr (x, s)"
  by (simp add: task_load_def derefM_def)

lemma task_load_None [c_exec]: "tasks s t = None \<Longrightarrow> task_load t s = Inl Dangling"
  by (simp add: task_load_def derefM_def)

lemma task_update_Some [c_exec]:
  "tasks s t = Some x \<Longrightarrow> task_update t f s = Inr ((), s\<lparr>tasks := (tasks s)(t \<mapsto> f x)\<rparr>)"
  by (simp add: task_update_def c_exec c_defs)

lemma queue_load_Some [c_exec]: "queues s q = Some Q \<Longrightarrow> queue_load q s = Inr (Q, s)"
  by (simp add: queue_load_def derefM_def)

lemma queue_update_Some [c_exec]:
  "queues s q = Some Q \<Longrightarrow> queue_update q f s = Inr ((), s\<lparr>queues := (queues s)(q \<mapsto> f Q)\<rparr>)"
  by (simp add: queue_update_def c_exec c_defs)

lemma queue_lock_Some [c_exec]:
  "queues s q = Some Q \<Longrightarrow> q_mutex Q = Unlocked \<Longrightarrow>
     queue_lock q s = Inr ((), s\<lparr>queues := (queues s)(q \<mapsto> Q\<lparr>q_mutex := Locked\<rparr>)\<rparr>)"
  by (simp add: queue_lock_def c_exec c_defs)

lemma queue_unlock_Some [c_exec]:
  "queues s q = Some Q \<Longrightarrow> q_mutex Q = Locked \<Longrightarrow>
     queue_unlock q s = Inr ((), s\<lparr>queues := (queues s)(q \<mapsto> Q\<lparr>q_mutex := Unlocked\<rparr>)\<rparr>)"
  by (simp add: queue_unlock_def c_exec c_defs)

lemma queue_unlocked_id [simp]: "q_mutex Q = Unlocked \<Longrightarrow> Q\<lparr>q_mutex := Unlocked\<rparr> = Q"
  by (cases Q) simp

lemma queue_absD:
  assumes "queue_abs s q b"
  obtains Q where "queues s q = Some Q" "q_mutex Q = Unlocked" "chain (task_next s) (q_head Q) (b_items b)"
    "q_tail Q = (if b_items b = [] then None else Some (last (b_items b)))"
    "q_size Q = int (length (b_items b))" "q_max_size Q = b_max b" "q_shutdown Q = b_shutdown b"
  using assms by (auto simp: queue_abs_def split: option.splits)

lemma queue_absI:
  "queues s q = Some Q \<Longrightarrow> q_mutex Q = Unlocked \<Longrightarrow> chain (task_next s) (q_head Q) (b_items b) \<Longrightarrow>
   q_tail Q = (if b_items b = [] then None else Some (last (b_items b))) \<Longrightarrow>
   q_size Q = int (length (b_items b)) \<Longrightarrow> q_max_size Q = b_max b \<Longrightarrow> q_shutdown Q = b_shutdown b \<Longrightarrow>
   queue_abs s q b"
  by (simp add: queue_abs_def)

lemma queue_abs_distinct: "queue_abs s q b \<Longrightarrow> distinct (b_items b)"
  by (auto elim: queue_absD dest: chain_distinct)

lemma queue_abs_tasks: "queue_abs s q b \<Longrightarrow> t \<in> set (b_items b) \<Longrightarrow> \<exists>x. tasks s t = Some x"
  by (auto elim!: queue_absD dest!: chain_allocated simp: task_next_def)

lemma task_next_upd [simp]:
  "task_next (s\<lparr>tasks := T(t := v)\<rparr>) = (task_next (s\<lparr>tasks := T\<rparr>))(t := map_option t_next v)"
  by (auto simp: task_next_def)

lemma task_next_queues [simp]: "task_next (s\<lparr>queues := X\<rparr>) = task_next s"
  by (auto simp: task_next_def)

lemma task_next_cong: "tasks s' = tasks s \<Longrightarrow> task_next s' = task_next s"
  by (simp add: task_next_def fun_eq_iff)

lemma queue_abs_cong: "tasks s' = tasks s \<Longrightarrow> queues s' q = queues s q \<Longrightarrow> queue_abs s' q b = queue_abs s q b"
  by (cases "queues s q") (simp_all add: queue_abs_def task_next_cong [of s' s])

lemma task_core_queues [simp]: "task_core (s\<lparr>queues := X\<rparr>) = task_core s"
  by (auto simp: task_core_def)

lemma task_core_next [simp]:
  "tasks s t = Some x \<Longrightarrow> task_core (s\<lparr>tasks := (tasks s)(t \<mapsto> x\<lparr>t_next := p\<rparr>)\<rparr>) = task_core s"
  by (auto simp: task_core_def)

section \<open>Refinement of the abstract queue\<close>

lemma push_waits:
  assumes "queue_abs s q b" "bq_push t b = Push_Wait"
  shows "task_queue_push (Some q) (Some t) s = Inl Would_Block"
  using assms(1)
proof (rule queue_absD)
  fix Q assume "queues s q = Some Q" "q_mutex Q = Unlocked"
    "q_size Q = int (length (b_items b))" "q_max_size Q = b_max b" "q_shutdown Q = b_shutdown b"
  with assms(2) show ?thesis
    by (simp add: task_queue_push_def bq_push_def c_exec c_defs split: if_splits)
qed

lemma push_refused:
  assumes "queue_abs s q b" "bq_push t b = Push_Refused"
  shows "task_queue_push (Some q) (Some t) s = Inr (- 1, s)"
  using assms(1)
proof (rule queue_absD)
  fix Q assume "queues s q = Some Q" "q_mutex Q = Unlocked"
    "q_size Q = int (length (b_items b))" "q_max_size Q = b_max b" "q_shutdown Q = b_shutdown b"
  with assms(2) show ?thesis
    by (simp add: task_queue_push_def bq_push_def c_exec c_defs fun_upd_idem split: if_splits)
qed

lemma task_queue_push_empty:
  assumes "queues s q = Some Q" "q_mutex Q = Unlocked" "\<not> q_shutdown Q" "q_size Q < q_max_size Q"
    "tasks s t = Some x" "q_tail Q = None"
  shows "task_queue_push (Some q) (Some t) s =
    Inr (0, s\<lparr>tasks := (tasks s)(t \<mapsto> x\<lparr>t_next := None\<rparr>),
             queues := (queues s)(q \<mapsto> Q\<lparr>q_head := Some t, q_tail := Some t, q_size := q_size Q + 1,
               q_not_empty := q_not_empty Q @ [Signal]\<rparr>)\<rparr>)"
  using assms by (cases s) (simp add: task_queue_push_def c_exec c_defs)

lemma task_queue_push_nonempty:
  assumes "queues s q = Some Q" "q_mutex Q = Unlocked" "\<not> q_shutdown Q" "q_size Q < q_max_size Q"
    "tasks s t = Some x" "q_tail Q = Some l" "tasks s l = Some y" "l \<noteq> t"
  shows "task_queue_push (Some q) (Some t) s =
    Inr (0, s\<lparr>tasks := (tasks s)(t \<mapsto> x\<lparr>t_next := None\<rparr>, l \<mapsto> y\<lparr>t_next := Some t\<rparr>),
             queues := (queues s)(q \<mapsto> Q\<lparr>q_tail := Some t, q_size := q_size Q + 1,
               q_not_empty := q_not_empty Q @ [Signal]\<rparr>)\<rparr>)"
  using assms by (cases s) (simp add: task_queue_push_def c_exec c_defs)

lemma push_pushed:
  assumes abs: "queue_abs s q b" and push: "bq_push t b = Pushed b'"
    and t: "tasks s t = Some x" "t \<notin> set (b_items b)"
  shows "\<exists>s'. task_queue_push (Some q) (Some t) s = Inr (0, s') \<and> queue_abs s' q b' \<and> queue_frame q s s'"
proof -
  from abs obtain Q where Q: "queues s q = Some Q" "q_mutex Q = Unlocked" "chain (task_next s) (q_head Q) (b_items b)"
    "q_tail Q = (if b_items b = [] then None else Some (last (b_items b)))"
    "q_size Q = int (length (b_items b))" "q_max_size Q = b_max b" "q_shutdown Q = b_shutdown b"
    by (rule queue_absD)
  from push have b': "b' = b\<lparr>b_items := b_items b @ [t]\<rparr>" "\<not> b_shutdown b" "int (length (b_items b)) < b_max b"
    by (auto simp: bq_push_def split: if_splits)
  show ?thesis
  proof (cases "b_items b" rule: rev_cases)
    case Nil
    with Q b' t show ?thesis
      by (simp add: task_queue_push_empty) (simp add: queue_abs_def queue_frame_def conn_store.truncate_def task_core_next)
  next
    case (snoc xs l)
    then obtain y where y: "tasks s l = Some y" using queue_abs_tasks[OF abs, of l] by auto
    have "chain ((task_next s)(l := Some (Some t), t := Some None)) (q_head Q) (xs @ [l, t])"
      using chain_snoc [of "task_next s" "q_head Q" xs l t] Q(3) snoc t(2) chain_distinct [OF Q(3)] by auto
    with Q b' t y snoc show ?thesis
      by (simp add: task_queue_push_nonempty) (simp add: queue_abs_def queue_frame_def conn_store.truncate_def fun_upd_twist, auto simp: task_core_def)
  qed
qed

lemma queue_abs_unique: "queue_abs s q b \<Longrightarrow> queue_abs s q b' \<Longrightarrow> b = b'"
  by (cases b; cases b') (auto simp: queue_abs_def dest: chain_unique split: option.splits)

lemma task_core_None: "task_core s t = None \<longleftrightarrow> tasks s t = None"
  by (simp add: task_core_def)

lemma queue_frame_tasks: "queue_frame q s s' \<Longrightarrow> (\<lambda>t. tasks s' t \<noteq> None) = (\<lambda>t. tasks s t \<noteq> None)"
  by (simp add: queue_frame_def flip: task_core_None)

lemma pop_waits:
  assumes "queue_abs s q b" "bq_pop b = Pop_Wait"
  shows "task_queue_pop (Some q) s = Inl Would_Block"
  using assms(1)
proof (rule queue_absD)
  fix Q assume "queues s q = Some Q" "q_mutex Q = Unlocked"
    "q_size Q = int (length (b_items b))" "q_shutdown Q = b_shutdown b"
  with assms(2) show ?thesis
    by (simp add: task_queue_pop_def bq_pop_def c_exec c_defs split: if_splits list.splits)
qed

lemma pop_closed:
  assumes "queue_abs s q b" "bq_pop b = Pop_Closed"
  shows "task_queue_pop (Some q) s = Inr (None, s)"
  using assms(1)
proof (rule queue_absD)
  fix Q assume "queues s q = Some Q" "q_mutex Q = Unlocked"
    "q_size Q = int (length (b_items b))" "q_shutdown Q = b_shutdown b"
  with assms(2) show ?thesis
    by (simp add: task_queue_pop_def bq_pop_def c_exec c_defs fun_upd_idem split: if_splits list.splits)
qed

lemma task_queue_pop_exec:
  assumes "queues s q = Some Q" "q_mutex Q = Unlocked" "q_size Q \<noteq> 0" "q_head Q = Some t" "tasks s t = Some x"
  shows "task_queue_pop (Some q) s =
    Inr (Some t, s\<lparr>tasks := (tasks s)(t \<mapsto> x\<lparr>t_next := None\<rparr>),
             queues := (queues s)(q \<mapsto> Q\<lparr>q_head := t_next x, q_tail := (if t_next x = None then None else q_tail Q),
               q_size := q_size Q - 1, q_not_full := q_not_full Q @ [Signal]\<rparr>)\<rparr>)"
  using assms by (cases s; cases Q; cases "t_next x") (simp_all add: task_queue_pop_def c_exec c_defs)

lemma pop_popped:
  assumes abs: "queue_abs s q b" and pop: "bq_pop b = Popped t b'"
  shows "\<exists>s'. task_queue_pop (Some q) s = Inr (Some t, s') \<and> queue_abs s' q b' \<and> queue_frame q s s'"
proof -
  from abs obtain Q where Q: "queues s q = Some Q" "q_mutex Q = Unlocked" "chain (task_next s) (q_head Q) (b_items b)"
    "q_tail Q = (if b_items b = [] then None else Some (last (b_items b)))"
    "q_size Q = int (length (b_items b))" "q_max_size Q = b_max b" "q_shutdown Q = b_shutdown b"
    by (rule queue_absD)
  from pop obtain ts where ts: "b_items b = t # ts" "b' = b\<lparr>b_items := ts\<rparr>"
    by (auto simp: bq_pop_def split: if_splits list.splits)
  with Q(3) obtain x where x: "q_head Q = Some t" "tasks s t = Some x" "chain (task_next s) (t_next x) ts"
    by (auto simp: task_next_def split: option.splits)
  have "t \<notin> set ts" using chain_distinct [OF Q(3)] ts by simp
  moreover have "t_next x = None \<longleftrightarrow> ts = []" using x(3) by (cases ts) auto
  ultimately show ?thesis using Q x ts
    by (simp add: task_queue_pop_exec) (simp add: queue_abs_def queue_frame_def conn_store.truncate_def)
qed

lemma shutdown_exec:
  assumes "queues s q = Some Q" "q_mutex Q = Unlocked"
  shows "task_queue_shutdown (Some q) s = Inr ((), s\<lparr>queues := (queues s)(q \<mapsto> Q\<lparr>q_shutdown := True,
     q_not_empty := q_not_empty Q @ [Broadcast], q_not_full := q_not_full Q @ [Broadcast]\<rparr>)\<rparr>)"
  using assms by (simp add: task_queue_shutdown_def c_exec)

lemma shutdown_abs:
  assumes "queue_abs s q b"
  shows "\<exists>s'. task_queue_shutdown (Some q) s = Inr ((), s') \<and> queue_abs s' q (bq_shutdown b) \<and> queue_frame q s s'"
  using assms
  by (rule queue_absD) (simp add: shutdown_exec, simp add: queue_abs_def queue_frame_def conn_store.truncate_def bq_shutdown_def)


interpretation tq: fifo_queue "\<lambda>s xs. \<exists>b. queue_abs s q b \<and> b_items b = xs" "\<lambda>s t. tasks s t \<noteq> None"
  "\<lambda>s n. \<exists>b. queue_abs s q b \<and> \<not> b_shutdown b \<and> int (length (b_items b) + n) \<le> b_max b"
  "\<lambda>t. task_queue_push (Some q) (Some t)" "task_queue_pop (Some q)" for q
proof unfold_locales
  fix s :: "'a task_store_scheme" and xs x n
  assume "\<exists>b. queue_abs s q b \<and> b_items b = xs" "tasks s x \<noteq> None" "x \<notin> set xs"
    "\<exists>b. queue_abs s q b \<and> \<not> b_shutdown b \<and> int (length (b_items b) + Suc n) \<le> b_max b"
  then obtain b y where b: "queue_abs s q b" "b_items b = xs" "\<not> b_shutdown b" "int (length xs + Suc n) \<le> b_max b"
    and y: "tasks s x = Some y" "x \<notin> set (b_items b)" by (auto dest: queue_abs_unique)
  then have "bq_push x b = Pushed (b\<lparr>b_items := xs @ [x]\<rparr>)" by (simp add: bq_push_def)
  from push_pushed [OF b(1) this y] obtain s' where
    "task_queue_push (Some q) (Some x) s = Inr (0, s')" "queue_abs s' q (b\<lparr>b_items := xs @ [x]\<rparr>)" "queue_frame q s s'"
    by blast
  with b queue_frame_tasks [of q s s', THEN fun_cong] show "\<exists>r s'. task_queue_push (Some q) (Some x) s = Inr (r, s') \<and>
      (\<exists>b. queue_abs s' q b \<and> b_items b = xs @ [x]) \<and>
      (\<forall>y. tasks s y \<noteq> None \<longrightarrow> y \<notin> set (xs @ [x]) \<longrightarrow> tasks s' y \<noteq> None) \<and>
      (\<exists>b. queue_abs s' q b \<and> \<not> b_shutdown b \<and> int (length (b_items b) + n) \<le> b_max b)"
    by (intro exI [of _ 0] exI [of _ s'] conjI exI [of _ "b\<lparr>b_items := xs @ [x]\<rparr>"]) auto
next
  fix s :: "'a task_store_scheme" and xs x
  assume "\<exists>b. queue_abs s q b \<and> b_items b = x # xs"
  then obtain b where b: "queue_abs s q b" "bq_pop b = Popped x (b\<lparr>b_items := xs\<rparr>)" by (auto simp: bq_pop_def)
  from pop_popped [OF b] obtain s' where
    "task_queue_pop (Some q) s = Inr (Some x, s')" "queue_abs s' q (b\<lparr>b_items := xs\<rparr>)" "queue_frame q s s'"
    by blast
  then show "\<exists>s'. task_queue_pop (Some q) s = Inr (Some x, s') \<and> (\<exists>b. queue_abs s' q b \<and> b_items b = xs)"
    by (intro exI [of _ s'] conjI exI [of _ "b\<lparr>b_items := xs\<rparr>"]) auto
qed

text \<open>Popping everything keeps the capacity and the shutdown flag.\<close>

lemma pop_all_exec:
  "queue_abs s q b \<Longrightarrow>
     \<exists>s'. pop_n (task_queue_pop (Some q)) (length (b_items b)) s = Inr (map Some (b_items b), s') \<and>
          queue_abs s' q (b\<lparr>b_items := []\<rparr>)"
proof (induction "b_items b" arbitrary: b s)
  case Nil
  then have "b\<lparr>b_items := []\<rparr> = b" by (cases b) simp
  moreover have "b_items b = []" using Nil.hyps by simp
  ultimately show ?case using Nil.prems by (simp only:) (simp add: returnM_def)
next
  case (Cons t ts)
  then have "bq_pop b = Popped t (b\<lparr>b_items := ts\<rparr>)" by (simp add: bq_pop_def flip: Cons.hyps(2))
  from pop_popped [OF Cons.prems this] obtain s1 where
    s1: "task_queue_pop (Some q) s = Inr (Some t, s1)" "queue_abs s1 q (b\<lparr>b_items := ts\<rparr>)" by blast
  with Cons.hyps(1) [of "b\<lparr>b_items := ts\<rparr>" s1] obtain s2 where
    "pop_n (task_queue_pop (Some q)) (length ts) s1 = Inr (map Some ts, s2)" "queue_abs s2 q (b\<lparr>b_items := []\<rparr>)"
    by auto
  with s1 show ?case by (auto simp: bindM_Inr returnM_def simp flip: Cons.hyps(2))
qed

lemma demo_queue_abs: "queue_abs demo_task_store 50 demo_queue"
  by (simp add: queue_abs_def demo_task_store_def demo_queue_def task_next_def demo_task_def)

section \<open>Correctness of the queue\<close>

text \<open>
  C3. \<open>task_queue_push\<close> implements the abstract bounded queue: it sleeps exactly when the queue is
  full and open, refuses with \<open>- 1\<close> and no effect once the queue is shut down, and otherwise
  returns 0 with the task appended at the end; nothing but the \<open>next\<close> links and this queue changes.
\<close>

theorem task_queue_push_refines:
  assumes "queue_abs s q b" and "tasks s t = Some x" and "t \<notin> set (b_items b)"
  shows "case bq_push t b of
           Push_Wait \<Rightarrow> task_queue_push (Some q) (Some t) s = Inl Would_Block
         | Push_Refused \<Rightarrow> task_queue_push (Some q) (Some t) s = Inr (- 1, s)
         | Pushed b' \<Rightarrow> \<exists>s'. task_queue_push (Some q) (Some t) s = Inr (0, s') \<and> queue_abs s' q b' \<and> queue_frame q s s'"
  using assms push_waits push_refused push_pushed by (auto split: push_result.splits)

theorem task_queue_push_refines_witness:
  "\<exists>s'. task_queue_push (Some 50) (Some 3) demo_task_store = Inr (0, s') \<and>
        queue_abs s' 50 (demo_queue\<lparr>b_items := [1, 2, 3]\<rparr>)"
proof -
  have 1: "tasks demo_task_store 3 = Some (demo_task (Some 0) None)" by (simp add: demo_task_store_def)
  have 2: "3 \<notin> set (b_items demo_queue)" by (simp add: demo_queue_def)
  show ?thesis using task_queue_push_refines [OF demo_queue_abs 1 2] by (auto simp: bq_push_def demo_queue_def)
qed

text \<open>
  C4. \<open>task_queue_pop\<close> implements the abstract bounded queue: it sleeps exactly when the queue is empty
  and open, returns \<open>NULL\<close> exactly when it is empty and shut down, and otherwise unlinks
  and returns the oldest task.
\<close>

theorem task_queue_pop_refines:
  assumes "queue_abs s q b"
  shows "case bq_pop b of
           Pop_Wait \<Rightarrow> task_queue_pop (Some q) s = Inl Would_Block
         | Pop_Closed \<Rightarrow> task_queue_pop (Some q) s = Inr (None, s)
         | Popped t b' \<Rightarrow> \<exists>s'. task_queue_pop (Some q) s = Inr (Some t, s') \<and> queue_abs s' q b' \<and> queue_frame q s s'"
  using assms pop_waits pop_closed pop_popped by (auto split: pop_result.splits)

theorem task_queue_pop_refines_witness:
  "\<exists>s'. task_queue_pop (Some 50) demo_task_store = Inr (Some 1, s') \<and> queue_abs s' 50 (demo_queue\<lparr>b_items := [2]\<rparr>)"
  using task_queue_pop_refines [OF demo_queue_abs] by (auto simp: bq_pop_def demo_queue_def)

text \<open>
  C5. First in, first out: tasks pushed while there is room come out in the order in which they were
  pushed, after the tasks that were already queued, and the queue is then empty.
\<close>

theorem task_queue_fifo:
  assumes "queue_abs s q b" and "\<And>t. t \<in> set ts \<Longrightarrow> tasks s t \<noteq> None" and "distinct (b_items b @ ts)"
    and "\<not> b_shutdown b" and "int (length (b_items b) + length ts) \<le> b_max b"
  shows "\<exists>s'. thenM (push_all (\<lambda>t. task_queue_push (Some q) (Some t)) ts)
                  (pop_n (task_queue_pop (Some q)) (length (b_items b @ ts))) s = Inr (map Some (b_items b @ ts), s') \<and>
              (\<exists>b'. queue_abs s' q b' \<and> b_items b' = [])"
  using tq.fifo_order [where q = q and s = s and xs = "b_items b" and ys = ts] assms by blast

theorem task_queue_fifo_witness:
  "b_items demo_queue @ [3] = [1, 2, 3] \<and>
   (\<exists>s'. thenM (push_all (\<lambda>t. task_queue_push (Some 50) (Some t)) [3])
             (pop_n (task_queue_pop (Some 50)) (length (b_items demo_queue @ [3]))) demo_task_store =
          Inr (map Some (b_items demo_queue @ [3]), s'))"
proof -
  have 1: "\<And>t. t \<in> set [3] \<Longrightarrow> tasks demo_task_store t \<noteq> None" by (simp add: demo_task_store_def)
  have 2: "distinct (b_items demo_queue @ [3])" "\<not> b_shutdown demo_queue"
    "int (length (b_items demo_queue) + length [3 :: addr]) \<le> b_max demo_queue"
    by (simp_all add: demo_queue_def)
  have "b_items demo_queue @ [3] = [1, 2, 3]" by (simp add: demo_queue_def)
  then show ?thesis using task_queue_fifo [OF demo_queue_abs 1 2] by blast
qed

text \<open>
  C6. Shutting down loses no task and leaves nobody waiting: after \<open>task_queue_shutdown\<close> every
  queued task can still be popped, in order, the next pop returns \<open>NULL\<close> instead of sleeping, and
  every push is refused.
\<close>

theorem task_queue_shutdown_drains:
  assumes "queue_abs s q b"
  shows "\<exists>s1 s2. task_queue_shutdown (Some q) s = Inr ((), s1) \<and>
           task_queue_push (Some q) (Some t) s1 = Inr (- 1, s1) \<and>
           pop_n (task_queue_pop (Some q)) (length (b_items b)) s1 = Inr (map Some (b_items b), s2) \<and>
           task_queue_pop (Some q) s2 = Inr (None, s2)"
proof -
  obtain s1 where s1: "task_queue_shutdown (Some q) s = Inr ((), s1)" "queue_abs s1 q (bq_shutdown b)"
    using shutdown_abs [OF assms] by blast
  have "task_queue_push (Some q) (Some t) s1 = Inr (- 1, s1)"
    using s1(2) by (rule push_refused) (simp add: bq_push_def bq_shutdown_def)
  moreover have "\<exists>s2. pop_n (task_queue_pop (Some q)) (length (b_items b)) s1 = Inr (map Some (b_items b), s2) \<and>
      queue_abs s2 q (b\<lparr>b_shutdown := True, b_items := []\<rparr>)"
    using s1(2) pop_all_exec [of s1 q "bq_shutdown b"] by (simp add: bq_shutdown_def)
  ultimately show ?thesis using s1(1) by (auto elim!: pop_closed simp: bq_pop_def)
qed

theorem task_queue_shutdown_drains_witness:
  "b_items demo_queue = [1, 2] \<and>
   (\<exists>s1 s2. task_queue_shutdown (Some 50) demo_task_store = Inr ((), s1) \<and>
     pop_n (task_queue_pop (Some 50)) (length (b_items demo_queue)) s1 = Inr (map Some (b_items demo_queue), s2) \<and>
     task_queue_pop (Some 50) s2 = Inr (None, s2))"
proof -
  have "b_items demo_queue = [1, 2]" by (simp add: demo_queue_def)
  then show ?thesis using task_queue_shutdown_drains [OF demo_queue_abs, of 3] by blast
qed

end
