(* ===== verification/Queue_Monitor.thy ===== *)
theory Queue_Monitor
  imports Task_Queue
begin

text \<open>
  The task queue as a monitor: any number of threads run \<open>task_queue_push\<close>, \<open>task_queue_pop\<close> and
  \<open>task_queue_shutdown\<close> concurrently. A step is one critical section, from \<open>pthread_mutex_lock\<close> (or
  the return of \<open>pthread_cond_wait\<close>) to the next wait or unlock, and its effect on
  the queue is the abstract operation that the heap code refines. \<open>pthread_cond_signal\<close> wakes at least one
  of the threads asleep on the variable, possibly more, and sleeping threads may wake spuriously.
\<close>

section \<open>Threads and steps\<close>

datatype tstate = Running | Sleep_Pop | Woken_Pop | Sleep_Push addr | Woken_Push addr

record monitor =
  m_queue :: bqueue
  m_threads :: "nat \<Rightarrow> tstate"

fun wake :: "tstate \<Rightarrow> tstate" where
  "wake Sleep_Pop = Woken_Pop"
| "wake (Sleep_Push t) = Woken_Push t"
| "wake ts = ts"

definition wake_set :: "nat set \<Rightarrow> (nat \<Rightarrow> tstate) \<Rightarrow> nat \<Rightarrow> tstate" where
  "wake_set W ths i = (if i \<in> W then wake (ths i) else ths i)"

definition pop_sleepers :: "(nat \<Rightarrow> tstate) \<Rightarrow> nat set" where
  "pop_sleepers ths = {i. ths i = Sleep_Pop}"

definition push_sleepers :: "(nat \<Rightarrow> tstate) \<Rightarrow> nat set" where
  "push_sleepers ths = {i. \<exists>t. ths i = Sleep_Push t}"

definition pop_woken :: "(nat \<Rightarrow> tstate) \<Rightarrow> nat set" where
  "pop_woken ths = {i. ths i = Woken_Pop}"

definition push_woken :: "(nat \<Rightarrow> tstate) \<Rightarrow> nat set" where
  "push_woken ths = {i. \<exists>t. ths i = Woken_Push t}"

text \<open>The sets of threads a signal on a condition variable with the given sleepers may wake.\<close>

definition signals :: "nat set \<Rightarrow> nat set \<Rightarrow> bool" where
  "signals sleepers W \<longleftrightarrow> W \<subseteq> sleepers \<and> (sleepers \<noteq> {} \<longrightarrow> W \<noteq> {})"

inductive mon_step :: "monitor \<Rightarrow> monitor \<Rightarrow> bool" where
  pop_wait: "m_threads m i \<in> {Running, Woken_Pop} \<Longrightarrow> bq_pop (m_queue m) = Pop_Wait \<Longrightarrow>
     mon_step m (m\<lparr>m_threads := (m_threads m)(i := Sleep_Pop)\<rparr>)"
| pop_closed: "m_threads m i \<in> {Running, Woken_Pop} \<Longrightarrow> bq_pop (m_queue m) = Pop_Closed \<Longrightarrow>
     mon_step m (m\<lparr>m_threads := (m_threads m)(i := Running)\<rparr>)"
| pop_item: "m_threads m i \<in> {Running, Woken_Pop} \<Longrightarrow> bq_pop (m_queue m) = Popped t b \<Longrightarrow>
     signals (push_sleepers (m_threads m)) W \<Longrightarrow>
     mon_step m (m\<lparr>m_queue := b, m_threads := wake_set W ((m_threads m)(i := Running))\<rparr>)"
| push_wait: "m_threads m i \<in> {Running, Woken_Push t} \<Longrightarrow> bq_push t (m_queue m) = Push_Wait \<Longrightarrow>
     mon_step m (m\<lparr>m_threads := (m_threads m)(i := Sleep_Push t)\<rparr>)"
| push_refused: "m_threads m i \<in> {Running, Woken_Push t} \<Longrightarrow> bq_push t (m_queue m) = Push_Refused \<Longrightarrow>
     mon_step m (m\<lparr>m_threads := (m_threads m)(i := Running)\<rparr>)"
| push_item: "m_threads m i \<in> {Running, Woken_Push t} \<Longrightarrow> bq_push t (m_queue m) = Pushed b \<Longrightarrow>
     signals (pop_sleepers (m_threads m)) W \<Longrightarrow>
     mon_step m (m\<lparr>m_queue := b, m_threads := wake_set W ((m_threads m)(i := Running))\<rparr>)"
| shutdown: "m_threads m i = Running \<Longrightarrow>
     mon_step m (m\<lparr>m_queue := bq_shutdown (m_queue m), m_threads := wake_set UNIV (m_threads m)\<rparr>)"
| spurious: "mon_step m (m\<lparr>m_threads := wake_set {i} (m_threads m)\<rparr>)"

definition mon_init :: "int \<Rightarrow> monitor" where
  "mon_init n = \<lparr>m_queue = \<lparr>b_items = [], b_max = n, b_shutdown = False\<rparr>, m_threads = (\<lambda>_. Running)\<rparr>"

inductive mon_reachable :: "int \<Rightarrow> monitor \<Rightarrow> bool" for n where
  init: "mon_reachable n (mon_init n)"
| step: "mon_reachable n m \<Longrightarrow> mon_step m m' \<Longrightarrow> mon_reachable n m'"

section \<open>The invariant\<close>

text \<open>
  As long as a consumer sleeps there are at least as many woken consumers on their way as
  there are tasks to take; symmetrically, as long as a producer sleeps there are as many woken
  producers as free places. Nobody sleeps once the queue is shut down.
\<close>

definition mon_inv :: "int \<Rightarrow> monitor \<Rightarrow> bool" where
  "mon_inv n m \<longleftrightarrow>
     b_max (m_queue m) = n \<and> int (length (b_items (m_queue m))) \<le> max 0 n \<and>
     finite {i. m_threads m i \<noteq> Running} \<and>
     (pop_sleepers (m_threads m) \<noteq> {} \<longrightarrow>
        \<not> b_shutdown (m_queue m) \<and> length (b_items (m_queue m)) \<le> card (pop_woken (m_threads m))) \<and>
     (push_sleepers (m_threads m) \<noteq> {} \<longrightarrow>
        \<not> b_shutdown (m_queue m) \<and>
        n - int (length (b_items (m_queue m))) \<le> int (card (push_woken (m_threads m))))"

section \<open>Bookkeeping of the thread sets\<close>

lemmas mon_sets = pop_sleepers_def push_sleepers_def pop_woken_def push_woken_def

lemma wake_neq_Running: "wake ts \<noteq> Running \<longleftrightarrow> ts \<noteq> Running"
  by (cases ts) auto

lemma wake_eq_iff [simp]:
  "wake ts \<noteq> Sleep_Pop" "wake ts \<noteq> Sleep_Push t"
  "wake ts = Woken_Pop \<longleftrightarrow> ts = Sleep_Pop \<or> ts = Woken_Pop"
  "wake ts = Woken_Push t \<longleftrightarrow> ts = Sleep_Push t \<or> ts = Woken_Push t"
  by (cases ts; auto)+

lemma wake_set_sets:
  "pop_sleepers (wake_set W ths) = pop_sleepers ths - W"
  "push_sleepers (wake_set W ths) = push_sleepers ths - W"
  "pop_woken (wake_set W ths) = pop_woken ths \<union> (pop_sleepers ths \<inter> W)"
  "push_woken (wake_set W ths) = push_woken ths \<union> (push_sleepers ths \<inter> W)"
  by (auto simp: mon_sets wake_set_def)

lemma finite_wake: "finite {i. ths i \<noteq> Running} \<Longrightarrow> finite {i. wake_set W ths i \<noteq> Running}"
  by (rule finite_subset [rotated]) (auto simp: wake_set_def wake_neq_Running split: if_splits)

lemma finite_upd: "finite {i. ths i \<noteq> Running} \<Longrightarrow> finite {i. (ths(j := v)) i \<noteq> Running}"
  by (rule finite_subset [of _ "insert j {i. ths i \<noteq> Running}"]) auto

lemma upd_sets:
  "pop_sleepers (ths(i := v)) = (if v = Sleep_Pop then insert i (pop_sleepers ths) else pop_sleepers ths - {i})"
  "push_sleepers (ths(i := v)) = (if \<exists>t. v = Sleep_Push t then insert i (push_sleepers ths) else push_sleepers ths - {i})"
  "pop_woken (ths(i := v)) = (if v = Woken_Pop then insert i (pop_woken ths) else pop_woken ths - {i})"
  "push_woken (ths(i := v)) = (if \<exists>t. v = Woken_Push t then insert i (push_woken ths) else push_woken ths - {i})"
  by (auto simp: mon_sets)

lemma woken_finite:
  "finite {i. ths i \<noteq> Running} \<Longrightarrow> finite (pop_woken ths)"
  "finite {i. ths i \<noteq> Running} \<Longrightarrow> finite (push_woken ths)"
  by (auto elim!: rev_finite_subset simp: mon_sets)

text \<open>Waking a non-empty set of sleepers makes up for one more item or one more free place.\<close>

lemma card_signal:
  assumes "finite A" and "A \<inter> S = {}" and "signals S W" and "S - W \<noteq> {}" and "finite W"
  shows "Suc (card A) \<le> card (A \<union> (S \<inter> W))"
proof -
  from assms have W: "W \<subseteq> S" "W \<noteq> {}" "S \<inter> W = W" by (auto simp: signals_def)
  then have "card (A \<union> W) = card A + card W" using assms by (intro card_Un_disjoint) auto
  moreover have "0 < card W" using W assms by (simp add: card_gt_0_iff)
  ultimately show ?thesis using W by simp
qed

section \<open>Every step keeps the invariant\<close>


lemma card_drop: "finite A \<Longrightarrow> card A \<le> Suc (card (A - {i}))"
  by (cases "i \<in> A") (auto simp: card_Suc_Diff1 intro: eq_imp_le)

lemma woken_asleep_disjoint:
  "pop_woken ths \<inter> pop_sleepers ths = {}" "push_woken ths \<inter> push_sleepers ths = {}"
  by (auto simp: mon_sets)

lemma signals_disjoint:
  "signals (push_sleepers ths) W \<Longrightarrow> pop_sleepers ths \<inter> W = {}"
  "signals (pop_sleepers ths) W \<Longrightarrow> push_sleepers ths \<inter> W = {}"
  by (auto simp: signals_def mon_sets)

lemma signals_finite:
  "finite {i. ths i \<noteq> Running} \<Longrightarrow> signals (push_sleepers ths) W \<Longrightarrow> finite W"
  "finite {i. ths i \<noteq> Running} \<Longrightarrow> signals (pop_sleepers ths) W \<Longrightarrow> finite W"
  by (auto elim!: rev_finite_subset simp: signals_def mon_sets)

lemma change_inv:
  assumes "b_max b = n" and "int (length (b_items b)) \<le> max 0 n" and "finite {i. ths' i \<noteq> Running}"
    and "pop_sleepers ths' \<noteq> {} \<Longrightarrow> \<not> b_shutdown b \<and> length (b_items b) \<le> card (pop_woken ths')"
    and "push_sleepers ths' \<noteq> {} \<Longrightarrow> \<not> b_shutdown b \<and> n - int (length (b_items b)) \<le> int (card (push_woken ths'))"
  shows "mon_inv n (m\<lparr>m_queue := b, m_threads := ths'\<rparr>)"
  using assms by (simp add: mon_inv_def)

lemma mon_invD:
  assumes "mon_inv n m"
  shows "b_max (m_queue m) = n" "int (length (b_items (m_queue m))) \<le> max 0 n"
    "finite {i. m_threads m i \<noteq> Running}"
    "pop_sleepers (m_threads m) \<noteq> {} \<Longrightarrow> \<not> b_shutdown (m_queue m)"
    "pop_sleepers (m_threads m) \<noteq> {} \<Longrightarrow> length (b_items (m_queue m)) \<le> card (pop_woken (m_threads m))"
    "push_sleepers (m_threads m) \<noteq> {} \<Longrightarrow> \<not> b_shutdown (m_queue m)"
    "push_sleepers (m_threads m) \<noteq> {} \<Longrightarrow>
       n - int (length (b_items (m_queue m))) \<le> int (card (push_woken (m_threads m)))"
  using assms by (simp_all add: mon_inv_def)

lemma pop_item_inv:
  assumes inv: "mon_inv n m" and th: "m_threads m i \<in> {Running, Woken_Pop}"
    and pop: "bq_pop (m_queue m) = Popped t b" and W: "signals (push_sleepers (m_threads m)) W"
  shows "mon_inv n (m\<lparr>m_queue := b, m_threads := wake_set W ((m_threads m)(i := Running))\<rparr>)"
proof -
  let ?ths = "m_threads m" and ?ths' = "wake_set W ((m_threads m)(i := Running))"
  from pop obtain ts where b: "b_items (m_queue m) = t # ts" "b = (m_queue m)\<lparr>b_items := ts\<rparr>"
    by (auto simp: bq_pop_def split: list.splits if_splits)
  from inv have fin: "finite {i. ?ths i \<noteq> Running}" by (simp add: mon_inv_def)
  have sets: "pop_sleepers ?ths' = pop_sleepers ?ths" "pop_woken ?ths' = pop_woken ?ths - {i}"
    "push_sleepers ?ths' = push_sleepers ?ths - W" "push_woken ?ths' = push_woken ?ths \<union> (push_sleepers ?ths \<inter> W)"
    using th signals_disjoint(1)[OF W] by (auto simp: wake_set_sets upd_sets) (auto simp: mon_sets)
  have more: "Suc (card (push_woken ?ths)) \<le> card (push_woken ?ths')" if "push_sleepers ?ths' \<noteq> {}"
    using card_signal [OF woken_finite(2)[OF fin] woken_asleep_disjoint(2) W] that signals_finite(1)[OF fin W] sets by simp
  have less: "card (pop_woken ?ths) \<le> Suc (card (pop_woken ?ths'))"
    using card_drop[OF woken_finite(1)[OF fin]] sets by simp
  show ?thesis
  proof (rule change_inv)
    show "b_max b = n" "int (length (b_items b)) \<le> max 0 n" using mon_invD(1,2) [OF inv] b by simp_all
    show "finite {i. ?ths' i \<noteq> Running}" by (rule finite_wake [OF finite_upd [OF fin]])
    show "\<not> b_shutdown b \<and> length (b_items b) \<le> card (pop_woken ?ths')" if "pop_sleepers ?ths' \<noteq> {}"
      using that less mon_invD(4,5) [OF inv] b sets(1) by simp
    show "\<not> b_shutdown b \<and> n - int (length (b_items b)) \<le> int (card (push_woken ?ths'))" if "push_sleepers ?ths' \<noteq> {}"
    proof -
      have "push_sleepers ?ths \<noteq> {}" using that sets(3) by blast
      with more [OF that] mon_invD(6,7) [OF inv] b show ?thesis by simp
    qed
  qed
qed

lemma push_item_inv:
  assumes inv: "mon_inv n m" and th: "m_threads m i \<in> {Running, Woken_Push t}"
    and push: "bq_push t (m_queue m) = Pushed b" and W: "signals (pop_sleepers (m_threads m)) W"
  shows "mon_inv n (m\<lparr>m_queue := b, m_threads := wake_set W ((m_threads m)(i := Running))\<rparr>)"
proof -
  let ?ths = "m_threads m" and ?ths' = "wake_set W ((m_threads m)(i := Running))"
  from push have b: "b = (m_queue m)\<lparr>b_items := b_items (m_queue m) @ [t]\<rparr>"
    "int (length (b_items (m_queue m))) < b_max (m_queue m)"
    by (auto simp: bq_push_def split: if_splits)
  from inv have fin: "finite {i. ?ths i \<noteq> Running}" by (simp add: mon_inv_def)
  have sets: "push_sleepers ?ths' = push_sleepers ?ths" "push_woken ?ths' = push_woken ?ths - {i}"
    "pop_sleepers ?ths' = pop_sleepers ?ths - W" "pop_woken ?ths' = pop_woken ?ths \<union> (pop_sleepers ?ths \<inter> W)"
    using th signals_disjoint(2)[OF W] by (auto simp: wake_set_sets upd_sets) (auto simp: mon_sets)
  have more: "Suc (card (pop_woken ?ths)) \<le> card (pop_woken ?ths')" if "pop_sleepers ?ths' \<noteq> {}"
    using card_signal [OF woken_finite(1)[OF fin] woken_asleep_disjoint(1) W] that signals_finite(2)[OF fin W] sets by simp
  have less: "card (push_woken ?ths) \<le> Suc (card (push_woken ?ths'))"
    using card_drop[OF woken_finite(2)[OF fin]] sets by simp
  show ?thesis
  proof (rule change_inv)
    show "b_max b = n" "int (length (b_items b)) \<le> max 0 n" using mon_invD(1,2) [OF inv] b by simp_all
    show "finite {i. ?ths' i \<noteq> Running}" by (rule finite_wake [OF finite_upd [OF fin]])
    show "\<not> b_shutdown b \<and> length (b_items b) \<le> card (pop_woken ?ths')" if "pop_sleepers ?ths' \<noteq> {}"
    proof -
      have "pop_sleepers ?ths \<noteq> {}" using that sets(3) by blast
      with more [OF that] mon_invD(4,5) [OF inv] b show ?thesis by simp
    qed
    show "\<not> b_shutdown b \<and> n - int (length (b_items b)) \<le> int (card (push_woken ?ths'))" if "push_sleepers ?ths' \<noteq> {}"
      using that less mon_invD(6,7) [OF inv] b sets(1) by simp
  qed
qed

lemma quiet_inv:
  assumes inv: "mon_inv n m" and fin: "finite {i. ths' i \<noteq> Running}"
    and "pop_sleepers ths' \<noteq> {} \<Longrightarrow> \<not> b_shutdown (m_queue m) \<and> length (b_items (m_queue m)) \<le> card (pop_woken ths')"
    and "push_sleepers ths' \<noteq> {} \<Longrightarrow> \<not> b_shutdown (m_queue m) \<and>
        n - int (length (b_items (m_queue m))) \<le> int (card (push_woken ths'))"
  shows "mon_inv n (m\<lparr>m_threads := ths'\<rparr>)"
  using assms by (simp add: mon_inv_def)

lemma mon_step_inv: "mon_step m m' \<Longrightarrow> mon_inv n m \<Longrightarrow> mon_inv n m'"
proof (induction rule: mon_step.induct)
  case (pop_wait m i)
  then have e: "b_items (m_queue m) = []" "\<not> b_shutdown (m_queue m)" by (auto simp: bq_pop_def split: list.splits if_splits)
  with pop_wait show ?case
    by (intro quiet_inv finite_upd) (auto simp: mon_inv_def upd_sets, auto simp: mon_sets)
next
  case (pop_closed m i)
  then have "b_items (m_queue m) = []" "b_shutdown (m_queue m)" by (auto simp: bq_pop_def split: list.splits if_splits)
  with pop_closed show ?case
    by (intro quiet_inv finite_upd) (auto simp: mon_inv_def upd_sets)
next
  case (pop_item m i t b W)
  then show ?case by (intro pop_item_inv)
next
  case (push_wait m i t)
  then have e: "b_max (m_queue m) \<le> int (length (b_items (m_queue m)))" "\<not> b_shutdown (m_queue m)"
    by (auto simp: bq_push_def split: if_splits)
  with push_wait show ?case
    by (intro quiet_inv finite_upd) (auto simp: mon_inv_def upd_sets, auto simp: mon_sets)
next
  case (push_refused m i t)
  then have "b_shutdown (m_queue m)" by (auto simp: bq_push_def split: if_splits)
  with push_refused show ?case
    by (intro quiet_inv finite_upd) (auto simp: mon_inv_def upd_sets)
next
  case (push_item m i t b W)
  then show ?case by (intro push_item_inv)
next
  case (shutdown m i)
  then show ?case by (auto simp: mon_inv_def wake_set_sets bq_shutdown_def intro: finite_wake)
next
  case (spurious m i)
  then have fin: "finite {i. m_threads m i \<noteq> Running}" by (simp add: mon_inv_def)
  note mono = card_mono [OF woken_finite(1)[OF finite_wake[OF fin, of "{i}"]], of "pop_woken (m_threads m)"]
    card_mono [OF woken_finite(2)[OF finite_wake[OF fin, of "{i}"]], of "push_woken (m_threads m)"]
  from spurious fin mono show ?case
    by (intro quiet_inv finite_wake) (auto simp: mon_inv_def wake_set_sets)
qed

lemma mon_inv_init: "mon_inv n (mon_init n)"
  by (simp add: mon_inv_def mon_init_def mon_sets)

lemma mon_reachable_inv: "mon_reachable n m \<Longrightarrow> mon_inv n m"
  by (induction rule: mon_reachable.induct) (auto intro: mon_inv_init mon_step_inv)

section \<open>Correctness of the monitor\<close>

text \<open>A run of three threads: two consumers go to sleep, then a producer pushes task 7 and wakes one.\<close>

definition demo_monitor :: monitor where
  "demo_monitor =
     \<lparr>m_queue = \<lparr>b_items = [7], b_max = 4, b_shutdown = False\<rparr>,
      m_threads = (\<lambda>_. Running)(0 := Sleep_Pop, 1 := Woken_Pop)\<rparr>"

lemma demo_monitor_reachable: "mon_reachable 4 demo_monitor"
proof -
  let ?q = "\<lparr>b_items = [], b_max = 4, b_shutdown = False\<rparr>"
  let ?m1 = "\<lparr>m_queue = ?q, m_threads = (\<lambda>_. Running)(0 := Sleep_Pop)\<rparr>"
  let ?m2 = "\<lparr>m_queue = ?q, m_threads = (\<lambda>_. Running)(0 := Sleep_Pop, 1 := Sleep_Pop)\<rparr>"
  have "mon_step (mon_init 4) ?m1"
    using mon_step.pop_wait [of "mon_init 4" 0] by (simp add: mon_init_def bq_pop_def)
  moreover have "mon_step ?m1 ?m2"
    using mon_step.pop_wait [of ?m1 1] by (simp add: bq_pop_def)
  moreover have "mon_step ?m2 demo_monitor"
  proof -
    have eq: "demo_monitor = ?m2\<lparr>m_queue := \<lparr>b_items = [7], b_max = 4, b_shutdown = False\<rparr>,
        m_threads := wake_set {1} ((m_threads ?m2)(2 := Running))\<rparr>"
      by (auto simp: demo_monitor_def wake_set_def fun_eq_iff)
    show ?thesis unfolding eq
      by (rule mon_step.push_item [of _ _ 7]) (auto simp: bq_push_def signals_def pop_sleepers_def)
  qed
  ultimately show ?thesis by (blast intro: mon_reachable.intros)
qed

text \<open>
  C7. No wake-up is lost: in every reachable state of the concurrent queue, if a consumer sleeps while a task
  is queued then some woken consumer can take a task in its next step, and if a producer sleeps while
  there is room then some woken producer can insert its task in its next step.
\<close>

theorem monitor_no_lost_wakeup:
  assumes "mon_reachable n m"
  shows "(pop_sleepers (m_threads m) \<noteq> {} \<and> b_items (m_queue m) \<noteq> [] \<longrightarrow>
            (\<exists>i m' t. m_threads m i = Woken_Pop \<and> mon_step m m' \<and> m_threads m' i = Running \<and>
                     b_items (m_queue m) = t # b_items (m_queue m'))) \<and>
         (push_sleepers (m_threads m) \<noteq> {} \<and> int (length (b_items (m_queue m))) < n \<longrightarrow>
            (\<exists>i m' t. m_threads m i = Woken_Push t \<and> mon_step m m' \<and> m_threads m' i = Running \<and>
                     b_items (m_queue m') = b_items (m_queue m) @ [t]))"
proof (intro conjI impI; elim conjE)
  note inv = mon_invD [OF mon_reachable_inv [OF assms]]
  assume S: "pop_sleepers (m_threads m) \<noteq> {}" and q: "b_items (m_queue m) \<noteq> []"
  with inv(5) have "pop_woken (m_threads m) \<noteq> {}" by auto
  then obtain i where i: "m_threads m i = Woken_Pop" by (auto simp: mon_sets)
  from q obtain t ts where t: "b_items (m_queue m) = t # ts" by (cases "b_items (m_queue m)") auto
  let ?m' = "m\<lparr>m_queue := (m_queue m)\<lparr>b_items := ts\<rparr>,
      m_threads := wake_set (push_sleepers (m_threads m)) ((m_threads m)(i := Running))\<rparr>"
  have "mon_step m ?m'" using i t by (intro mon_step.pop_item) (auto simp: bq_pop_def signals_def)
  moreover have "m_threads ?m' i = Running" by (simp add: wake_set_def)
  ultimately show "\<exists>i m' t. m_threads m i = Woken_Pop \<and> mon_step m m' \<and> m_threads m' i = Running \<and>
          b_items (m_queue m) = t # b_items (m_queue m')"
    using i t by (intro exI [of _ i] exI [of _ ?m'] exI [of _ t]) simp
next
  note inv = mon_invD [OF mon_reachable_inv [OF assms]]
  assume S: "push_sleepers (m_threads m) \<noteq> {}" and q: "int (length (b_items (m_queue m))) < n"
  with inv(6,7) have "push_woken (m_threads m) \<noteq> {}" "\<not> b_shutdown (m_queue m)" by auto
  then obtain i t where i: "m_threads m i = Woken_Push t" by (auto simp: mon_sets)
  let ?m' = "m\<lparr>m_queue := (m_queue m)\<lparr>b_items := b_items (m_queue m) @ [t]\<rparr>,
      m_threads := wake_set (pop_sleepers (m_threads m)) ((m_threads m)(i := Running))\<rparr>"
  have "mon_step m ?m'" using i q inv(1) \<open>\<not> b_shutdown (m_queue m)\<close>
    by (intro mon_step.push_item [of _ _ t]) (auto simp: bq_push_def signals_def)
  moreover have "m_threads ?m' i = Running" by (simp add: wake_set_def)
  ultimately show "\<exists>i m' t. m_threads m i = Woken_Push t \<and> mon_step m m' \<and> m_threads m' i = Running \<and>
          b_items (m_queue m') = b_items (m_queue m) @ [t]"
    using i by (intro exI [of _ i] exI [of _ ?m'] exI [of _ t]) simp
qed

theorem monitor_no_lost_wakeup_witness:
  "\<exists>i m' t. m_threads demo_monitor i = Woken_Pop \<and> mon_step demo_monitor m' \<and> m_threads m' i = Running \<and>
      b_items (m_queue demo_monitor) = t # b_items (m_queue m')"
proof -
  have "pop_sleepers (m_threads demo_monitor) \<noteq> {} \<and> b_items (m_queue demo_monitor) \<noteq> []"
    by (auto simp: demo_monitor_def pop_sleepers_def intro!: exI [of _ 0])
  then show ?thesis using monitor_no_lost_wakeup [OF demo_monitor_reachable] by blast
qed

text \<open>
  C8. The capacity is never exceeded and shutdown releases everybody: in every reachable state of a
  queue created with capacity \<open>n\<close> it holds at most \<open>n\<close> tasks, and once it is shut down no thread
  sleeps and each thread still inside an operation can return in its next step.
\<close>

theorem monitor_bounded_and_released:
  assumes "mon_reachable n m" and "0 \<le> n"
  shows "int (length (b_items (m_queue m))) \<le> n \<and>
         (b_shutdown (m_queue m) \<longrightarrow>
            pop_sleepers (m_threads m) = {} \<and> push_sleepers (m_threads m) = {} \<and>
            (\<forall>i. m_threads m i \<noteq> Running \<longrightarrow> (\<exists>m'. mon_step m m' \<and> m_threads m' i = Running)))"
proof (intro conjI impI allI)
  note inv = mon_invD [OF mon_reachable_inv [OF assms(1)]]
  show "int (length (b_items (m_queue m))) \<le> n" using inv(2) assms(2) by simp
  assume sd: "b_shutdown (m_queue m)"
  with inv(4,6) show none: "pop_sleepers (m_threads m) = {}" "push_sleepers (m_threads m) = {}" by auto
  fix i assume "m_threads m i \<noteq> Running"
  with none consider "m_threads m i = Woken_Pop" | t where "m_threads m i = Woken_Push t"
    by (cases "m_threads m i") (auto simp: mon_sets)
  then show "\<exists>m'. mon_step m m' \<and> m_threads m' i = Running"
  proof cases
    case 1
    show ?thesis
    proof (cases "b_items (m_queue m)")
      case Nil
      with 1 sd have "mon_step m (m\<lparr>m_threads := (m_threads m)(i := Running)\<rparr>)"
        by (intro mon_step.pop_closed) (auto simp: bq_pop_def)
      then show ?thesis by - (intro exI conjI, assumption, simp add: wake_set_def)  
    next
      case (Cons t ts)
      with 1 none have "mon_step m (m\<lparr>m_queue := (m_queue m)\<lparr>b_items := ts\<rparr>,
          m_threads := wake_set {} ((m_threads m)(i := Running))\<rparr>)"
        by (intro mon_step.pop_item) (auto simp: bq_pop_def signals_def)
      then show ?thesis by - (intro exI conjI, assumption, simp add: wake_set_def)  
    qed
  next
    case (2 t)
    with sd have "mon_step m (m\<lparr>m_threads := (m_threads m)(i := Running)\<rparr>)"
      by (intro mon_step.push_refused [of _ _ t]) (auto simp: bq_push_def)
    then show ?thesis by - (intro exI conjI, assumption, simp add: wake_set_def)  
  qed
qed

theorem monitor_bounded_and_released_witness:
  "length (b_items (m_queue demo_monitor)) = 1 \<and> int (length (b_items (m_queue demo_monitor))) \<le> 4"
  using monitor_bounded_and_released [OF demo_monitor_reachable] by (simp add: demo_monitor_def)

end
