(* ===== verification/Http_Response.thy ===== *)
theory Http_Response
  imports Connection
begin

text \<open>
  The text that \<open>process_request\<close> of \<open>advanced-reactor-server/thread_pool.c\<close> sends back: the two
  \<open>snprintf\<close> calls, with the part of \<open>printf\<close> they use (\<open>%d\<close>, \<open>%s\<close>, \<open>%.*s\<close>).
\<close>

section \<open>Formatting\<close>

definition digit :: "nat \<Rightarrow> char" where
  "digit d = char_of (48 + d)"

text \<open>\<open>%d\<close> of a non-negative number.\<close>

fun dec :: "nat \<Rightarrow> string" where
  "dec n = (if n < 10 then [digit n] else dec (n div 10) @ [digit (n mod 10)])"

declare dec.simps [simp del]

definition CRLF :: string where
  "CRLF = [CHR 0x0D, CHR 0x0A]"

text \<open>
  \<open>snprintf(buf, size, ...)\<close> with the full output \<open>out\<close>: the characters stored before the terminating
  NUL, and the return value, which is the length the output would have had.
\<close>

definition snprintf :: "nat \<Rightarrow> string \<Rightarrow> string \<times> int" where
  "snprintf sz out = (take (sz - 1) out, int (length out))"

text \<open>\<open>%.*s\<close>: at most \<open>n\<close> characters, up to a NUL; a negative precision is no precision.\<close>

definition prec_str :: "int \<Rightarrow> string \<Rightarrow> string" where
  "prec_str n s = takeWhile (\<lambda>c. c \<noteq> CHR 0x00) (if n < 0 then s else take (nat n) s)"

definition http_header :: "int \<Rightarrow> string" where
  "http_header content_length =
     ''HTTP/1.1 200 OK'' @ CRLF @ ''Content-Type: text/plain'' @ CRLF @
     ''Content-Length: '' @ dec (nat content_length) @ CRLF @ ''Connection: keep-alive'' @ CRLF @ CRLF"

definition BODY_SIZE :: nat where
  "BODY_SIZE = 1024"

text \<open>The contents of \<open>response\<close> and the value of \<open>response_len\<close> for a request of \<open>data_len\<close> bytes.\<close>

definition build_response :: "string \<Rightarrow> int \<Rightarrow> string \<times> int" where
  "build_response data data_len =
     (let (body, body_len) = snprintf BODY_SIZE (''Echo: '' @ prec_str data_len data)
      in snprintf BUFFER_SIZE (http_header body_len @ body))"

section \<open>Lengths\<close>

lemma length_dec: "n < 10 ^ Suc k \<Longrightarrow> length (dec n) \<le> Suc k"
proof (induction k arbitrary: n)
  case 0
  then show ?case by (simp add: dec.simps)
next
  case (Suc k)
  then have "n div 10 < 10 ^ Suc k" by (simp add: less_mult_imp_div_less mult.commute)
  with Suc.IH have "length (dec (n div 10)) \<le> Suc k" by blast
  then show ?case by (subst dec.simps) simp
qed

lemma dec_nonempty [simp]: "dec n \<noteq> []"
  by (subst dec.simps) simp

lemma length_prec_str: "0 \<le> n \<Longrightarrow> length (prec_str n s) \<le> nat n"
  using length_takeWhile_le [of "\<lambda>c. c \<noteq> CHR 0x00" "take (nat n) s"] by (simp add: prec_str_def)

lemma length_prec_str_buffer: "0 \<le> n \<Longrightarrow> n \<le> int BUFFER_SIZE \<Longrightarrow> length (prec_str n s) \<le> 4096"
  using length_prec_str [of n s] by (simp add: BUFFER_SIZE_def)

lemma length_http_header: "length (http_header n) = 87 + length (dec (nat n))"
  by (simp add: http_header_def CRLF_def)

text \<open>The response to a request of at most \<open>BUFFER_SIZE\<close> bytes is far from filling the write buffer.\<close>

lemma response_fits:
  assumes "length d \<le> 4096"
  shows "length (http_header (6 + int (length d)) @ take 1023 (''Echo: '' @ d)) \<le> 1114"
proof -
  have "length (dec (6 + length d)) \<le> 4"
    using length_dec [of "6 + length d" 3] assms by simp
  then show ?thesis by (simp add: length_http_header nat_add_distrib)
qed

lemma build_response_exec:
  assumes "0 \<le> n" and "n \<le> int BUFFER_SIZE"
  shows "build_response data n =
     (let d = prec_str n data; out = http_header (6 + int (length d)) @ take 1023 (''Echo: '' @ d)
      in (out, int (length out)))"
proof -
  have "length (prec_str n data) \<le> 4096" by (rule length_prec_str_buffer [OF assms])
  then have *: "length (http_header (6 + int (length (prec_str n data))) @ take 1023 (''Echo: '' @ prec_str n data)) \<le> 4095"
    by (intro order.trans [OF response_fits]) simp_all
  show ?thesis using *
    by (simp add: build_response_def snprintf_def BODY_SIZE_def BUFFER_SIZE_def Let_def)
qed

section \<open>What a client reads\<close>

text \<open>
  A client's reading of a response: the header lines the server always sends, the decimal after
  \<open>Content-Length:\<close>, and the bytes after the empty line.
\<close>

fun strip :: "string \<Rightarrow> string \<Rightarrow> string option" where
  "strip [] s = Some s"
| "strip (p # ps) [] = None"
| "strip (p # ps) (c # cs) = (if p = c then strip ps cs else None)"

definition is_digit :: "char \<Rightarrow> bool" where
  "is_digit c \<longleftrightarrow> 48 \<le> (of_char c :: nat) \<and> (of_char c :: nat) \<le> 57"

definition undec :: "string \<Rightarrow> nat" where
  "undec ds = foldl (\<lambda>n c. 10 * n + (of_char c - 48)) 0 ds"

definition read_response :: "string \<Rightarrow> (nat \<times> string) option" where
  "read_response r =
     (case strip (''HTTP/1.1 200 OK'' @ CRLF @ ''Content-Type: text/plain'' @ CRLF @ ''Content-Length: '') r of
        None \<Rightarrow> None
      | Some r1 \<Rightarrow>
          (case strip (CRLF @ ''Connection: keep-alive'' @ CRLF @ CRLF) (dropWhile is_digit r1) of
             None \<Rightarrow> None
           | Some body \<Rightarrow> Some (undec (takeWhile is_digit r1), body)))"

lemma strip_append [simp]: "strip p (p @ s) = Some s"
  by (induction p) auto

lemma of_char_digit: "d < 10 \<Longrightarrow> (of_char (digit d) :: nat) = 48 + d"
  by (simp add: digit_def of_char_of)

lemma is_digit_dec: "c \<in> set (dec n) \<Longrightarrow> is_digit c"
proof (induction n rule: dec.induct)
  case (1 n)
  then show ?case by (subst (asm) dec.simps) (auto simp: is_digit_def of_char_digit split: if_splits)
qed

lemma undec_dec [simp]: "undec (dec n) = n"
proof (induction n rule: dec.induct)
  case (1 n)
  then show ?case by (subst dec.simps) (auto simp: undec_def of_char_digit)
qed

lemma read_response_header: "read_response (http_header n @ body) = Some (nat n, body)"
proof -
  let ?a = "''HTTP/1.1 200 OK'' @ CRLF @ ''Content-Type: text/plain'' @ CRLF @ ''Content-Length: ''"
  let ?b = "CRLF @ ''Connection: keep-alive'' @ CRLF @ CRLF"
  have split: "http_header n @ body = ?a @ (dec (nat n) @ (?b @ body))"
    by (simp only: http_header_def append_assoc)
  have hd: "\<not> is_digit (CHR 0x0D)" by (simp add: is_digit_def)
  have tail: "dropWhile is_digit (?b @ body) = ?b @ body" "takeWhile is_digit (?b @ body) = []"
    using hd by (simp_all add: CRLF_def)
  have "dropWhile is_digit (dec (nat n) @ (?b @ body)) = ?b @ body"
    "takeWhile is_digit (dec (nat n) @ (?b @ body)) = dec (nat n)"
    using tail is_digit_dec by (simp_all add: dropWhile_append2 takeWhile_append2)
  then show ?thesis
    by (simp only: read_response_def split strip_append option.case undec_dec)
qed

text \<open>
  C14. The response to a request of at most \<open>BUFFER_SIZE\<close> bytes is built without truncation by the second
  \<open>snprintf\<close> and passes the length check of \<open>process_request\<close>, and a client reads from it the echo of
  the request up to its first NUL, cut to 1023 bytes, under a \<open>Content-Length\<close> that counts the echo
  before the cut: the declared length is the length of the body exactly when the echoed part has at
  most 1017 bytes.
\<close>

theorem response_readable:
  assumes "0 \<le> n" and "n \<le> int BUFFER_SIZE"
  shows "\<exists>r len body. build_response data n = (r, len) \<and> len = int (length r) \<and> 0 < len \<and> len < int BUFFER_SIZE \<and>
           read_response r = Some (6 + length (prec_str n data), body) \<and>
           body = take 1023 (''Echo: '' @ prec_str n data) \<and>
           (length body = 6 + length (prec_str n data) \<longleftrightarrow> length (prec_str n data) \<le> 1017)"
proof -
  let ?d = "prec_str n data"
  let ?r = "http_header (6 + int (length ?d)) @ take 1023 (''Echo: '' @ ?d)"
  have "length ?d \<le> 4096" by (rule length_prec_str_buffer [OF assms])
  then have "length ?r \<le> 1114" by (rule response_fits)
  then have len: "int (length ?r) < int BUFFER_SIZE" by (simp only: BUFFER_SIZE_def)
  have pos: "0 < int (length ?r)" by (simp add: length_http_header)
  have read: "read_response ?r = Some (6 + length ?d, take 1023 (''Echo: '' @ ?d))"
    by (simp add: read_response_header nat_add_distrib)
  have "build_response data n = (?r, int (length ?r))"
    using build_response_exec [OF assms] by (simp only: Let_def)
  then show ?thesis using len pos read
    by (intro exI [of _ ?r] exI [of _ "int (length ?r)"] exI [of _ "take 1023 (''Echo: '' @ ?d)"]) auto
qed

theorem response_readable_witness:
  "\<exists>r len. build_response ''hi'' 2 = (r, len) \<and> read_response r = Some (8, ''Echo: hi'')"
proof -
  have "prec_str 2 ''hi'' = ''hi''" by (simp add: prec_str_def)
  then show ?thesis using response_readable [of 2 "''hi''"] by (auto simp: BUFFER_SIZE_def)
qed

end
