(* ===== verification/Ownership.thy ===== *)
theory Ownership
  imports Task_Queue
begin

text \<open>
  Who holds references to a connection. Every allocated task holds one reference to its connection, whether
  it is queued, being processed or forgotten; the other holders (the registration with an event loop,
  queued messages) are counted by a function \<open>ext\<close>. The invariant \<open>task_owned\<close> says that the
  reference counts are exactly these numbers; the operations on tasks keep it.
\<close>

definition refs_by :: "('o \<Rightarrow> ptr) \<Rightarrow> (addr \<Rightarrow> 'o option) \<Rightarrow> addr \<Rightarrow> nat" where
  "refs_by f T a = card {t. map_option f (T t) = Some (Some a)}"

abbreviation task_refs :: "(addr \<Rightarrow> task option) \<Rightarrow> addr \<Rightarrow> nat" where
  "task_refs \<equiv> refs_by t_conn"

text \<open>The heaps are finite and what \<open>malloc\<close> hands out next is not in use.\<close>

definition heap_fresh :: "'a task_store_scheme \<Rightarrow> bool" where
  "heap_fresh s \<longleftrightarrow> finite (dom (tasks s)) \<and>
     (\<forall>a \<ge> next_addr s. conns s a = None \<and> tasks s a = None \<and> queues s a = None)"

definition task_owned :: "(addr \<Rightarrow> nat) \<Rightarrow> 'a task_store_scheme \<Rightarrow> bool" where
  "task_owned ext s \<longleftrightarrow> conns_wf s \<and> heap_fresh s \<and>
     conn_count s = counts_to (\<lambda>a. task_refs (tasks s) a + ext a)"

section \<open>Frames\<close>

text \<open>
  What taking and dropping references leaves alone: everything but the table of open descriptors
  and the connections, whose contents survive as long as they do.
\<close>

definition conn_body :: "'a conn_store_scheme \<Rightarrow> addr \<Rightarrow> connection option" where
  "conn_body s a = map_option (\<lambda>c. c\<lparr>c_ref_count := 0\<rparr>) (conns s a)"

definition conn_frame :: "'a conn_store_scheme \<Rightarrow> 'a conn_store_scheme \<Rightarrow> bool" where
  "conn_frame s s' \<longleftrightarrow>
     conn_store.more s' = conn_store.more s \<and> loops s' = loops s \<and> next_addr s' = next_addr s \<and> mem s' = mem s \<and>
     rx s' = rx s \<and> tx s' = tx s \<and> sent s' = sent s \<and> pipe_buf s' = pipe_buf s \<and> pipe_peer s' = pipe_peer s \<and> now s' = now s \<and>
     conn_body s' \<subseteq>\<^sub>m conn_body s"

lemma conn_body_cong: "conns s' = conns s \<Longrightarrow> conn_body s' = conn_body s"
  by (simp add: conn_body_def fun_eq_iff)

lemma conn_body_frame [simp]:
  "conn_body (s\<lparr>errno := e\<rparr>) = conn_body s" "conn_body (s\<lparr>pipe_buf := p\<rparr>) = conn_body s"
  "conn_body (s\<lparr>next_addr := n\<rparr>) = conn_body s" "conn_body (s\<lparr>mem := m\<rparr>) = conn_body s"
  "conn_body (s\<lparr>rx := r\<rparr>) = conn_body s" "conn_body (s\<lparr>tx := r'\<rparr>) = conn_body s" "conn_body (s\<lparr>sent := r''\<rparr>) = conn_body s"
  "conn_body (t\<lparr>tasks := T\<rparr>) = conn_body t" "conn_body (t\<lparr>queues := Q\<rparr>) = conn_body t"
  by (simp_all add: conn_body_def fun_eq_iff)

lemma conn_more_eq:
  "conn_store.more s' = conn_store.more s \<Longrightarrow>
     tasks s' = tasks s \<and> queues s' = queues s \<and> task_store.more s' = task_store.more s"
  by (cases s; cases s') simp

lemma conn_frameD:
  assumes "conn_frame s s'"
  shows "loops s' = loops s" "next_addr s' = next_addr s" "mem s' = mem s" "rx s' = rx s" "tx s' = tx s" "sent s' = sent s"
    "pipe_buf s' = pipe_buf s" "pipe_peer s' = pipe_peer s" "now s' = now s" "conn_body s' \<subseteq>\<^sub>m conn_body s"
  using assms by (simp_all add: conn_frame_def)

lemma conn_frame_tasks:
  assumes "conn_frame s s'"
  shows "tasks s' = tasks s" "queues s' = queues s" "task_store.more s' = task_store.more s"
  using assms conn_more_eq [of s' s] by (simp_all add: conn_frame_def)

lemma conn_frame_refl [simp]: "conn_frame s s"
  by (simp add: conn_frame_def)

lemma conn_frame_trans: "conn_frame s s1 \<Longrightarrow> conn_frame s1 s2 \<Longrightarrow> conn_frame s s2"
  by (auto simp: conn_frame_def elim: map_le_trans)

lemma conn_frame_acquire:
  assumes "conns_wf s" and "conn_acquire (Some a) s = Inr ((), s')"
  shows "conn_frame s s'" "conn_body s' = conn_body s" "fd_open s' = fd_open s"
proof -
  from assms(2) obtain c where c: "conns s a = Some c" by (cases "conns s a") (auto simp: c_exec)
  with assms have "s' = s\<lparr>conns := (conns s)(a \<mapsto> c\<lparr>c_ref_count := c_ref_count c + 1\<rparr>)\<rparr>"
    using conns_wfD [OF assms(1) c] by (auto simp: c_exec)
  moreover from this c have "conn_body s' = conn_body s" by (auto simp: conn_body_def)
  ultimately show "conn_frame s s'" "conn_body s' = conn_body s" "fd_open s' = fd_open s"
    by (simp_all add: conn_frame_def)
qed

lemma maybe_close_more [simp]:
  "conn_store.more (maybe_close fd s) = conn_store.more s" "loops (maybe_close fd s) = loops s"
  by (cases s; simp add: maybe_close_def after_close_def)+

lemma conn_frame_release:
  assumes "conns_wf s" and "conn_release (Some a) s = Inr ((), s')"
  shows "conn_frame s s'" "conns s' a \<noteq> None \<Longrightarrow> conn_body s' = conn_body s" "b \<noteq> a \<Longrightarrow> conns s' b = conns s b"
proof -
  from assms(2) obtain c where c: "conns s a = Some c" by (cases "conns s a") (auto simp: c_exec)
  note wf = conns_wfD [OF assms(1) c]
  have "conn_frame s s' \<and> (conns s' a \<noteq> None \<longrightarrow> conn_body s' = conn_body s) \<and> (b \<noteq> a \<longrightarrow> conns s' b = conns s b)"
  proof (cases "c_ref_count c \<le> 1")
    case True
    with c wf assms(2) have "s' = (maybe_close (c_fd c) s)\<lparr>conns := (conns s)(a := None)\<rparr>"
      by (simp add: conn_release_last)
    then show ?thesis by (auto simp: conn_frame_def conn_body_def map_le_def)
  next
    case False
    with c wf assms(2) have "s' = s\<lparr>conns := (conns s)(a \<mapsto> c\<lparr>c_ref_count := c_ref_count c - 1\<rparr>)\<rparr>"
      by (simp add: conn_release_shared)
    moreover from this c have "conn_body s' = conn_body s" by (auto simp: conn_body_def)
    ultimately show ?thesis by (simp add: conn_frame_def)
  qed
  then show "conn_frame s s'" "conns s' a \<noteq> None \<Longrightarrow> conn_body s' = conn_body s" "b \<noteq> a \<Longrightarrow> conns s' b = conns s b"
    by auto
qed

section \<open>Counting tasks\<close>

lemma conn_count_frame [simp]:
  "conn_count (s\<lparr>next_addr := n\<rparr>) = conn_count s" "conn_count (s\<lparr>mem := m\<rparr>) = conn_count s"
  "conn_count (s'\<lparr>tasks := T\<rparr>) = conn_count s'" "conn_count (s'\<lparr>queues := Q\<rparr>) = conn_count s'"
  by (simp_all add: conn_count_def fun_eq_iff)

lemma conns_wf_frame [simp]:
  "conns_wf (s\<lparr>next_addr := n\<rparr>) = conns_wf s" "conns_wf (s\<lparr>mem := m\<rparr>) = conns_wf s"
  "conns_wf (s'\<lparr>tasks := T\<rparr>) = conns_wf s'" "conns_wf (s'\<lparr>queues := Q\<rparr>) = conns_wf s'"
  by (simp_all add: conns_wf_def)

lemma refs_by_finite: "finite (dom T) \<Longrightarrow> finite {t. map_option f (T t) = Some v}"
  by (rule finite_subset [of _ "dom T"]) auto

lemma refs_by_cong: "(\<And>t. map_option f (T t) = map_option f (T' t)) \<Longrightarrow> refs_by f T = refs_by f T'"
  by (simp add: refs_by_def fun_eq_iff)

lemma refs_by_new:
  assumes "finite (dom T)" and "T t = None" and "f x = Some a"
  shows "refs_by f (T(t \<mapsto> x)) = (refs_by f T)(a := Suc (refs_by f T a))"
proof
  fix b
  have "{u. map_option f ((T(t \<mapsto> x)) u) = Some (Some b)} =
      (if b = a then insert t {u. map_option f (T u) = Some (Some b)} else {u. map_option f (T u) = Some (Some b)})"
    using assms by auto
  moreover have "t \<notin> {u. map_option f (T u) = Some (Some b)}" using assms(2) by simp
  ultimately show "refs_by f (T(t \<mapsto> x)) b = ((refs_by f T)(a := Suc (refs_by f T a))) b"
    using card_insert_disjoint [OF refs_by_finite [OF assms(1), of f "Some b"]]
    by (cases "b = a") (simp_all only: refs_by_def fun_upd_def if_True if_False refl)
qed

lemma refs_by_same: "T t = Some x \<Longrightarrow> f y = f x \<Longrightarrow> refs_by f (T(t \<mapsto> y)) = refs_by f T"
  by (rule refs_by_cong) auto

lemma task_core_conn: "map_option t_conn (tasks s t) = map_option (fst \<circ> snd) (task_core s t)"
  by (cases "tasks s t") (simp_all add: task_core_def)

lemma task_refs_core: "task_core s' = task_core s \<Longrightarrow> task_refs (tasks s') = task_refs (tasks s)"
  by (rule refs_by_cong) (simp add: task_core_conn)

lemma refs_by_del:
  assumes "finite (dom T)" and "T t = Some x" and "f x = Some a"
  shows "refs_by f T = (refs_by f (T(t := None)))(a := Suc (refs_by f (T(t := None)) a))"
proof -
  have "refs_by f ((T(t := None))(t \<mapsto> x)) = (refs_by f (T(t := None)))(a := Suc (refs_by f (T(t := None)) a))"
    using assms by (intro refs_by_new) simp_all
  moreover have "(T(t := None))(t \<mapsto> x) = T" using assms by auto
  ultimately show ?thesis by simp
qed

lemma refs_by_del_null:
  assumes "T t = Some x" and "f x = None"
  shows "refs_by f (T(t := None)) = refs_by f T"
proof
  fix a
  have "map_option f ((T(t := None)) u) = Some (Some a) \<longleftrightarrow> map_option f (T u) = Some (Some a)" for u
    using assms by (cases "u = t") simp_all
  then have "{u. map_option f ((T(t := None)) u) = Some (Some a)} = {u. map_option f (T u) = Some (Some a)}"
    by (rule Collect_cong)
  then show "refs_by f (T(t := None)) a = refs_by f T a" by (simp only: refs_by_def)
qed

section \<open>Creating and destroying tasks\<close>

lemma task_ownedD:
  assumes "task_owned ext s"
  shows "conns_wf s" "heap_fresh s" "conn_count s = counts_to (\<lambda>a. task_refs (tasks s) a + ext a)" "finite (dom (tasks s))"
  using assms by (simp_all add: task_owned_def heap_fresh_def)

lemma task_owned_live: "task_owned ext s \<Longrightarrow> conns s a \<noteq> None \<longleftrightarrow> task_refs (tasks s) a + ext a \<noteq> 0"
  using conn_count_None [of s a] task_ownedD(3) [of ext s] by (simp only: counts_to_None)

lemma conn_frame_gone: "conn_frame s s' \<Longrightarrow> conns s a = None \<Longrightarrow> conns s' a = None"
  by (drule conn_frameD(10)) (fastforce simp: conn_body_def map_le_def dom_def)

lemma heap_fresh_frame: "heap_fresh s \<Longrightarrow> conn_frame s s' \<Longrightarrow> heap_fresh s'"
  by (simp add: heap_fresh_def conn_frame_gone conn_frame_tasks conn_frameD(2))

lemma conn_count_cong: "conns s' = conns s \<Longrightarrow> conn_count s' = conn_count s"
  by (simp add: conn_count_def fun_eq_iff)

lemma task_owned_cong:
  "conns s' = conns s \<Longrightarrow> tasks s' = tasks s \<Longrightarrow> queues s' = queues s \<Longrightarrow> next_addr s' = next_addr s \<Longrightarrow>
     task_owned ext s' = task_owned ext s"
  by (simp add: task_owned_def heap_fresh_def conns_wf_def conn_count_cong [of s' s])

lemma task_owned_alloc:
  "task_owned ext s \<Longrightarrow> conns s' = conns s \<Longrightarrow> tasks s' = tasks s \<Longrightarrow> queues s' = queues s \<Longrightarrow> next_addr s \<le> next_addr s' \<Longrightarrow>
     task_owned ext s'"
  by (simp add: task_owned_def heap_fresh_def conns_wf_def conn_count_cong [of s' s])

text \<open>A holder other than a task drops its reference, or gains another one.\<close>

lemma release_owned:
  assumes own: "task_owned ext s" and a: "ext a \<noteq> 0"
  shows "\<exists>s'. conn_release (Some a) s = Inr ((), s') \<and> task_owned (ext(a := ext a - 1)) s' \<and> conn_frame s s'"
proof -
  let ?r = "\<lambda>b. task_refs (tasks s) b + ext b"
  obtain s' where s': "conn_release (Some a) s = Inr ((), s')" "conns_wf s'" "conn_count s' = counts_to (?r(a := ?r a - 1))"
    using conn_refs.release_held [OF task_ownedD(1,3) [OF own], of a] a by auto
  have frame: "conn_frame s s'" by (rule conn_frame_release(1) [OF task_ownedD(1) [OF own] s'(1)])
  have "?r(a := ?r a - 1) = (\<lambda>b. task_refs (tasks s') b + (ext(a := ext a - 1)) b)"
    using a by (auto simp: fun_eq_iff conn_frame_tasks [OF frame])
  then show ?thesis using s' frame heap_fresh_frame [OF task_ownedD(2) [OF own] frame] by (auto simp: task_owned_def)
qed

lemma acquire_owned:
  assumes own: "task_owned ext s" and a: "conns s a \<noteq> None"
  shows "\<exists>s'. conn_acquire (Some a) s = Inr ((), s') \<and> task_owned (ext(a := Suc (ext a))) s' \<and> conn_frame s s' \<and>
              conn_body s' = conn_body s"
proof -
  let ?r = "\<lambda>b. task_refs (tasks s) b + ext b"
  obtain s' where s': "conn_acquire (Some a) s = Inr ((), s')" "conns_wf s'" "conn_count s' = counts_to (?r(a := Suc (?r a)))"
    using conn_refs.acquire_held [OF task_ownedD(1,3) [OF own], of a] task_owned_live [OF own, of a] a by auto
  have frame: "conn_frame s s'" "conn_body s' = conn_body s"
    by (rule conn_frame_acquire [OF task_ownedD(1) [OF own] s'(1)])+
  have "?r(a := Suc (?r a)) = (\<lambda>b. task_refs (tasks s') b + (ext(a := Suc (ext a))) b)"
    using a by (auto simp: fun_eq_iff conn_frame_tasks [OF frame(1)])
  then show ?thesis using s' frame heap_fresh_frame [OF task_ownedD(2) [OF own] frame(1)] by (auto simp: task_owned_def)
qed

text \<open>Destroying a task drops the one reference it holds; nothing else is affected.\<close>

lemma task_destroy_owned:
  assumes own: "task_owned ext s" and t: "tasks s t = Some x" "t_conn x = Some a"
  shows "\<exists>s'. task_destroy (Some t) s = Inr ((), s'\<lparr>tasks := (tasks s)(t := None)\<rparr>) \<and> conn_release (Some a) s = Inr ((), s') \<and>
           conn_frame s s' \<and> task_owned ext (s'\<lparr>tasks := (tasks s)(t := None)\<rparr>)"
proof -
  let ?r = "\<lambda>b. task_refs (tasks s) b + ext b" and ?r' = "\<lambda>b. task_refs ((tasks s)(t := None)) b + ext b"
  have refs: "task_refs (tasks s) = (task_refs ((tasks s)(t := None)))(a := Suc (task_refs ((tasks s)(t := None)) a))"
    by (rule refs_by_del [where f = t_conn, OF task_ownedD(4) [OF own] t])
  then have "?r a \<noteq> 0" by simp
  then obtain s' where s': "conn_release (Some a) s = Inr ((), s')" "conns_wf s'"
      "conn_count s' = counts_to (?r(a := ?r a - 1))"
    using conn_refs.release_held [OF task_ownedD(1,3) [OF own]] by blast
  have frame: "conn_frame s s'" by (rule conn_frame_release(1) [OF task_ownedD(1) [OF own] s'(1)])
  have "?r(a := ?r a - 1) = ?r'" using refs by (auto simp: fun_eq_iff)
  with s'(3) have cnt: "conn_count (s'\<lparr>tasks := (tasks s)(t := None)\<rparr>) = counts_to ?r'"
    by simp
  have "heap_fresh (s'\<lparr>tasks := (tasks s)(t := None)\<rparr>)"
    using heap_fresh_frame [OF task_ownedD(2) [OF own] frame] conn_frame_tasks(1) [OF frame] by (simp add: heap_fresh_def)
  with cnt s'(2) have "task_owned ext (s'\<lparr>tasks := (tasks s)(t := None)\<rparr>)"
    by (simp add: task_owned_def)
  with s' t frame conn_frame_tasks(1) [OF frame] show ?thesis
    by (auto simp: task_destroy_def c_exec c_defs)
qed

text \<open>The three outcomes of \<open>task_create\<close>, by the outcomes of its two allocations.\<close>

definition new_task :: "task_type_t \<Rightarrow> ptr \<Rightarrow> string \<Rightarrow> int \<Rightarrow> task" where
  "new_task ty conn d n = \<lparr>t_type = ty, t_conn = conn, t_data = Some (take (nat n) d), t_data_len = n, t_next = None\<rparr>"

lemma task_create_exec:
  assumes c: "conns s a = Some c" "c_mutex c = Unlocked" and n: "0 < n" "n \<le> int (length d)" and fresh: "tasks s (next_addr s) = None"
  shows "mem s = False # m \<Longrightarrow> task_create ty (Some a) (Some d) n s = Inr (None, s\<lparr>mem := m\<rparr>)"
    and "mem s = True # False # m \<Longrightarrow> task_create ty (Some a) (Some d) n s =
      Inr (None, s\<lparr>next_addr := Suc (next_addr s), mem := m, conns := (conns s)(a \<mapsto> c\<lparr>c_ref_count := c_ref_count c + 1\<rparr>)\<rparr>)"
    and "False \<notin> set (take 2 (mem s)) \<Longrightarrow> task_create ty (Some a) (Some d) n s =
      Inr (Some (next_addr s), s\<lparr>next_addr := Suc (Suc (next_addr s)), mem := drop 2 (mem s),
        conns := (conns s)(a \<mapsto> c\<lparr>c_ref_count := c_ref_count c + 1\<rparr>),
        tasks := (tasks s)(next_addr s \<mapsto> new_task ty (Some a) d n)\<rparr>)"
proof -
  show "mem s = False # m \<Longrightarrow> task_create ty (Some a) (Some d) n s = Inr (None, s\<lparr>mem := m\<rparr>)"
    by (simp add: task_create_def mallocM_def bindM_def c_defs)
  show "mem s = True # False # m \<Longrightarrow> task_create ty (Some a) (Some d) n s =
      Inr (None, s\<lparr>next_addr := Suc (next_addr s), mem := m, conns := (conns s)(a \<mapsto> c\<lparr>c_ref_count := c_ref_count c + 1\<rparr>)\<rparr>)"
    using c n fresh by (cases s) (simp add: task_create_def mallocM_def bindM_def thenM_def c_defs conn_acquire_Some fun_upd_idem)
  show "False \<notin> set (take 2 (mem s)) \<Longrightarrow> task_create ty (Some a) (Some d) n s =
      Inr (Some (next_addr s), s\<lparr>next_addr := Suc (Suc (next_addr s)), mem := drop 2 (mem s),
        conns := (conns s)(a \<mapsto> c\<lparr>c_ref_count := c_ref_count c + 1\<rparr>),
        tasks := (tasks s)(next_addr s \<mapsto> new_task ty (Some a) d n)\<rparr>)"
    using c n
    by (cases s, cases "mem s" rule: remdups_adj.cases)
       (auto simp: task_create_def mallocM_def bindM_def thenM_def c_defs conn_acquire_Some task_update_Some new_task_def numeral_2_eq_2)
qed

lemma conns_wf_acquired: "conns_wf s \<Longrightarrow> conns s a = Some c \<Longrightarrow> conn_wf (c\<lparr>c_ref_count := c_ref_count c + 1\<rparr>)"
  by (drule (1) conns_wfD) (simp add: conn_wf_def)

lemma task_owned_acquired:
  assumes own: "task_owned ext s" and c: "conns s a = Some c"
    and s': "conns s' = (conns s)(a \<mapsto> c\<lparr>c_ref_count := c_ref_count c + 1\<rparr>)" "heap_fresh s'"
    and refs: "\<And>b. task_refs (tasks s') b + ext' b = (if b = a then Suc (task_refs (tasks s) a + ext a) else task_refs (tasks s) b + ext b)"
  shows "task_owned ext' s'"
proof -
  let ?r = "\<lambda>b. task_refs (tasks s) b + ext b"
  have "conn_count s a = Some (c_ref_count c)" using c by (simp add: conn_count_def)
  then have "c_ref_count c + 1 = int (Suc (?r a))"
    unfolding task_ownedD(3) [OF own] by (simp add: counts_to_def split: if_splits)
  then have "conn_count s' = counts_to (?r(a := Suc (?r a)))"
    by (simp add: conn_count_upd [OF s'(1)] counts_to_upd task_ownedD(3) [OF own] add.commute)
  moreover have "?r(a := Suc (?r a)) = (\<lambda>b. task_refs (tasks s') b + ext' b)" using refs by auto
  moreover have "conns_wf s'"
    using task_ownedD(1) [OF own] conns_wf_acquired [OF task_ownedD(1) [OF own] c] s'(1) by (auto simp: conns_wf_def)
  ultimately show ?thesis using s'(2) by (simp add: task_owned_def)
qed

text \<open>A task that came into being holds the new reference; one that did not leaves it without a holder.\<close>

lemma task_create_owned:
  assumes own: "task_owned ext s" and c: "conns s a = Some c"
  shows "task_owned (ext(a := Suc (ext a)))
      (s\<lparr>next_addr := Suc (next_addr s), mem := m, conns := (conns s)(a \<mapsto> c\<lparr>c_ref_count := c_ref_count c + 1\<rparr>)\<rparr>)"
    and "task_owned ext (s\<lparr>next_addr := Suc (Suc (next_addr s)), mem := m,
        conns := (conns s)(a \<mapsto> c\<lparr>c_ref_count := c_ref_count c + 1\<rparr>),
        tasks := (tasks s)(next_addr s \<mapsto> new_task ty (Some a) d n)\<rparr>)"
proof -
  have fresh: "heap_fresh s" by (rule task_ownedD [OF own])
  then have a: "a < next_addr s" using c by (auto simp: heap_fresh_def not_le [symmetric])
  show "task_owned (ext(a := Suc (ext a)))
      (s\<lparr>next_addr := Suc (next_addr s), mem := m, conns := (conns s)(a \<mapsto> c\<lparr>c_ref_count := c_ref_count c + 1\<rparr>)\<rparr>)"
    by (rule task_owned_acquired [OF own c]) (use fresh a in \<open>auto simp: heap_fresh_def\<close>)
  have "task_refs ((tasks s)(next_addr s \<mapsto> new_task ty (Some a) d n)) = (task_refs (tasks s))(a := Suc (task_refs (tasks s) a))"
    using fresh by (intro refs_by_new) (simp_all add: heap_fresh_def new_task_def)
  then show "task_owned ext (s\<lparr>next_addr := Suc (Suc (next_addr s)), mem := m,
        conns := (conns s)(a \<mapsto> c\<lparr>c_ref_count := c_ref_count c + 1\<rparr>),
        tasks := (tasks s)(next_addr s \<mapsto> new_task ty (Some a) d n)\<rparr>)"
    by (intro task_owned_acquired [OF own c]) (use fresh a in \<open>auto simp: heap_fresh_def\<close>)
qed

lemma task_owned_mem [simp]: "task_owned ext (s\<lparr>mem := m\<rparr>) = task_owned ext s"
  by (simp add: task_owned_def heap_fresh_def)

lemma task_owned_fresh: "task_owned ext s \<Longrightarrow> tasks s (next_addr s) = None"
  by (simp add: task_owned_def heap_fresh_def)

text \<open>
  C15. Ownership of a new task: \<open>task_create\<close> on a live connection never faults. If it
  returns a task, that task is new, holds a copy of the first \<open>data_len\<close> bytes and accounts for
  the one reference that was added. It returns \<open>NULL\<close> exactly when one of its allocations fails; when
  it is the second one, the reference it took stays without a holder, and otherwise nothing changed.
\<close>

theorem task_create_ownership:
  assumes "task_owned ext s" and "conns s a \<noteq> None" and "0 < n" and "n \<le> int (length d)"
  shows "\<exists>r s'. task_create ty (Some a) (Some d) n s = Inr (r, s') \<and>
           (r = None \<longleftrightarrow> False \<in> set (take 2 (mem s))) \<and>
           (case r of
              Some t \<Rightarrow> tasks s t = None \<and> tasks s' = (tasks s)(t \<mapsto> new_task ty (Some a) d n) \<and> task_owned ext s'
            | None \<Rightarrow> tasks s' = tasks s \<and>
                task_owned (if hd (mem s) then ext(a := Suc (ext a)) else ext) s')"
proof -
  obtain c where c: "conns s a = Some c" "c_mutex c = Unlocked"
    using assms(1,2) conns_wfD [of s a] by (auto simp: task_owned_def)
  note exec = task_create_exec [OF c assms(3,4) task_owned_fresh [OF assms(1)]]
  consider m where "mem s = False # m" | m where "mem s = True # False # m" | "False \<notin> set (take 2 (mem s))"
    by (cases "mem s" rule: remdups_adj.cases) auto
  then show ?thesis
  proof cases
    case 1 then show ?thesis using exec(1) assms(1) by (simp add: numeral_2_eq_2)
  next
    case 2 then show ?thesis using exec(2) task_create_owned(1) [OF assms(1) c(1)] by (simp add: numeral_2_eq_2)
  next
    case 3 then show ?thesis
      using exec(3) task_create_owned(2) [OF assms(1) c(1)] task_owned_fresh [OF assms(1)] by simp
  qed
qed

text \<open>The demonstration store: one connection held by three tasks and by its registration.\<close>

definition demo_ext :: "addr \<Rightarrow> nat" where
  "demo_ext a = (if a = 0 then 1 else 0)"

lemma demo_task_refs: "task_refs (tasks demo_task_store) = (\<lambda>a. if a = 0 then 3 else 0)"
proof
  fix a
  have "{t. map_option t_conn (tasks demo_task_store t) = Some (Some a)} = (if a = 0 then {1, 2, 3} else {})"
    by (auto simp: demo_task_store_def demo_task_def split: if_splits)
  then show "task_refs (tasks demo_task_store) a = (if a = 0 then 3 else 0)" by (simp add: refs_by_def)
qed

lemma demo_owned: "task_owned demo_ext demo_task_store"
proof -
  have "conns_wf demo_task_store" by (auto simp: conns_wf_def demo_task_store_def split: if_splits)
  moreover have "heap_fresh demo_task_store" by (simp add: heap_fresh_def demo_task_store_def)
  moreover have "conn_count demo_task_store = counts_to (\<lambda>a. task_refs (tasks demo_task_store) a + demo_ext a)"
    unfolding demo_task_refs by (auto simp: fun_eq_iff conn_count_def counts_to_def demo_ext_def demo_task_store_def demo_conn_def)
  ultimately show ?thesis by (simp add: task_owned_def)
qed

theorem task_create_ownership_witness:
  "\<exists>t s'. task_create TASK_TYPE_PROCESS (Some 0) (Some ''ok'') 2 demo_task_store = Inr (Some t, s') \<and> task_owned demo_ext s'"
proof -
  have 1: "conns demo_task_store 0 \<noteq> None" "mem demo_task_store = []" by (simp_all add: demo_task_store_def)
  then show ?thesis
    using task_create_ownership [OF demo_owned 1(1), of 2 "''ok''" TASK_TYPE_PROCESS] by (auto split: option.splits)
qed

section \<open>Destroying a queue\<close>

text \<open>What destroying tasks leaves alone.\<close>

definition task_frame :: "'a task_store_scheme \<Rightarrow> 'a task_store_scheme \<Rightarrow> bool" where
  "task_frame s s' \<longleftrightarrow> queues s' = queues s \<and> task_store.more s' = task_store.more s \<and> loops s' = loops s \<and>
     next_addr s' = next_addr s \<and> mem s' = mem s \<and> now s' = now s \<and> conn_body s' \<subseteq>\<^sub>m conn_body s"

lemma task_frame_refl [simp]: "task_frame s s"
  by (simp add: task_frame_def)

lemma task_frame_trans: "task_frame s s1 \<Longrightarrow> task_frame s1 s2 \<Longrightarrow> task_frame s s2"
  by (auto simp: task_frame_def elim: map_le_trans)


lemma task_destroy_any:
  assumes own: "task_owned ext s" and t: "tasks s t = Some x"
  shows "\<exists>s'. task_destroy (Some t) s = Inr ((), s') \<and> task_owned ext s' \<and> tasks s' = (tasks s)(t := None) \<and> task_frame s s'"
proof (cases "t_conn x")
  case None
  with t have "task_destroy (Some t) s = Inr ((), s\<lparr>tasks := (tasks s)(t := None)\<rparr>)"
    by (simp add: task_destroy_def conn_release_def c_exec c_defs)
  moreover have "task_owned ext (s\<lparr>tasks := (tasks s)(t := None)\<rparr>)"
    using own refs_by_del_null [of "tasks s" t x] t None by (simp add: task_owned_def heap_fresh_def)
  ultimately show ?thesis by (simp add: task_frame_def)
next
  case (Some a)
  from task_destroy_owned [OF own t Some] obtain s' where
    "task_destroy (Some t) s = Inr ((), s'\<lparr>tasks := (tasks s)(t := None)\<rparr>)" "conn_frame s s'"
    "task_owned ext (s'\<lparr>tasks := (tasks s)(t := None)\<rparr>)" by blast
  then show ?thesis by (simp add: task_frame_def conn_frameD conn_frame_tasks)
qed

lemma destroy_tasks_owned:
  "task_owned ext s \<Longrightarrow> chain (task_next s) p ts \<Longrightarrow> length ts \<le> fuel \<Longrightarrow>
     \<exists>s'. destroy_tasks fuel p s = Inr ((), s') \<and> task_owned ext s' \<and> tasks s' = tasks s |` (- set ts) \<and> task_frame s s'"
proof (induction ts arbitrary: s p fuel)
  case Nil
  then show ?case by (simp add: returnM_def)
next
  case (Cons t ts)
  then obtain x f where x: "p = Some t" "tasks s t = Some x" "chain (task_next s) (t_next x) ts" "fuel = Suc f" "length ts \<le> f"
    by (cases fuel; cases "tasks s t") (auto simp: task_next_def [of s t])
  obtain s1 where s1: "task_destroy (Some t) s = Inr ((), s1)" "task_owned ext s1" "tasks s1 = (tasks s)(t := None)" "task_frame s s1"
    using task_destroy_any [OF Cons.prems(1) x(2)] by blast
  have "t \<notin> set ts" using chain_distinct [OF Cons.prems(2)] by simp
  then have "chain (task_next s1) (t_next x) ts"
    using x(3) s1(3) by (subst chain_cong [of ts _ "task_next s"]) (auto simp: task_next_def)
  then obtain s2 where s2: "destroy_tasks f (t_next x) s1 = Inr ((), s2)" "task_owned ext s2" "tasks s2 = tasks s1 |` (- set ts)" "task_frame s1 s2"
    using Cons.IH [OF s1(2)] x(5) by blast
  have "tasks s2 = tasks s |` (- set (t # ts))" using s2(3) s1(3) by (auto simp: restrict_map_def)
  with s1 s2 x show ?case by (auto simp: bindM_def thenM_def task_load_Some intro: task_frame_trans)
qed

lemma queue_frame_conns:
  assumes "queue_frame q s s'"
  shows "conns s' = conns s" "next_addr s' = next_addr s" "loops s' = loops s"
  using assms by (cases s; cases s'; simp add: queue_frame_def conn_store.truncate_def)+

lemma task_owned_queue_frame:
  assumes "task_owned ext s" and "queue_frame q s s'" and "queues s q \<noteq> None"
  shows "task_owned ext s'"
proof -
  note frame = queue_frame_conns [OF assms(2)] queue_frame_tasks [OF assms(2), THEN fun_cong]
  have q: "q < next_addr s" using assms(1,3) by (force simp: task_owned_def heap_fresh_def not_le [symmetric])
  have dom: "dom (tasks s') = dom (tasks s)" using frame(4) by (auto simp: dom_def)
  then have none: "tasks s' a = None \<longleftrightarrow> tasks s a = None" for a by (metis domIff)
  have "heap_fresh s'"
    using assms(1,2) frame(1-3) q none dom by (simp add: task_owned_def heap_fresh_def queue_frame_def)
  moreover have "task_refs (tasks s') = task_refs (tasks s)"
    using assms(2) by (intro task_refs_core) (simp add: queue_frame_def)
  ultimately show ?thesis
    using assms(1) frame(1) by (simp add: task_owned_def conns_wf_def conn_count_def fun_eq_iff)
qed

lemma task_queue_destroy_keeps:
  assumes "task_owned ext s" and "queue_abs s q b" and "length (b_items b) \<le> fuel"
  shows "\<exists>s'. task_queue_destroy fuel (Some q) s = Inr ((), s') \<and> task_owned ext s' \<and>
           tasks s' = tasks s |` (- set (b_items b)) \<and> queues s' = (queues s)(q := None) \<and>
           task_store.more s' = task_store.more s"
proof -
  from assms(2) obtain Q where Q: "queues s q = Some Q" "q_mutex Q = Unlocked" "chain (task_next s) (q_head Q) (b_items b)"
    by (rule queue_absD)
  let ?s = "s\<lparr>queues := (queues s)(q \<mapsto> Q\<lparr>q_mutex := Locked\<rparr>)\<rparr>"
  have own: "task_owned ext ?s"
    using assms(1) Q(1) by (auto simp: task_owned_def heap_fresh_def)
  obtain s1 where s1: "destroy_tasks fuel (q_head Q) ?s = Inr ((), s1)" "task_owned ext s1"
      "tasks s1 = tasks ?s |` (- set (b_items b))" "task_frame ?s s1"
    using destroy_tasks_owned [OF own, of "q_head Q" "b_items b" fuel] Q(3) assms(3) by auto
  then have q1: "queues s1 = (queues s)(q \<mapsto> Q\<lparr>q_mutex := Locked\<rparr>)" by (simp add: task_frame_def)
  then have "task_queue_destroy fuel (Some q) s = Inr ((), s1\<lparr>queues := (queues s)(q := None)\<rparr>)"
    using Q s1(1) by (simp add: task_queue_destroy_def c_exec c_defs)
  moreover have "task_owned ext (s1\<lparr>queues := (queues s)(q := None)\<rparr>)"
    using s1(2) q1 by (auto simp: task_owned_def heap_fresh_def split: if_splits)
  ultimately show ?thesis using s1(3,4) by (simp add: task_frame_def)
qed

text \<open>
  C16. Destroying a queue: with fuel for its tasks, \<open>task_queue_destroy\<close> terminates without a
  fault, frees the queue and every task in it and no other task, and drops exactly the references those tasks held;
  a connection whose last reference goes this way is freed too.
\<close>

theorem task_queue_destroy_releases:
  assumes "task_owned ext s" and "queue_abs s q b" and "length (b_items b) \<le> fuel"
  shows "\<exists>s'. task_queue_destroy fuel (Some q) s = Inr ((), s') \<and> task_owned ext s' \<and>
           tasks s' = tasks s |` (- set (b_items b)) \<and> queues s' = (queues s)(q := None)"
  using task_queue_destroy_keeps [OF assms] by blast

theorem task_queue_destroy_releases_witness:
  "\<exists>s'. task_queue_destroy 2 (Some 50) demo_task_store = Inr ((), s') \<and> task_owned demo_ext s' \<and> queues s' 50 = None \<and>
        tasks s' 1 = None"
  using task_queue_destroy_releases [OF demo_owned demo_queue_abs, of 2] by (auto simp: demo_queue_def)

end
