(* ===== verification/Thread_Pool.thy ===== *)
theory Thread_Pool
  imports Ownership
begin

text \<open>
  \<open>advanced-reactor-server/thread_pool.c\<close>, the pool object: its creation and destruction, and the
  submission of tasks. What the worker threads do is in \<open>Worker\<close>. The state gains the heap \<open>pools\<close>.
\<close>

section \<open>Data\<close>

record thread_pool =
  p_threads :: ptr
  p_thread_count :: int
  p_task_queue :: ptr
  p_shutdown :: bool
  p_tasks_completed :: int
  p_stats_mutex :: mutex

record pool_store = task_store +
  pools :: "addr \<Rightarrow> thread_pool option"

section \<open>Operations\<close>

definition pool_load :: "addr \<Rightarrow> ('a pool_store_scheme, thread_pool) cmd" where
  "pool_load w = derefM pools (Some w)"

definition pool_update :: "addr \<Rightarrow> (thread_pool \<Rightarrow> thread_pool) \<Rightarrow> ('a pool_store_scheme, unit) cmd" where
  "pool_update w f = bindM (pool_load w) (\<lambda>W. modifyM (\<lambda>s. s\<lparr>pools := (pools s)(w \<mapsto> f W)\<rparr>))"

definition pool_free :: "addr \<Rightarrow> ('a pool_store_scheme, unit) cmd" where
  "pool_free w = modifyM (\<lambda>s. s\<lparr>pools := (pools s)(w := None)\<rparr>)"

text \<open>\<open>pthread_join\<close> of the first \<open>k\<close> workers from the \<open>i\<close>-th on; \<open>join i\<close> is what happens until worker \<open>i\<close> has ended.\<close>

fun join_workers :: "(nat \<Rightarrow> ('s, unit) cmd) \<Rightarrow> nat \<Rightarrow> nat \<Rightarrow> ('s, unit) cmd" where
  "join_workers join i 0 = returnM ()"
| "join_workers join i (Suc k) = thenM (join i) (join_workers join (Suc i) k)"

definition thread_pool_destroy ::
  "(nat \<Rightarrow> ('a pool_store_scheme, unit) cmd) \<Rightarrow> nat \<Rightarrow> ptr \<Rightarrow> ('a pool_store_scheme, unit) cmd" where
  "thread_pool_destroy join fuel pool = (case pool of
     None \<Rightarrow> returnM ()
   | Some w \<Rightarrow>
       thenM (pool_update w (\<lambda>W. W\<lparr>p_shutdown := True\<rparr>))
      (bindM (pool_load w) (\<lambda>W.
       thenM (task_queue_shutdown (p_task_queue W))
      (thenM (join_workers join 0 (nat (p_thread_count W)))
      (thenM (task_queue_destroy fuel (p_task_queue W))
      (thenM (pool_update w (\<lambda>W. W\<lparr>p_stats_mutex := Destroyed\<rparr>))
             (pool_free w)))))))"

text \<open>
  The loop over \<open>pthread_create\<close>: \<open>spawn i\<close> tells whether the \<open>i\<close>-th call succeeds; the result is the
  index of the first failure.
\<close>

fun spawn_workers :: "(nat \<Rightarrow> bool) \<Rightarrow> nat \<Rightarrow> nat \<Rightarrow> nat option" where
  "spawn_workers spawn i 0 = None"
| "spawn_workers spawn i (Suc k) = (if spawn i then spawn_workers spawn (Suc i) k else Some i)"

definition thread_pool_create ::
  "(nat \<Rightarrow> bool) \<Rightarrow> (nat \<Rightarrow> ('a pool_store_scheme, unit) cmd) \<Rightarrow> nat \<Rightarrow> int \<Rightarrow> int \<Rightarrow> ('a pool_store_scheme, ptr) cmd" where
  "thread_pool_create spawn join fuel thread_count queue_size =
     bindM mallocM (\<lambda>p. case p of
       None \<Rightarrow> returnM None
     | Some w \<Rightarrow>
         thenM (modifyM (\<lambda>s. s\<lparr>pools := (pools s)(w \<mapsto>
           \<lparr>p_threads = None, p_thread_count = thread_count, p_task_queue = None, p_shutdown = False,
            p_tasks_completed = 0, p_stats_mutex = Destroyed\<rparr>)\<rparr>))
        (bindM (task_queue_create queue_size) (\<lambda>q.
         if q = None then thenM (pool_free w) (returnM None)
         else
           thenM (pool_update w (\<lambda>W. W\<lparr>p_task_queue := q, p_stats_mutex := Unlocked\<rparr>))
          (bindM mallocM (\<lambda>threads.
           if threads = None then
             thenM (task_queue_destroy fuel q) (thenM (pool_free w) (returnM None))
           else
             thenM (pool_update w (\<lambda>W. W\<lparr>p_threads := threads\<rparr>))
            (case spawn_workers spawn 0 (nat thread_count) of
               None \<Rightarrow> returnM (Some w)
             | Some i \<Rightarrow>
                 thenM (pool_update w (\<lambda>W. W\<lparr>p_thread_count := int i\<rparr>))
                (thenM (thread_pool_destroy join fuel (Some w)) (returnM None))))))))"

definition thread_pool_submit :: "ptr \<Rightarrow> ptr \<Rightarrow> ('a pool_store_scheme, int) cmd" where
  "thread_pool_submit pool task = (case (pool, task) of
     (Some w, Some t) \<Rightarrow>
       bindM (pool_load w) (\<lambda>W.
         if p_shutdown W then returnM (- 1) else task_queue_push (p_task_queue W) (Some t))
   | _ \<Rightarrow> returnM (- 1))"

definition thread_pool_shutdown :: "ptr \<Rightarrow> ('a pool_store_scheme, unit) cmd" where
  "thread_pool_shutdown pool = (case pool of
     None \<Rightarrow> returnM ()
   | Some w \<Rightarrow>
       thenM (pool_update w (\<lambda>W. W\<lparr>p_shutdown := True\<rparr>))
      (bindM (pool_load w) (\<lambda>W. task_queue_shutdown (p_task_queue W))))"

section \<open>Execution rules\<close>

text \<open>The pool at \<open>w\<close> is in service and its queue at \<open>q\<close> represents \<open>b\<close>.\<close>

definition pool_abs :: "'a pool_store_scheme \<Rightarrow> addr \<Rightarrow> addr \<Rightarrow> bqueue \<Rightarrow> bool" where
  "pool_abs s w q b \<longleftrightarrow> (case pools s w of
     None \<Rightarrow> False
   | Some W \<Rightarrow> p_task_queue W = Some q \<and> p_stats_mutex W = Unlocked \<and> p_shutdown W = b_shutdown b \<and> queue_abs s q b)"

lemma pool_absD:
  assumes "pool_abs s w q b"
  obtains W where "pools s w = Some W" "p_task_queue W = Some q" "p_stats_mutex W = Unlocked"
    "p_shutdown W = b_shutdown b" "queue_abs s q b"
  using assms by (auto simp: pool_abs_def split: option.splits)

lemma pool_load_Some [c_exec]: "pools s w = Some W \<Longrightarrow> pool_load w s = Inr (W, s)"
  by (simp add: pool_load_def derefM_def)

lemma pool_load_None [c_exec]: "pools s w = None \<Longrightarrow> pool_load w s = Inl Dangling"
  by (simp add: pool_load_def derefM_def)

lemma pool_update_Some [c_exec]:
  "pools s w = Some W \<Longrightarrow> pool_update w f s = Inr ((), s\<lparr>pools := (pools s)(w \<mapsto> f W)\<rparr>)"
  by (simp add: pool_update_def c_exec c_defs)

lemma queue_frame_pools: "queue_frame q s s' \<Longrightarrow> pools s' = pools s"
  by (cases s; cases s') (simp add: queue_frame_def)

lemma queue_abs_pools [simp]: "queue_abs (s\<lparr>pools := P\<rparr>) q b = queue_abs s q b"
  by (rule queue_abs_cong) simp_all

lemma join_workers_quiet: "(\<And>i s. join i s = Inr ((), s)) \<Longrightarrow> join_workers join i k s = Inr ((), s)"
  by (induction k arbitrary: i) (simp_all add: returnM_def thenM_Inr)

lemma spawn_workers_None: "spawn_workers spawn i k = None \<longleftrightarrow> (\<forall>j. i \<le> j \<and> j < i + k \<longrightarrow> spawn j)"
  by (induction k arbitrary: i) (auto, metis Suc_leI le_neq_implies_less less_Suc_eq_le not_less_eq_eq)

lemma submit_cases:
  assumes "pool_abs s w q b" and "tasks s t = Some x" and "t \<notin> set (b_items b)"
  shows "case bq_push t b of
            Push_Wait \<Rightarrow> thread_pool_submit (Some w) (Some t) s = Inl Would_Block
          | Push_Refused \<Rightarrow> thread_pool_submit (Some w) (Some t) s = Inr (- 1, s)
          | Pushed b' \<Rightarrow> \<exists>s'. thread_pool_submit (Some w) (Some t) s = Inr (0, s') \<and> pool_abs s' w q b' \<and> queue_frame q s s'"
proof -
  from assms(1) obtain W where W: "pools s w = Some W" "p_task_queue W = Some q" "p_stats_mutex W = Unlocked"
    "p_shutdown W = b_shutdown b" "queue_abs s q b" by (rule pool_absD)
  show ?thesis
  proof (cases "bq_push t b")
    case Push_Wait
    then have "\<not> b_shutdown b" by (auto simp: bq_push_def)
    with W push_waits [OF W(5) Push_Wait] Push_Wait show ?thesis by (simp add: thread_pool_submit_def c_exec)
  next
    case Push_Refused
    then have "b_shutdown b" by (simp add: bq_push_def split: if_splits)
    with W Push_Refused show ?thesis by (simp add: thread_pool_submit_def c_exec c_defs)
  next
    case (Pushed b')
    then have b': "\<not> b_shutdown b" "b_shutdown b' = b_shutdown b" by (auto simp: bq_push_def split: if_splits)
    obtain s' where s': "task_queue_push (Some q) (Some t) s = Inr (0, s')" "queue_abs s' q b'" "queue_frame q s s'"
      using push_pushed [OF W(5) Pushed assms(2,3)] by blast
    with W b' have "thread_pool_submit (Some w) (Some t) s = Inr (0, s')" "pool_abs s' w q b'"
      using queue_frame_pools [OF s'(3)] by (simp_all add: thread_pool_submit_def c_exec pool_abs_def)
    with s' Pushed show ?thesis by auto
  qed
qed

lemma shutdown_pool:
  assumes "pool_abs s w q b"
  shows "\<exists>s'. thread_pool_shutdown (Some w) s = Inr ((), s') \<and> pool_abs s' w q (bq_shutdown b) \<and>
           (\<forall>t. thread_pool_submit (Some w) (Some t) s' = Inr (- 1, s'))"
proof -
  from assms obtain W where W: "pools s w = Some W" "p_task_queue W = Some q" "p_stats_mutex W = Unlocked"
    "p_shutdown W = b_shutdown b" "queue_abs s q b" by (rule pool_absD)
  let ?s = "s\<lparr>pools := (pools s)(w \<mapsto> W\<lparr>p_shutdown := True\<rparr>)\<rparr>"
  obtain s' where s': "task_queue_shutdown (Some q) ?s = Inr ((), s')" "queue_abs s' q (bq_shutdown b)" "queue_frame q ?s s'"
    using shutdown_abs [of ?s q b] W(5) by auto
  then have "pools s' = (pools s)(w \<mapsto> W\<lparr>p_shutdown := True\<rparr>)" using queue_frame_pools [OF s'(3)] by simp
  with W s' show ?thesis
    by (intro exI [of _ s']) (simp add: thread_pool_shutdown_def thread_pool_submit_def pool_abs_def bq_shutdown_def c_exec c_defs)
qed

text \<open>
  Submission: \<open>thread_pool_submit\<close> to a pool in service behaves as the abstract bounded queue does
  (it sleeps on a full queue, refuses after the shutdown, and otherwise appends the task), and
  \<open>thread_pool_shutdown\<close> turns every later submission into a refusal without effect while the
  queued tasks stay.
\<close>

theorem thread_pool_submit_refines:
  assumes "pool_abs s w q b" and "tasks s t = Some x" and "t \<notin> set (b_items b)"
  shows "(case bq_push t b of
            Push_Wait \<Rightarrow> thread_pool_submit (Some w) (Some t) s = Inl Would_Block
          | Push_Refused \<Rightarrow> thread_pool_submit (Some w) (Some t) s = Inr (- 1, s)
          | Pushed b' \<Rightarrow> \<exists>s'. thread_pool_submit (Some w) (Some t) s = Inr (0, s') \<and> pool_abs s' w q b' \<and> queue_frame q s s') \<and>
         (\<exists>s'. thread_pool_shutdown (Some w) s = Inr ((), s') \<and> pool_abs s' w q (bq_shutdown b) \<and>
               thread_pool_submit (Some w) (Some t) s' = Inr (- 1, s'))"
  using submit_cases [OF assms] shutdown_pool [OF assms(1)] by blast

definition demo_pool_store :: pool_store where
  "demo_pool_store = task_store.extend demo_task_store
     \<lparr>pools = [60 \<mapsto> \<lparr>p_threads = None, p_thread_count = 2, p_task_queue = Some 50, p_shutdown = False,
                        p_tasks_completed = 0, p_stats_mutex = Unlocked\<rparr>]\<rparr>"

lemma demo_pool_tasks [simp]:
  "tasks demo_pool_store = tasks demo_task_store" "queues demo_pool_store = queues demo_task_store"
  by (simp_all add: demo_pool_store_def task_store.extend_def demo_task_store_def)

lemma demo_pool_abs: "pool_abs demo_pool_store 60 50 demo_queue"
proof -
  have "queue_abs demo_pool_store 50 demo_queue" using demo_queue_abs by (subst queue_abs_cong [of _ demo_task_store]) simp_all
  then show ?thesis by (simp add: pool_abs_def demo_queue_def) (simp add: demo_pool_store_def task_store.extend_def)
qed

theorem thread_pool_submit_refines_witness:
  "\<exists>s'. thread_pool_submit (Some 60) (Some 3) demo_pool_store = Inr (0, s') \<and>
        pool_abs s' 60 50 (demo_queue\<lparr>b_items := [1, 2, 3]\<rparr>)"
proof -
  have 1: "tasks demo_pool_store 3 = Some (demo_task (Some 0) None)" by (simp add: demo_task_store_def)
  have 2: "3 \<notin> set (b_items demo_queue)" by (simp add: demo_queue_def)
  show ?thesis using thread_pool_submit_refines [OF demo_pool_abs 1 2] by (auto simp: bq_push_def demo_queue_def)
qed

section \<open>Creation\<close>

definition empty_queue :: "int \<Rightarrow> task_queue" where
  "empty_queue n = \<lparr>q_head = None, q_tail = None, q_size = 0, q_max_size = n, q_mutex = Unlocked,
                    q_not_empty = [], q_not_full = [], q_shutdown = False\<rparr>"

lemma task_queue_create_exec:
  "mem s = False # m \<Longrightarrow> task_queue_create n s = Inr (None, s\<lparr>mem := m\<rparr>)"
  "False \<notin> set (take 1 (mem s)) \<Longrightarrow> task_queue_create n s =
     Inr (Some (next_addr s), s\<lparr>next_addr := Suc (next_addr s), mem := drop 1 (mem s),
       queues := (queues s)(next_addr s \<mapsto> empty_queue n)\<rparr>)"
  by (cases s, cases "mem s"; auto simp: task_queue_create_def mallocM_def bindM_def thenM_def c_defs empty_queue_def)+

lemma task_queue_destroy_empty:
  "queues s q = Some Q \<Longrightarrow> q_mutex Q = Unlocked \<Longrightarrow> q_head Q = None \<Longrightarrow>
     task_queue_destroy fuel (Some q) s = Inr ((), s\<lparr>queues := (queues s)(q := None)\<rparr>)"
  by (simp add: task_queue_destroy_def c_exec c_defs)

lemma thread_pool_destroy_empty:
  assumes "pools s w = Some W" "p_task_queue W = Some q" "queues s q = Some Q" "q_mutex Q = Unlocked" "q_head Q = None"
    and "\<And>i s. join i s = Inr ((), s)"
  shows "thread_pool_destroy join fuel (Some w) s = Inr ((), s\<lparr>queues := (queues s)(q := None), pools := (pools s)(w := None)\<rparr>)"
  using assms(1-5) join_workers_quiet [OF assms(6)]
  by (cases s) (simp add: thread_pool_destroy_def pool_free_def task_queue_destroy_empty shutdown_exec c_exec c_defs)

text \<open>What \<open>malloc\<close> hands out next is not in use as a pool either.\<close>

definition pool_fresh :: "'a pool_store_scheme \<Rightarrow> bool" where
  "pool_fresh s \<longleftrightarrow> heap_fresh s \<and> (\<forall>a \<ge> next_addr s. pools s a = None)"

lemma mem_cases3:
  obtains m where "M = False # m" | m where "M = True # False # m" | m where "M = True # True # False # m"
    | "False \<notin> set (take 3 M)" "False \<notin> set (take 1 M)" "False \<notin> set (take 1 (drop 1 M))" "False \<notin> set (take 1 (drop 2 M))"
  by (cases M rule: remdups_adj.cases; cases "drop 2 M") (auto simp: numeral_3_eq_3)

lemma malloc_ok: "False \<notin> set (take 1 (mem s)) \<Longrightarrow>
    mallocM s = Inr (Some (next_addr s), s\<lparr>next_addr := Suc (next_addr s), mem := drop 1 (mem s)\<rparr>)"
  by (cases s; cases "mem s") (auto simp: mallocM_def)

lemma malloc_fail: "mem s = False # m \<Longrightarrow> mallocM s = Inr (None, s\<lparr>mem := m\<rparr>)"
  by (simp add: mallocM_def)

lemma thread_pool_create_fails:
  assumes "pool_fresh s" and "False \<in> set (take 3 (mem s))"
  shows "\<exists>s'. thread_pool_create spawn join fuel n k s = Inr (None, s') \<and> pools s' = pools s \<and> queues s' = queues s \<and>
              tasks s' = tasks s \<and> conns s' = conns s \<and> loops s' = loops s \<and> pool_store.more s' = pool_store.more s"
proof -
  have fresh: "pools s (next_addr s) = None" "queues s (Suc (next_addr s)) = None"
    using assms(1) by (simp_all add: pool_fresh_def heap_fresh_def)
  show ?thesis
  proof (cases "mem s" rule: mem_cases3)
    case (1 m) then show ?thesis by (simp add: thread_pool_create_def bindM_def malloc_fail c_defs)
  next
    case (2 m) then show ?thesis
      using fresh by (simp add: thread_pool_create_def pool_free_def bindM_def thenM_def malloc_ok task_queue_create_exec c_defs fun_upd_idem)
  next
    case (3 m) then show ?thesis using fresh
      by (simp add: thread_pool_create_def pool_free_def bindM_def thenM_def malloc_ok malloc_fail task_queue_create_exec
          pool_update_Some c_defs)
         (simp add: task_queue_destroy_empty empty_queue_def fun_upd_idem bindM_def c_defs)
  next
    case 4 then show ?thesis using assms(2) by simp
  qed
qed

lemma thread_pool_create_runs:
  assumes "False \<notin> set (take 3 (mem s))"
  shows "\<exists>s' W. pools s' = (pools s)(next_addr s \<mapsto> W) \<and> p_task_queue W = Some (Suc (next_addr s)) \<and>
      p_thread_count W = n \<and> p_stats_mutex W = Unlocked \<and> \<not> p_shutdown W \<and> p_tasks_completed W = 0 \<and>
      queues s' = (queues s)(Suc (next_addr s) \<mapsto> empty_queue k) \<and> tasks s' = tasks s \<and> conns s' = conns s \<and>
      loops s' = loops s \<and> pool_store.more s' = pool_store.more s \<and> fd_open s' = fd_open s \<and> next_addr s' = Suc (Suc (Suc (next_addr s))) \<and>
      thread_pool_create spawn join fuel n k s =
        (case spawn_workers spawn 0 (nat n) of
           None \<Rightarrow> Inr (Some (next_addr s), s')
         | Some i \<Rightarrow> thenM (pool_update (next_addr s) (\<lambda>W. W\<lparr>p_thread_count := int i\<rparr>))
               (thenM (thread_pool_destroy join fuel (Some (next_addr s))) (returnM None)) s')"
proof (cases "mem s" rule: mem_cases3)
  case 4
  let ?W = "\<lparr>p_threads = Some (Suc (Suc (next_addr s))), p_thread_count = n, p_task_queue = Some (Suc (next_addr s)),
    p_shutdown = False, p_tasks_completed = 0, p_stats_mutex = Unlocked\<rparr>"
  let ?s = "s\<lparr>queues := (queues s)(Suc (next_addr s) \<mapsto> empty_queue k), next_addr := Suc (Suc (Suc (next_addr s))),
    mem := drop (Suc (Suc (Suc 0))) (mem s), pools := (pools s)(next_addr s \<mapsto> ?W)\<rparr>"
  from 4 show ?thesis
    by (simp add: thread_pool_create_def bindM_def [of mallocM] bindM_def [of "task_queue_create k"]
        malloc_ok task_queue_create_exec thenM_Inr pool_update_Some numeral_2_eq_2)
       (intro exI [of _ ?s] exI [of _ ?W] conjI; simp add: returnM_def split: option.splits)
qed (use assms in \<open>simp_all add: numeral_3_eq_3\<close>)

lemma thread_pool_create_ok:
  assumes "pool_fresh s" and "\<And>i s. join i s = Inr ((), s)"
  shows "\<exists>r s'. thread_pool_create spawn join fuel n k s = Inr (r, s') \<and> tasks s' = tasks s \<and> conns s' = conns s \<and> loops s' = loops s \<and>
           pool_store.more s' = pool_store.more s \<and>
           (r \<noteq> None \<longleftrightarrow> False \<notin> set (take 3 (mem s)) \<and> (\<forall>i < nat n. spawn i)) \<and>
           (case r of
              None \<Rightarrow> pools s' = pools s \<and> queues s' = queues s
            | Some w \<Rightarrow> pools s w = None \<and> fd_open s' = fd_open s \<and> next_addr s \<le> next_addr s' \<and> w < next_addr s' \<and>
                (\<exists>q W. q < next_addr s' \<and> pools s' = (pools s)(w \<mapsto> W) \<and> queues s' = (queues s)(q \<mapsto> empty_queue k) \<and>
                   pool_abs s' w q \<lparr>b_items = [], b_max = k, b_shutdown = False\<rparr>))"
proof (cases "False \<in> set (take 3 (mem s))")
  case True
  then show ?thesis using thread_pool_create_fails [OF assms(1) True, of spawn join fuel n k] by auto
next
  case False
  let ?w = "next_addr s" and ?q = "Suc (next_addr s)"
  have fresh: "pools s ?w = None" "queues s ?q = None"
    using assms(1) by (simp_all add: pool_fresh_def heap_fresh_def)
  obtain s1 W where s1: "pools s1 = (pools s)(?w \<mapsto> W)" "p_task_queue W = Some ?q" "p_stats_mutex W = Unlocked" "\<not> p_shutdown W"
      "queues s1 = (queues s)(?q \<mapsto> empty_queue k)" "tasks s1 = tasks s" "conns s1 = conns s"
      "loops s1 = loops s" "pool_store.more s1 = pool_store.more s" "fd_open s1 = fd_open s" "next_addr s1 = Suc (Suc (Suc (next_addr s)))"
    and run: "thread_pool_create spawn join fuel n k s =
        (case spawn_workers spawn 0 (nat n) of
           None \<Rightarrow> Inr (Some ?w, s1)
         | Some i \<Rightarrow> thenM (pool_update ?w (\<lambda>W. W\<lparr>p_thread_count := int i\<rparr>))
               (thenM (thread_pool_destroy join fuel (Some ?w)) (returnM None)) s1)"
    using thread_pool_create_runs [OF False, of n k spawn join fuel] by blast
  show ?thesis
  proof (cases "spawn_workers spawn 0 (nat n)")
    case None
    then have "\<forall>i < nat n. spawn i" by (simp add: spawn_workers_None)
    moreover have "pool_abs s1 ?w ?q \<lparr>b_items = [], b_max = k, b_shutdown = False\<rparr>"
      using s1 by (simp add: pool_abs_def queue_abs_def empty_queue_def)
    ultimately show ?thesis using None run fresh False s1 by (auto intro!: exI [of _ ?q])
  next
    case (Some i)
    then have "spawn_workers spawn 0 (nat n) \<noteq> None" by simp
    then have "\<not> (\<forall>i < nat n. spawn i)" by (simp add: spawn_workers_None)
    moreover have "thread_pool_create spawn join fuel n k s = Inr (None, s1\<lparr>queues := queues s, pools := pools s\<rparr>)"
      using run Some s1 fresh
      by (simp add: thenM_Inr pool_update_Some thread_pool_destroy_empty [OF _ _ _ _ _ assms(2)] empty_queue_def fun_upd_idem returnM_def)
    ultimately show ?thesis using s1 by auto
  qed
qed



section \<open>Destruction\<close>

text \<open>
  What the other threads may do while \<open>thread_pool_destroy\<close> waits for a worker: they may take tasks from
  the queue, which is shut down, but they keep the ownership accounting and add nothing.
\<close>

definition drains :: "(addr \<Rightarrow> nat) \<Rightarrow> addr \<Rightarrow> addr \<Rightarrow> ('a pool_store_scheme, unit) cmd \<Rightarrow> bool" where
  "drains ext w q f \<longleftrightarrow> (\<forall>s b. task_owned ext s \<and> pool_abs s w q b \<and> b_shutdown b \<longrightarrow>
     (\<exists>s' b'. f s = Inr ((), s') \<and> task_owned ext s' \<and> pool_abs s' w q b' \<and> b_shutdown b' \<and>
              length (b_items b') \<le> length (b_items b)))"

lemma join_workers_drains:
  assumes "\<And>i. drains ext w q (join i)" and "task_owned ext s" and "pool_abs s w q b" and "b_shutdown b"
  shows "\<exists>s' b'. join_workers join i k s = Inr ((), s') \<and> task_owned ext s' \<and> pool_abs s' w q b' \<and> b_shutdown b' \<and>
           length (b_items b') \<le> length (b_items b)"
  using assms(2-4)
proof (induction k arbitrary: i s b)
  case 0
  then show ?case by (auto simp: returnM_def)
next
  case (Suc k)
  then obtain s1 b1 where 1: "join i s = Inr ((), s1)" "task_owned ext s1" "pool_abs s1 w q b1" "b_shutdown b1"
      "length (b_items b1) \<le> length (b_items b)"
    using assms(1) [of i] unfolding drains_def by blast
  obtain s2 b2 where "join_workers join (Suc i) k s1 = Inr ((), s2)" "task_owned ext s2" "pool_abs s2 w q b2" "b_shutdown b2"
      "length (b_items b2) \<le> length (b_items b1)"
    using Suc.IH [OF 1(2-4)] by blast
  with 1 show ?case by (simp add: thenM_Inr) (metis order.trans)
qed

lemma pools_more: "task_store.more s' = task_store.more s \<Longrightarrow> pools s' = pools s"
  by (cases s; cases s') simp

lemma task_owned_pools: "task_owned ext (s\<lparr>pools := P\<rparr>) = task_owned ext s"
  by (simp add: task_owned_def heap_fresh_def conns_wf_def conn_count_def fun_eq_iff)


lemma drains_return: "drains ext w q (returnM ())"
  by (auto simp: drains_def returnM_def)

lemma demo_pool_owned: "task_owned demo_ext demo_pool_store"
  using demo_owned
  by (simp add: task_owned_def heap_fresh_def conns_wf_def conn_count_def fun_eq_iff demo_pool_store_def task_store.extend_def demo_task_store_def)


end
