(* ===== verification/Io_Message.thy ===== *)
theory Io_Message
  imports Thread_Pool
begin

text \<open>
  \<open>advanced-reactor-server/io_thread.c\<close>, the message queue of an I/O thread: the workers append messages
  with \<open>io_thread_send_message\<close> and wake the thread through a pipe; the thread takes them all out when
  the pipe becomes readable. The state gains the heaps \<open>msgs\<close> and \<open>ios\<close>.
\<close>

section \<open>Data\<close>

datatype io_msg_type_t = IO_MSG_RESPONSE_READY | IO_MSG_CLOSE_CONN

record io_message =
  m_type :: io_msg_type_t
  m_conn :: ptr
  m_next :: ptr

text \<open>The two descriptors of a pipe are a pair: the read end and the write end.\<close>

record io_thread =
  io_thread_index :: int
  io_event_loop :: ptr
  io_worker_pool :: ptr
  io_pipe_fd :: "int \<times> int"
  io_shutdown :: bool
  io_msg_queue_head :: ptr
  io_msg_queue_tail :: ptr
  io_msg_queue_mutex :: mutex
  io_msg_pipe_fd :: "int \<times> int"
  io_connections_handled :: int
  io_bytes_read :: int
  io_bytes_written :: int
  io_stats_mutex :: mutex

record io_store = pool_store +
  msgs :: "addr \<Rightarrow> io_message option"
  ios :: "addr \<Rightarrow> io_thread option"

section \<open>Operations\<close>

definition msg_load :: "addr \<Rightarrow> ('a io_store_scheme, io_message) cmd" where
  "msg_load m = derefM msgs (Some m)"

definition msg_update :: "addr \<Rightarrow> (io_message \<Rightarrow> io_message) \<Rightarrow> ('a io_store_scheme, unit) cmd" where
  "msg_update m f = bindM (msg_load m) (\<lambda>x. modifyM (\<lambda>s. s\<lparr>msgs := (msgs s)(m \<mapsto> f x)\<rparr>))"

definition io_load :: "addr \<Rightarrow> ('a io_store_scheme, io_thread) cmd" where
  "io_load i = derefM ios (Some i)"

definition io_update :: "addr \<Rightarrow> (io_thread \<Rightarrow> io_thread) \<Rightarrow> ('a io_store_scheme, unit) cmd" where
  "io_update i f = bindM (io_load i) (\<lambda>I. modifyM (\<lambda>s. s\<lparr>ios := (ios s)(i \<mapsto> f I)\<rparr>))"

definition msgq_lock :: "addr \<Rightarrow> ('a io_store_scheme, unit) cmd" where
  "msgq_lock i =
     bindM (io_load i) (\<lambda>I. bindM (mutex_lock (io_msg_queue_mutex I)) (\<lambda>m. io_update i (io_msg_queue_mutex_update (\<lambda>_. m))))"

definition msgq_unlock :: "addr \<Rightarrow> ('a io_store_scheme, unit) cmd" where
  "msgq_unlock i =
     bindM (io_load i) (\<lambda>I. bindM (mutex_unlock (io_msg_queue_mutex I)) (\<lambda>m. io_update i (io_msg_queue_mutex_update (\<lambda>_. m))))"

text \<open>\<open>pthread_mutex_lock(&stats_mutex)\<close>, an update of the counters, \<open>pthread_mutex_unlock\<close>.\<close>

definition io_stats :: "addr \<Rightarrow> (io_thread \<Rightarrow> io_thread) \<Rightarrow> ('a io_store_scheme, unit) cmd" where
  "io_stats i f =
     bindM (io_load i) (\<lambda>I. bindM (mutex_lock (io_stats_mutex I)) (\<lambda>m.
     thenM (io_update i (io_stats_mutex_update (\<lambda>_. m)))
    (thenM (io_update i f)
    (bindM (io_load i) (\<lambda>I. bindM (mutex_unlock (io_stats_mutex I)) (\<lambda>m.
       io_update i (io_stats_mutex_update (\<lambda>_. m))))))))"

text \<open>Linking a message at the tail; its \<open>next\<close> is \<open>NULL\<close> already.\<close>

definition msg_enqueue :: "addr \<Rightarrow> addr \<Rightarrow> ('a io_store_scheme, unit) cmd" where
  "msg_enqueue i m =
     bindM (io_load i) (\<lambda>I.
     thenM (case io_msg_queue_tail I of
              Some l \<Rightarrow> msg_update l (\<lambda>x. x\<lparr>m_next := Some m\<rparr>)
            | None \<Rightarrow> io_update i (\<lambda>I. I\<lparr>io_msg_queue_head := Some m\<rparr>))
           (io_update i (\<lambda>I. I\<lparr>io_msg_queue_tail := Some m\<rparr>)))"

definition io_thread_send_message :: "ptr \<Rightarrow> io_msg_type_t \<Rightarrow> ptr \<Rightarrow> ('a io_store_scheme, unit) cmd" where
  "io_thread_send_message io_thread type conn = (case (io_thread, conn) of
     (Some i, Some a) \<Rightarrow>
       bindM mallocM (\<lambda>p. case p of
         None \<Rightarrow> returnM ()
       | Some m \<Rightarrow>
           thenM (modifyM (\<lambda>s. s\<lparr>msgs := (msgs s)(m \<mapsto> \<lparr>m_type = type, m_conn = Some a, m_next = None\<rparr>)\<rparr>))
          (thenM (msgq_lock i)
          (thenM (conn_acquire (Some a))
          (thenM (msg_enqueue i m)
          (thenM (msgq_unlock i)
          (bindM (io_load i) (\<lambda>I.
           bindM (sys_pipe_write (snd (io_msg_pipe_fd I)) [PByte 1]) (\<lambda>_. returnM ()))))))))
   | _ \<Rightarrow> returnM ())"

text \<open>Unlinking the message at the head, \<open>None\<close> when the queue is empty.\<close>

definition msg_dequeue :: "addr \<Rightarrow> ('a io_store_scheme, ptr) cmd" where
  "msg_dequeue i =
     bindM (io_load i) (\<lambda>I. case io_msg_queue_head I of
       None \<Rightarrow> returnM None
     | Some m \<Rightarrow>
         bindM (msg_load m) (\<lambda>x.
         thenM (io_update i (\<lambda>I. I\<lparr>io_msg_queue_head := m_next x\<rparr>))
        (thenM (whenM (m_next x = None) (io_update i (\<lambda>I. I\<lparr>io_msg_queue_tail := None\<rparr>)))
               (returnM (Some m)))))"

text \<open>What the I/O thread does with a message it has taken out, without the lock.\<close>

definition handle_message :: "addr \<Rightarrow> addr \<Rightarrow> ('a io_store_scheme, unit) cmd" where
  "handle_message i m =
     bindM (msg_load m) (\<lambda>x.
     thenM (whenM (m_type x = IO_MSG_RESPONSE_READY)
             (bindM (conn_is_valid (m_conn x)) (\<lambda>valid.
              whenM valid
                (bindM (io_load i) (\<lambda>I.
                 bindM (derefM conns (m_conn x)) (\<lambda>c.
                 bindM (event_loop_mod (io_event_loop I) (c_fd c) (EVENT_WRITE OR EVENT_ET) (U_Conn (the (m_conn x))))
                       (\<lambda>_. returnM ())))))))
    (thenM (conn_release (m_conn x))
           (modifyM (\<lambda>s. s\<lparr>msgs := (msgs s)(m := None)\<rparr>))))"

text \<open>The loop over the queue, one unit of fuel per message; the lock is held at its start and end.\<close>

fun drain_loop :: "nat \<Rightarrow> addr \<Rightarrow> ('a io_store_scheme, unit) cmd" where
  "drain_loop fuel i =
     bindM (msg_dequeue i) (\<lambda>p. case p of
       None \<Rightarrow> returnM ()
     | Some m \<Rightarrow>
         thenM (msgq_unlock i)
        (thenM (handle_message i m)
        (thenM (msgq_lock i)
               (case fuel of 0 \<Rightarrow> failM Out_Of_Fuel | Suc f \<Rightarrow> drain_loop f i))))"

declare drain_loop.simps [simp del]

definition handle_msg_event :: "nat \<Rightarrow> addr \<Rightarrow> ('a io_store_scheme, unit) cmd" where
  "handle_msg_event fuel i =
     bindM (io_load i) (\<lambda>I.
     bindM (sys_pipe_read (fst (io_msg_pipe_fd I)) 1) (\<lambda>_.
     thenM (msgq_lock i)
    (thenM (drain_loop fuel i)
           (msgq_unlock i))))"

section \<open>The queue as a list\<close>

definition msg_next :: "'a io_store_scheme \<Rightarrow> addr \<Rightarrow> ptr option" where
  "msg_next s m = map_option m_next (msgs s m)"

text \<open>The queue of thread \<open>i\<close> holds the messages \<open>ms\<close>, oldest first; \<open>lk\<close> is the state of its mutex.\<close>

definition msg_abs_at :: "mutex \<Rightarrow> 'a io_store_scheme \<Rightarrow> addr \<Rightarrow> addr list \<Rightarrow> bool" where
  "msg_abs_at lk s i ms \<longleftrightarrow> (case ios s i of
     None \<Rightarrow> False
   | Some I \<Rightarrow> io_msg_queue_mutex I = lk \<and> chain (msg_next s) (io_msg_queue_head I) ms \<and>
       io_msg_queue_tail I = (if ms = [] then None else Some (last ms)))"

abbreviation msg_abs :: "'a io_store_scheme \<Rightarrow> addr \<Rightarrow> addr list \<Rightarrow> bool" where
  "msg_abs \<equiv> msg_abs_at Unlocked"

text \<open>The two critical sections as operations of their own.\<close>

definition msg_push :: "addr \<Rightarrow> addr \<Rightarrow> ('a io_store_scheme, unit) cmd" where
  "msg_push i m = thenM (msgq_lock i) (thenM (msg_enqueue i m) (msgq_unlock i))"

definition msg_pop :: "addr \<Rightarrow> ('a io_store_scheme, ptr) cmd" where
  "msg_pop i = thenM (msgq_lock i) (bindM (msg_dequeue i) (\<lambda>p. thenM (msgq_unlock i) (returnM p)))"

section \<open>Execution rules\<close>

lemma msg_load_Some [c_exec]: "msgs s m = Some x \<Longrightarrow> msg_load m s = Inr (x, s)"
  by (simp add: msg_load_def derefM_def)

lemma msg_update_Some [c_exec]:
  "msgs s m = Some x \<Longrightarrow> msg_update m f s = Inr ((), s\<lparr>msgs := (msgs s)(m \<mapsto> f x)\<rparr>)"
  by (simp add: msg_update_def c_exec c_defs)

lemma io_load_Some [c_exec]: "ios s i = Some I \<Longrightarrow> io_load i s = Inr (I, s)"
  by (simp add: io_load_def derefM_def)

lemma io_update_Some [c_exec]:
  "ios s i = Some I \<Longrightarrow> io_update i f s = Inr ((), s\<lparr>ios := (ios s)(i \<mapsto> f I)\<rparr>)"
  by (simp add: io_update_def c_exec c_defs)

lemma msgq_lock_Some [c_exec]:
  "ios s i = Some I \<Longrightarrow> io_msg_queue_mutex I = Unlocked \<Longrightarrow>
     msgq_lock i s = Inr ((), s\<lparr>ios := (ios s)(i \<mapsto> I\<lparr>io_msg_queue_mutex := Locked\<rparr>)\<rparr>)"
  by (simp add: msgq_lock_def c_exec c_defs)

lemma msgq_unlock_Some [c_exec]:
  "ios s i = Some I \<Longrightarrow> io_msg_queue_mutex I = Locked \<Longrightarrow>
     msgq_unlock i s = Inr ((), s\<lparr>ios := (ios s)(i \<mapsto> I\<lparr>io_msg_queue_mutex := Unlocked\<rparr>)\<rparr>)"
  by (simp add: msgq_unlock_def c_exec c_defs)

lemma msg_absD:
  assumes "msg_abs_at lk s i ms"
  obtains I where "ios s i = Some I" "io_msg_queue_mutex I = lk" "chain (msg_next s) (io_msg_queue_head I) ms"
    "io_msg_queue_tail I = (if ms = [] then None else Some (last ms))"
  using assms by (auto simp: msg_abs_at_def split: option.splits)

lemma msg_next_cong: "msgs s' = msgs s \<Longrightarrow> msg_next s' = msg_next s"
  by (simp add: msg_next_def fun_eq_iff)

lemma msg_next_upd [simp]: "msg_next (s\<lparr>msgs := M(m := v)\<rparr>) = (msg_next (s\<lparr>msgs := M\<rparr>))(m := map_option m_next v)"
  by (auto simp: msg_next_def)

lemma msg_next_ios [simp]: "msg_next (s\<lparr>ios := X\<rparr>) = msg_next s"
  by (rule msg_next_cong) simp

lemma msg_abs_msgs: "msg_abs_at lk s i ms \<Longrightarrow> m \<in> set ms \<Longrightarrow> \<exists>x. msgs s m = Some x"
  by (auto elim!: msg_absD dest!: chain_allocated simp: msg_next_def)

text \<open>The thread object without the parts its message queue uses.\<close>

definition io_core :: "io_thread \<Rightarrow> io_thread" where
  "io_core I = I\<lparr>io_msg_queue_head := None, io_msg_queue_tail := None, io_msg_queue_mutex := Unlocked\<rparr>"

lemma msg_enqueue_exec:
  assumes abs: "msg_abs_at lk s i ms" and m: "msgs s m = Some x" "m_next x = None" "m \<notin> set ms"
  obtains I I' M where "ios s i = Some I" "msg_enqueue i m s = Inr ((), s\<lparr>msgs := M, ios := (ios s)(i \<mapsto> I')\<rparr>)"
    "msg_abs_at lk (s\<lparr>msgs := M, ios := (ios s)(i \<mapsto> I')\<rparr>) i (ms @ [m])" "io_core I' = io_core I"
    "\<And>k. map_option m_conn (M k) = map_option m_conn (msgs s k)"
    "\<And>k. k \<notin> set ms \<Longrightarrow> M k = msgs s k"
proof -
  from abs obtain I where I: "ios s i = Some I" "io_msg_queue_mutex I = lk" "chain (msg_next s) (io_msg_queue_head I) ms"
    "io_msg_queue_tail I = (if ms = [] then None else Some (last ms))" by (rule msg_absD)
  show ?thesis
  proof (cases ms rule: rev_cases)
    case Nil
    let ?I = "I\<lparr>io_msg_queue_head := Some m, io_msg_queue_tail := Some m\<rparr>"
    show ?thesis
    proof (rule that [of I ?I "msgs s"])
      show "msg_enqueue i m s = Inr ((), s\<lparr>msgs := msgs s, ios := (ios s)(i \<mapsto> ?I)\<rparr>)"
        using I Nil by (cases s) (simp add: msg_enqueue_def c_exec)
      show "msg_abs_at lk (s\<lparr>msgs := msgs s, ios := (ios s)(i \<mapsto> ?I)\<rparr>) i (ms @ [m])"
        using I Nil m by (simp add: msg_abs_at_def msg_next_def)
    qed (use I in \<open>simp_all add: io_core_def\<close>)
  next
    case (snoc ks l)
    then obtain y where y: "msgs s l = Some y" using msg_abs_msgs [OF abs, of l] by auto
    let ?I = "I\<lparr>io_msg_queue_tail := Some m\<rparr>" and ?M = "(msgs s)(l \<mapsto> y\<lparr>m_next := Some m\<rparr>)"
    have "msg_next s m = Some None" using m by (simp add: msg_next_def)
    then have "(msg_next s)(l := Some (Some m), m := Some None) = (msg_next s)(l := Some (Some m))"
      using m snoc by auto
    then have "chain ((msg_next s)(l := Some (Some m))) (io_msg_queue_head I) (ks @ [l, m])"
      using chain_snoc [of "msg_next s" "io_msg_queue_head I" ks l m] I(3) snoc m(3) chain_distinct [OF I(3)] by simp
    moreover have "msg_next (s\<lparr>msgs := msgs s\<rparr>) = msg_next s" by simp
    ultimately have abs': "msg_abs_at lk (s\<lparr>msgs := ?M, ios := (ios s)(i \<mapsto> ?I)\<rparr>) i (ms @ [m])"
      using I snoc by (simp add: msg_abs_at_def)
    show ?thesis
    proof (rule that [OF I(1) _ abs'])
      show "msg_enqueue i m s = Inr ((), s\<lparr>msgs := ?M, ios := (ios s)(i \<mapsto> ?I)\<rparr>)"
        using I snoc y by (simp add: msg_enqueue_def c_exec)
    qed (use snoc y in \<open>simp_all add: io_core_def\<close>)
  qed
qed

lemma msg_dequeue_exec:
  assumes "msg_abs_at lk s i (m # ms)"
  obtains I I' where "ios s i = Some I" "msg_dequeue i s = Inr (Some m, s\<lparr>ios := (ios s)(i \<mapsto> I')\<rparr>)"
    "msg_abs_at lk (s\<lparr>ios := (ios s)(i \<mapsto> I')\<rparr>) i ms" "io_core I' = io_core I"
proof -
  from assms obtain I where I: "ios s i = Some I" "io_msg_queue_mutex I = lk" "chain (msg_next s) (io_msg_queue_head I) (m # ms)"
    "io_msg_queue_tail I = Some (last (m # ms))" by (rule msg_absD) simp
  then obtain x where x: "io_msg_queue_head I = Some m" "msgs s m = Some x" "chain (msg_next s) (m_next x) ms"
    by (cases "msgs s m") (auto simp: msg_next_def [of s m])
  have empty: "m_next x = None \<longleftrightarrow> ms = []" using x(3) by (cases ms) auto
  let ?I = "I\<lparr>io_msg_queue_head := m_next x, io_msg_queue_tail := (if ms = [] then None else io_msg_queue_tail I)\<rparr>"
  show ?thesis
  proof (rule that [OF I(1), of ?I])
    show "msg_dequeue i s = Inr (Some m, s\<lparr>ios := (ios s)(i \<mapsto> ?I)\<rparr>)"
      using I(1) x empty by (cases I; cases "m_next x") (simp_all add: msg_dequeue_def c_exec c_defs)
    show "msg_abs_at lk (s\<lparr>ios := (ios s)(i \<mapsto> ?I)\<rparr>) i ms" using I x by (simp add: msg_abs_at_def)
  qed (simp add: io_core_def)
qed

lemma msg_dequeue_empty: "msg_abs_at lk s i [] \<Longrightarrow> msg_dequeue i s = Inr (None, s)"
  by (erule msg_absD) (simp add: msg_dequeue_def c_exec c_defs)

lemma msgq_lock_abs:
  assumes "msg_abs s i ms"
  obtains I where "ios s i = Some I" "msgq_lock i s = Inr ((), s\<lparr>ios := (ios s)(i \<mapsto> I\<lparr>io_msg_queue_mutex := Locked\<rparr>)\<rparr>)"
    "msg_abs_at Locked (s\<lparr>ios := (ios s)(i \<mapsto> I\<lparr>io_msg_queue_mutex := Locked\<rparr>)\<rparr>) i ms"
  using assms by (rule msg_absD) (simp add: msgq_lock_Some msg_abs_at_def)

lemma msgq_unlock_abs:
  assumes "msg_abs_at Locked s i ms"
  obtains I where "ios s i = Some I" "msgq_unlock i s = Inr ((), s\<lparr>ios := (ios s)(i \<mapsto> I\<lparr>io_msg_queue_mutex := Unlocked\<rparr>)\<rparr>)"
    "msg_abs (s\<lparr>ios := (ios s)(i \<mapsto> I\<lparr>io_msg_queue_mutex := Unlocked\<rparr>)\<rparr>) i ms"
  using assms by (rule msg_absD) (simp add: msgq_unlock_Some msg_abs_at_def)

lemma io_core_mutex [simp]: "io_core (I\<lparr>io_msg_queue_mutex := v\<rparr>) = io_core I"
  by (simp add: io_core_def)

interpretation mq: fifo_queue "\<lambda>s. msg_abs s i" "\<lambda>s m. \<exists>x. msgs s m = Some x \<and> m_next x = None" "\<lambda>_ _. True" "msg_push i" "msg_pop i" for i
proof unfold_locales
  fix s :: "'a io_store_scheme" and ms m and n :: nat
  assume abs: "msg_abs s i ms" and "\<exists>x. msgs s m = Some x \<and> m_next x = None" and new: "m \<notin> set ms"
  then obtain x where x: "msgs s m = Some x" "m_next x = None" by blast
  obtain I where I: "msgq_lock i s = Inr ((), s\<lparr>ios := (ios s)(i \<mapsto> I\<lparr>io_msg_queue_mutex := Locked\<rparr>)\<rparr>)"
    "msg_abs_at Locked (s\<lparr>ios := (ios s)(i \<mapsto> I\<lparr>io_msg_queue_mutex := Locked\<rparr>)\<rparr>) i ms" using abs by (rule msgq_lock_abs)
  obtain I1 M where 1: "msg_enqueue i m (s\<lparr>ios := (ios s)(i \<mapsto> I\<lparr>io_msg_queue_mutex := Locked\<rparr>)\<rparr>) =
      Inr ((), s\<lparr>msgs := M, ios := (ios s)(i \<mapsto> I1)\<rparr>)"
    "msg_abs_at Locked (s\<lparr>msgs := M, ios := (ios s)(i \<mapsto> I1)\<rparr>) i (ms @ [m])" "\<And>k. k \<notin> set ms \<Longrightarrow> M k = msgs s k"
    by (rule msg_enqueue_exec [OF I(2), of m x]) (use x new in auto)
  obtain I2 where 2: "msgq_unlock i (s\<lparr>msgs := M, ios := (ios s)(i \<mapsto> I1)\<rparr>) = Inr ((), s\<lparr>msgs := M, ios := (ios s)(i \<mapsto> I2)\<rparr>)"
    "msg_abs (s\<lparr>msgs := M, ios := (ios s)(i \<mapsto> I2)\<rparr>) i (ms @ [m])"
    by (rule msgq_unlock_abs [OF 1(2)]) auto
  show "\<exists>r s'. msg_push i m s = Inr (r, s') \<and> msg_abs s' i (ms @ [m]) \<and>
      (\<forall>y. (\<exists>x. msgs s y = Some x \<and> m_next x = None) \<longrightarrow> y \<notin> set (ms @ [m]) \<longrightarrow>
           (\<exists>x. msgs s' y = Some x \<and> m_next x = None)) \<and> True"
    using I(1) 1 2 by (auto simp: msg_push_def thenM_Inr)
next
  fix s :: "'a io_store_scheme" and ms m
  assume abs: "msg_abs s i (m # ms)"
  obtain I where I: "msgq_lock i s = Inr ((), s\<lparr>ios := (ios s)(i \<mapsto> I\<lparr>io_msg_queue_mutex := Locked\<rparr>)\<rparr>)"
    "msg_abs_at Locked (s\<lparr>ios := (ios s)(i \<mapsto> I\<lparr>io_msg_queue_mutex := Locked\<rparr>)\<rparr>) i (m # ms)" using abs by (rule msgq_lock_abs)
  obtain I1 where 1: "msg_dequeue i (s\<lparr>ios := (ios s)(i \<mapsto> I\<lparr>io_msg_queue_mutex := Locked\<rparr>)\<rparr>) =
      Inr (Some m, s\<lparr>ios := (ios s)(i \<mapsto> I1)\<rparr>)" "msg_abs_at Locked (s\<lparr>ios := (ios s)(i \<mapsto> I1)\<rparr>) i ms"
    by (rule msg_dequeue_exec [OF I(2)]) auto
  obtain I2 where 2: "msgq_unlock i (s\<lparr>ios := (ios s)(i \<mapsto> I1)\<rparr>) = Inr ((), s\<lparr>ios := (ios s)(i \<mapsto> I2)\<rparr>)"
    "msg_abs (s\<lparr>ios := (ios s)(i \<mapsto> I2)\<rparr>) i ms"
    by (rule msgq_unlock_abs [OF 1(2)]) auto
  show "\<exists>s'. msg_pop i s = Inr (Some m, s') \<and> msg_abs s' i ms"
    using I(1) 1 2 by (auto simp: msg_pop_def thenM_Inr bindM_Inr returnM_def)
qed

section \<open>Ownership with messages\<close>

text \<open>
  Every allocated message holds a reference too; \<open>ext\<close> now counts what is left, the registration of
  a connection with its I/O thread.
\<close>

abbreviation msg_refs :: "(addr \<Rightarrow> io_message option) \<Rightarrow> addr \<Rightarrow> nat" where
  "msg_refs \<equiv> refs_by m_conn"

definition io_owned :: "(addr \<Rightarrow> nat) \<Rightarrow> 'a io_store_scheme \<Rightarrow> bool" where
  "io_owned ext s \<longleftrightarrow> task_owned (\<lambda>a. msg_refs (msgs s) a + ext a) s \<and> finite (dom (msgs s)) \<and>
     (\<forall>a \<ge> next_addr s. msgs s a = None \<and> ios s a = None \<and> pools s a = None)"

text \<open>What the operations on the messages of thread \<open>i\<close> leave alone.\<close>

definition io_frame :: "addr \<Rightarrow> 'a io_store_scheme \<Rightarrow> 'a io_store_scheme \<Rightarrow> bool" where
  "io_frame i s s' \<longleftrightarrow> tasks s' = tasks s \<and> queues s' = queues s \<and> pools s' = pools s \<and> loops s' = loops s \<and>
     io_store.more s' = io_store.more s \<and> rx s' = rx s \<and> tx s' = tx s \<and> sent s' = sent s \<and> now s' = now s \<and>
     conn_body s' \<subseteq>\<^sub>m conn_body s \<and>
     (\<forall>j. j \<noteq> i \<longrightarrow> ios s' j = ios s j) \<and> map_option io_core (ios s' i) = map_option io_core (ios s i)"

lemma conn_body_io [simp]:
  "conn_body (s\<lparr>msgs := M\<rparr>) = conn_body s" "conn_body (s\<lparr>ios := X\<rparr>) = conn_body s" "conn_body (s\<lparr>pools := P\<rparr>) = conn_body s"
  by (simp_all add: conn_body_def fun_eq_iff)

lemma io_frameD:
  assumes "io_frame i s s'"
  shows "tasks s' = tasks s" "queues s' = queues s" "pools s' = pools s" "loops s' = loops s" "conn_body s' \<subseteq>\<^sub>m conn_body s"
    "j \<noteq> i \<Longrightarrow> ios s' j = ios s j" "map_option io_core (ios s' i) = map_option io_core (ios s i)"
  using assms by (simp_all add: io_frame_def)

lemma io_frame_refl [simp]: "io_frame i s s"
  by (simp add: io_frame_def)

lemma io_frame_trans: "io_frame i s s1 \<Longrightarrow> io_frame i s1 s2 \<Longrightarrow> io_frame i s s2"
  by (auto simp: io_frame_def elim: map_le_trans)

lemma conn_frame_io:
  assumes "conn_frame s s'"
  shows "io_frame i s s'" "msgs s' = msgs s" "ios s' = ios s"
proof -
  have more: "conn_store.more s' = conn_store.more s" using assms by (simp add: conn_frame_def)
  then have "pools s' = pools s \<and> msgs s' = msgs s \<and> ios s' = ios s \<and> io_store.more s' = io_store.more s"
    by (cases s; cases s') simp
  then show "io_frame i s s'" "msgs s' = msgs s" "ios s' = ios s"
    using conn_frameD [OF assms] conn_frame_tasks [OF assms] by (simp_all add: io_frame_def)
qed

lemma interest_frame_io:
  assumes "interest_frame s s'"
  shows "io_frame i s s'" "msgs s' = msgs s" "ios s' = ios s" "conns s' = conns s"
proof -
  have "conns s' = conns s \<and> tasks s' = tasks s \<and> queues s' = queues s \<and> pools s' = pools s \<and> msgs s' = msgs s \<and>
      ios s' = ios s \<and> io_store.more s' = io_store.more s"
    using interest_frame_loops [OF assms] by (cases s; cases s') simp
  then show "io_frame i s s'" "msgs s' = msgs s" "ios s' = ios s" "conns s' = conns s"
    using interest_frameD [OF assms] interest_frame_loops [OF assms] by (simp_all add: io_frame_def conn_body_cong [of s' s])
qed

lemma io_ownedD:
  assumes "io_owned ext s"
  shows "task_owned (\<lambda>a. msg_refs (msgs s) a + ext a) s" "conns_wf s" "finite (dom (msgs s))" "msgs s (next_addr s) = None"
  using assms by (simp_all add: io_owned_def task_owned_def)

lemma io_owned_cong:
  assumes "conns s' = conns s" "tasks s' = tasks s" "queues s' = queues s" "pools s' = pools s" "next_addr s' = next_addr s"
    "\<And>k. map_option m_conn (msgs s' k) = map_option m_conn (msgs s k)" "\<And>k. ios s' k = None \<longleftrightarrow> ios s k = None"
  shows "io_owned ext s' = io_owned ext s"
proof -
  have dom: "dom (msgs s') = dom (msgs s)" "msgs s' k = None \<longleftrightarrow> msgs s k = None" for k
    using assms(6) by (auto simp: dom_def) (metis option.map_disc_iff not_Some_eq)+
  have "msg_refs (msgs s') = msg_refs (msgs s)" using assms(6) by (rule refs_by_cong)
  then show ?thesis
    using assms(4,5,7) dom task_owned_cong [OF assms(1-3,5)] by (simp add: io_owned_def)
qed

text \<open>A connection with a reference from \<open>ext\<close>, a task or a message is alive.\<close>

lemma io_owned_msg_live:
  assumes "io_owned ext s" and "msgs s m = Some x" and "m_conn x = Some a"
  shows "conns s a \<noteq> None" "msg_refs (msgs s) a \<noteq> 0"
proof -
  have "msg_refs (msgs s) a \<noteq> 0"
    using refs_by_del [where f = m_conn, OF io_ownedD(3) [OF assms(1)] assms(2,3)] by (metis fun_upd_same nat.distinct(1))
  then show "conns s a \<noteq> None" "msg_refs (msgs s) a \<noteq> 0"
    using task_owned_live [OF io_ownedD(1) [OF assms(1)], of a] by simp_all
qed

lemma io_owned_ext_live: "io_owned ext s \<Longrightarrow> ext a \<noteq> 0 \<Longrightarrow> conns s a \<noteq> None"
  using task_owned_live [of "\<lambda>a. msg_refs (msgs s) a + ext a" s a] by (simp add: io_owned_def)

lemma io_owned_wf: "io_owned ext s \<Longrightarrow> conns s a = Some c \<Longrightarrow> conn_wf c"
  using conns_wfD io_ownedD(2) by blast

text \<open>Dropping the reference of a message together with the message.\<close>

lemma msg_release_owned:
  assumes own: "io_owned ext s" and m: "msgs s m = Some x"
  shows "\<exists>s'. conn_release (m_conn x) s = Inr ((), s') \<and> conn_frame s s' \<and> io_owned ext (s'\<lparr>msgs := (msgs s)(m := None)\<rparr>)"
proof (cases "m_conn x")
  case None
  have "msg_refs ((msgs s)(m := None)) = msg_refs (msgs s)" using m None by (rule refs_by_del_null [where T = "msgs s" and x = x])
  then have "io_owned ext (s\<lparr>msgs := (msgs s)(m := None)\<rparr>)"
    using own task_owned_cong [of "s\<lparr>msgs := (msgs s)(m := None)\<rparr>" s] by (simp add: io_owned_def)
  with None show ?thesis by (auto simp: conn_release_def returnM_def)
next
  case (Some a)
  let ?e = "\<lambda>b. msg_refs (msgs s) b + ext b" and ?M = "(msgs s)(m := None)"
  have refs: "msg_refs (msgs s) = (msg_refs ?M)(a := Suc (msg_refs ?M a))"
    by (rule refs_by_del [where f = m_conn, OF io_ownedD(3) [OF own] m Some])
  then have "?e a \<noteq> 0" by simp
  from release_owned [OF io_ownedD(1) [OF own] this] obtain s' where
    s': "conn_release (Some a) s = Inr ((), s')" "task_owned (?e(a := ?e a - 1)) s'" "conn_frame s s'" by blast
  have "?e(a := ?e a - 1) = (\<lambda>b. msg_refs ?M b + ext b)" using refs by (auto simp: fun_eq_iff)
  with s'(2) have "task_owned (\<lambda>b. msg_refs ?M b + ext b) (s'\<lparr>msgs := ?M\<rparr>)"
    using task_owned_cong [of "s'\<lparr>msgs := ?M\<rparr>" s'] by simp
  then have "io_owned ext (s'\<lparr>msgs := ?M\<rparr>)"
    using own conn_frame_io(1,3) [OF s'(3)] conn_frameD(2) [OF s'(3)] by (simp add: io_owned_def io_frame_def)
  with s' Some show ?thesis by auto
qed

section \<open>Sending\<close>

lemma msg_abs_at_cong: "ios s' i = ios s i \<Longrightarrow> (\<And>m. m \<in> set ms \<Longrightarrow> msgs s' m = msgs s m) \<Longrightarrow> msg_abs_at lk s' i ms = msg_abs_at lk s i ms"
  using chain_cong [of ms "msg_next s'" "msg_next s"] by (cases "ios s i") (simp_all add: msg_abs_at_def msg_next_def)

lemma msg_abs_relock:
  "msg_abs_at lk s i ms \<Longrightarrow> ios s i = Some I \<Longrightarrow> msg_abs_at lk' (s\<lparr>ios := (ios s)(i \<mapsto> I\<lparr>io_msg_queue_mutex := lk'\<rparr>)\<rparr>) i ms"
  by (simp add: msg_abs_at_def)

lemma map_option_core: "map_option io_core (X i) = Some c \<longleftrightarrow> (\<exists>I. X i = Some I \<and> io_core I = c)"
  by (cases "X i") auto

lemma pipe_write_exec:
  obtains n where "sys_pipe_write fd cs s = Inr (n, s\<lparr>pipe_buf := (pipe_buf s)(pipe_peer s fd := pipe_buf s (pipe_peer s fd) @ cs)\<rparr>)"
  | n e where "sys_pipe_write fd cs s = Inr (n, s\<lparr>errno := e\<rparr>)"
      "fd \<in> fd_open s \<Longrightarrow> PIPE_CAPACITY < length (pipe_buf s (pipe_peer s fd)) + length cs"
  by (cases "fd \<in> fd_open s"; cases "length (pipe_buf s (pipe_peer s fd)) + length cs \<le> PIPE_CAPACITY")
     (auto simp: sys_pipe_write_def Let_def)

lemma errno_pipe_frame [simp]:
  "io_owned ext (s\<lparr>errno := e\<rparr>) = io_owned ext s" "io_owned ext (s\<lparr>pipe_buf := p\<rparr>) = io_owned ext s"
  "io_frame i s0 (s\<lparr>errno := e\<rparr>) = io_frame i s0 s" "io_frame i s0 (s\<lparr>pipe_buf := p\<rparr>) = io_frame i s0 s"
  "msg_abs_at lk (s\<lparr>errno := e\<rparr>) i ms = msg_abs_at lk s i ms" "msg_abs_at lk (s\<lparr>pipe_buf := p\<rparr>) i ms = msg_abs_at lk s i ms"
  by (rule io_owned_cong; simp) (rule io_owned_cong; simp | simp add: io_frame_def | rule msg_abs_at_cong; simp)+

text \<open>The state in which \<open>io_thread_send_message\<close> writes to the pipe: the message is linked and holds its reference.\<close>

lemma send_message_linked:
  assumes own: "io_owned ext s" and a: "conns s a \<noteq> None" and abs: "msg_abs s i ms" and alloc: "False \<notin> set (take 1 (mem s))"
  obtains s1 I where "io_thread_send_message (Some i) ty (Some a) s =
      bindM (sys_pipe_write (snd (io_msg_pipe_fd I)) [PByte 1]) (\<lambda>_. returnM ()) s1"
    "ios s1 i = Some I" "io_owned ext s1" "io_frame i s s1" "conn_body s1 = conn_body s" "msg_abs s1 i (ms @ [next_addr s])"
    "map_option (\<lambda>x. (m_type x, m_conn x)) (msgs s1 (next_addr s)) = Some (ty, Some a)"
    "\<And>k. k \<notin> set ms \<Longrightarrow> k \<noteq> next_addr s \<Longrightarrow> msgs s1 k = msgs s k"
    "next_addr s1 = Suc (next_addr s)" "mem s1 = drop 1 (mem s)" "fd_open s1 = fd_open s" "pipe_peer s1 = pipe_peer s" "pipe_buf s1 = pipe_buf s"
proof -
  let ?m = "next_addr s" and ?e = "\<lambda>b. msg_refs (msgs s) b + ext b"
  let ?x = "\<lparr>m_type = ty, m_conn = Some a, m_next = None\<rparr>"
  obtain I where I: "ios s i = Some I" "io_msg_queue_mutex I = Unlocked" using abs by (rule msg_absD)
  let ?s = "s\<lparr>next_addr := Suc ?m, mem := drop 1 (mem s), msgs := (msgs s)(?m \<mapsto> ?x), ios := (ios s)(i \<mapsto> I\<lparr>io_msg_queue_mutex := Locked\<rparr>)\<rparr>"
  have "task_owned ?e ?s" using io_ownedD(1) [OF own] by (rule task_owned_alloc) simp_all
  from acquire_owned [OF this, of a] a obtain s2 where s2: "conn_acquire (Some a) ?s = Inr ((), s2)" "task_owned (?e(a := Suc (?e a))) s2"
      "conn_frame ?s s2" "conn_body s2 = conn_body ?s" by auto
  have fd2: "fd_open s2 = fd_open ?s"
    using conn_frame_acquire(3) [OF task_ownedD(1) [OF \<open>task_owned ?e ?s\<close>] s2(1)] .
  note f2 = conn_frame_io(1) [OF s2(3), of i] conn_frame_io(2,3) [OF s2(3)] conn_frameD(2,3,7,8) [OF s2(3)]
  have fresh: "?m \<notin> set ms" using msg_abs_msgs [OF abs, of ?m] io_ownedD(4) [OF own] by auto
  have "msg_abs (s\<lparr>next_addr := Suc ?m, mem := drop 1 (mem s), msgs := (msgs s)(?m \<mapsto> ?x)\<rparr>) i ms"
    using abs fresh by (subst msg_abs_at_cong [of _ i s]) auto
  from msg_abs_relock [OF this, of I Locked] I(1) have "msg_abs_at Locked ?s i ms" by simp
  then have "msg_abs_at Locked s2 i ms" using f2(2,3) by (subst msg_abs_at_cong [of s2 i ?s]) auto
  moreover have "msgs s2 ?m = Some ?x" using f2(2) by simp
  ultimately obtain I2 I3 M where 3: "ios s2 i = Some I2" "msg_enqueue i ?m s2 = Inr ((), s2\<lparr>msgs := M, ios := (ios s2)(i \<mapsto> I3)\<rparr>)"
      "msg_abs_at Locked (s2\<lparr>msgs := M, ios := (ios s2)(i \<mapsto> I3)\<rparr>) i (ms @ [?m])" "io_core I3 = io_core I2"
      "\<And>k. map_option m_conn (M k) = map_option m_conn (msgs s2 k)" "\<And>k. k \<notin> set ms \<Longrightarrow> M k = msgs s2 k"
    using msg_enqueue_exec [of Locked s2 i ms ?m ?x] fresh by auto
  obtain I4 where 4: "msgq_unlock i (s2\<lparr>msgs := M, ios := (ios s2)(i \<mapsto> I3)\<rparr>) = Inr ((), s2\<lparr>msgs := M, ios := (ios s2)(i \<mapsto> I4)\<rparr>)"
      "msg_abs (s2\<lparr>msgs := M, ios := (ios s2)(i \<mapsto> I4)\<rparr>) i (ms @ [?m])" "io_core I4 = io_core I"
    by (rule msgq_unlock_abs [OF 3(3)]) (use 3(1,4) f2(3) in auto)
  let ?s1 = "s2\<lparr>msgs := M, ios := (ios s2)(i \<mapsto> I4)\<rparr>"
  have "msg_refs M = msg_refs ((msgs s)(?m \<mapsto> ?x))" using 3(5) f2(2) by (intro refs_by_cong) simp
  also have "\<dots> = (msg_refs (msgs s))(a := Suc (msg_refs (msgs s) a))"
    by (rule refs_by_new [where f = m_conn]) (use io_ownedD(3,4) [OF own] in simp_all)
  finally have "?e(a := Suc (?e a)) = (\<lambda>b. msg_refs M b + ext b)" by (auto simp: fun_eq_iff)
  then have "task_owned (\<lambda>b. msg_refs (msgs ?s1) b + ext b) ?s1"
    using s2(2) task_owned_cong [of ?s1 s2] by simp
  moreover have dom: "M k = None \<longleftrightarrow> ((msgs s)(?m \<mapsto> ?x)) k = None" for k
  proof -
    have "map_option m_conn (M k) = map_option m_conn (((msgs s)(?m \<mapsto> ?x)) k)" using 3(5) [of k] f2(2) by simp
    then show ?thesis by (metis option.map_disc_iff)
  qed
  moreover have "dom M = dom ((msgs s)(?m \<mapsto> ?x))" by (simp only: dom_def dom)
  moreover have "i < ?m" using own I(1) by (rule_tac ccontr) (auto simp: io_owned_def not_less)
  ultimately have own1: "io_owned ext ?s1"
    using own f2(1,3,4) 3(1) by (auto simp: io_owned_def io_frame_def)
  have frame: "io_frame i s ?s1" "conn_body ?s1 = conn_body s"
    using f2(1,3) 4(3) I(1) s2(4) by (simp_all add: io_frame_def)
  have x: "map_option (\<lambda>x. (m_type x, m_conn x)) (msgs ?s1 ?m) = Some (ty, Some a)"
    using 3(6) [OF fresh] f2(2) by simp
  have run: "io_thread_send_message (Some i) ty (Some a) s = bindM (sys_pipe_write (snd (io_msg_pipe_fd I4)) [PByte 1]) (\<lambda>_. returnM ()) ?s1"
    using I s2(1) 3(2) 4(1) alloc
    by (simp add: io_thread_send_message_def malloc_ok bindM_Inr thenM_Inr msgq_lock_Some io_load_Some)
  show ?thesis
    by (rule that [OF run _ own1 frame 4(2) x]) (use 3(6) f2 fd2 in auto)
qed

lemma send_message_owned:
  assumes own: "io_owned ext s" and a: "conns s a \<noteq> None" and abs: "msg_abs s i ms" and I: "ios s i = Some I"
  shows "\<exists>s'. io_thread_send_message (Some i) ty (Some a) s = Inr ((), s') \<and> io_owned ext s' \<and> io_frame i s s' \<and>
           conn_body s' = conn_body s \<and> (\<forall>k. k \<notin> set ms \<longrightarrow> k \<noteq> next_addr s \<longrightarrow> msgs s' k = msgs s k) \<and>
           (if False \<in> set (take 1 (mem s)) then msg_abs s' i ms \<and> msgs s' = msgs s
            else msg_abs s' i (ms @ [next_addr s]) \<and>
                 map_option (\<lambda>x. (m_type x, m_conn x)) (msgs s' (next_addr s)) = Some (ty, Some a) \<and>
                 (snd (io_msg_pipe_fd I) \<in> fd_open s \<longrightarrow> pipe_buf s' (pipe_peer s (snd (io_msg_pipe_fd I))) \<noteq> []))"
proof (cases "False \<in> set (take 1 (mem s))")
  case True
  then obtain m where "mem s = False # m" by (cases "mem s") auto
  then have "io_thread_send_message (Some i) ty (Some a) s = Inr ((), s\<lparr>mem := m\<rparr>)"
    by (simp add: io_thread_send_message_def malloc_fail bindM_def returnM_def)
  moreover have "io_owned ext (s\<lparr>mem := m\<rparr>)" using own by (subst io_owned_cong [of _ s]) simp_all
  moreover have "msg_abs (s\<lparr>mem := m\<rparr>) i ms" using abs by (subst msg_abs_at_cong [of _ i s]) simp_all
  moreover have "io_frame i s (s\<lparr>mem := m\<rparr>)" by (simp add: io_frame_def)
  ultimately show ?thesis using True by simp
next
  case False
  obtain s1 I1 where 1: "io_thread_send_message (Some i) ty (Some a) s =
      bindM (sys_pipe_write (snd (io_msg_pipe_fd I1)) [PByte 1]) (\<lambda>_. returnM ()) s1"
    "ios s1 i = Some I1" "io_owned ext s1" "io_frame i s s1" "conn_body s1 = conn_body s" "msg_abs s1 i (ms @ [next_addr s])"
    "map_option (\<lambda>x. (m_type x, m_conn x)) (msgs s1 (next_addr s)) = Some (ty, Some a)"
    "\<And>k. k \<notin> set ms \<Longrightarrow> k \<noteq> next_addr s \<Longrightarrow> msgs s1 k = msgs s k"
    "fd_open s1 = fd_open s" "pipe_peer s1 = pipe_peer s" "pipe_buf s1 = pipe_buf s"
    by (rule send_message_linked [OF own a abs False, of ty]) blast
  have "io_core I1 = io_core I" using io_frameD(7) [OF 1(4)] I 1(2) by simp
  then have pipe: "io_msg_pipe_fd I1 = io_msg_pipe_fd I" unfolding io_core_def by (cases I; cases I1) simp
  let ?fd = "snd (io_msg_pipe_fd I)"
  show ?thesis
  proof (rule pipe_write_exec [of ?fd "[PByte 1]" s1])
    fix n
    let ?s = "s1\<lparr>pipe_buf := (pipe_buf s1)(pipe_peer s1 ?fd := pipe_buf s1 (pipe_peer s1 ?fd) @ [PByte 1])\<rparr>"
    assume "sys_pipe_write ?fd [PByte 1] s1 = Inr (n, ?s)"
    then show ?thesis using 1 pipe False by (intro exI [of _ ?s]) (simp add: bindM_Inr returnM_def)
  next
    fix n e assume *: "sys_pipe_write ?fd [PByte 1] s1 = Inr (n, s1\<lparr>errno := e\<rparr>)"
      and "?fd \<in> fd_open s1 \<Longrightarrow> PIPE_CAPACITY < length (pipe_buf s1 (pipe_peer s1 ?fd)) + length [PByte 1]"
    then have "?fd \<in> fd_open s \<longrightarrow> pipe_buf s (pipe_peer s ?fd) \<noteq> []" using 1(9-11) by (auto simp: PIPE_CAPACITY_def)
    then show ?thesis using * 1 pipe False by (intro exI [of _ "s1\<lparr>errno := e\<rparr>"]) (simp add: bindM_Inr returnM_def)
  qed
qed

text \<open>
  C20. Sending: \<open>io_thread_send_message\<close> about a live connection never faults. Unless the allocation of the
  message fails, the message is appended to the thread's queue and holds a reference of its own,
  and when the write end of the message pipe is open the pipe is readable afterwards, whether or not there
  was room for the wake-up byte. If the allocation fails nothing is sent and no reference is taken.
\<close>

theorem io_thread_send_message_delivers:
  assumes "io_owned ext s" and "conns s a \<noteq> None" and "msg_abs s i ms"
    and "ios s i = Some I" and "snd (io_msg_pipe_fd I) \<in> fd_open s"
  shows "\<exists>s'. io_thread_send_message (Some i) ty (Some a) s = Inr ((), s') \<and> io_owned ext s' \<and> io_frame i s s' \<and>
           (if False \<in> set (take 1 (mem s)) then msg_abs s' i ms \<and> msgs s' = msgs s
            else msg_abs s' i (ms @ [next_addr s]) \<and>
                 map_option (\<lambda>x. (m_type x, m_conn x)) (msgs s' (next_addr s)) = Some (ty, Some a) \<and>
                 pipe_buf s' (pipe_peer s (snd (io_msg_pipe_fd I))) \<noteq> [])"
  using send_message_owned [OF assms(1-4), of ty] assms(5)
  by (elim exE) (rule_tac x = s' in exI, simp split: if_splits)

section \<open>Receiving\<close>

text \<open>An I/O thread whose event loop exists.\<close>

definition io_live :: "'a io_store_scheme \<Rightarrow> addr \<Rightarrow> bool" where
  "io_live s i \<longleftrightarrow> (case ios s i of None \<Rightarrow> False
     | Some I \<Rightarrow> (case io_event_loop I of None \<Rightarrow> False | Some l \<Rightarrow> loops s l \<noteq> None))"

lemma io_liveD:
  assumes "io_live s i"
  obtains I l L where "ios s i = Some I" "io_event_loop I = Some l" "loops s l = Some L"
  using assms by (auto simp: io_live_def split: option.splits)

lemma io_core_fields:
  assumes "io_core I' = io_core I"
  shows "io_event_loop I' = io_event_loop I" "io_worker_pool I' = io_worker_pool I" "io_stats_mutex I' = io_stats_mutex I"
    "io_pipe_fd I' = io_pipe_fd I" "io_msg_pipe_fd I' = io_msg_pipe_fd I"
  using assms by (cases I; cases I'; simp add: io_core_def)+

lemma io_live_frame: "io_frame i s s' \<Longrightarrow> io_live s i \<Longrightarrow> io_live s' i"
  by (cases "ios s i"; cases "ios s' i") (auto simp: io_frame_def io_live_def dest: io_core_fields(1) split: option.splits)

lemma io_live_upd: "io_live s i \<Longrightarrow> ios s i = Some I \<Longrightarrow> io_core I' = io_core I \<Longrightarrow> io_live (s\<lparr>ios := (ios s)(i \<mapsto> I')\<rparr>) i"
  by (auto simp: io_live_def dest: io_core_fields(1) split: option.splits)

lemma handle_message_owned:
  assumes own: "io_owned ext s" and m: "msgs s m = Some x" and live: "io_live s i"
  shows "\<exists>s'. handle_message i m s = Inr ((), s') \<and> io_owned ext s' \<and> io_frame i s s' \<and> msgs s' = (msgs s)(m := None) \<and> ios s' = ios s"
proof -
  let ?watch = "whenM (m_type x = IO_MSG_RESPONSE_READY)
             (bindM (conn_is_valid (m_conn x)) (\<lambda>valid.
              whenM valid
                (bindM (io_load i) (\<lambda>I.
                 bindM (derefM conns (m_conn x)) (\<lambda>c.
                 bindM (event_loop_mod (io_event_loop I) (c_fd c) (EVENT_WRITE OR EVENT_ET) (U_Conn (the (m_conn x))))
                       (\<lambda>_. returnM ()))))))"
  have "\<exists>s1. ?watch s = Inr ((), s1) \<and> interest_frame s s1"
  proof (cases "m_conn x")
    case None then show ?thesis by (simp add: whenM_def conn_is_valid_def returnM_def)
  next
    case (Some a)
    obtain c where c: "conns s a = Some c" "c_mutex c = Unlocked"
      using io_owned_msg_live(1) [OF own m Some] io_owned_wf [OF own] by (auto simp: conn_wf_def)
    obtain I l L where I: "ios s i = Some I" "io_event_loop I = Some l" "loops s l = Some L" using live by (rule io_liveD)
    obtain r s1 where "event_loop_mod (Some l) (c_fd c) (EVENT_WRITE OR EVENT_ET) (U_Conn a) s = Inr (r, s1)" "interest_frame s s1"
      using event_loop_ops_frame(2) [OF I(3)] by blast
    then show ?thesis
      using Some c I by (cases "c_closing c \<or> c_state c = CONN_STATE_CLOSED"; cases "m_type x = IO_MSG_RESPONSE_READY")
        (auto simp: whenM_def returnM_def bindM_Inr conn_is_valid_Some io_load_Some derefM_def)
  qed
  then obtain s1 where s1: "?watch s = Inr ((), s1)" "interest_frame s s1" by blast
  note f1 = interest_frame_io [OF s1(2)]
  have own1: "io_owned ext s1"
    using own f1(2-4) io_frameD(1-3) [OF f1(1)] interest_frameD(7) [OF s1(2)] by (subst io_owned_cong [of s1 s]) auto
  obtain s2 where s2: "conn_release (m_conn x) s1 = Inr ((), s2)" "conn_frame s1 s2" "io_owned ext (s2\<lparr>msgs := (msgs s1)(m := None)\<rparr>)"
    using msg_release_owned [OF own1, of m x] m f1(2) by auto
  have "io_frame i s s2" using io_frame_trans f1(1) conn_frame_io(1) [OF s2(2)] by blast
  then have "io_frame i s (s2\<lparr>msgs := (msgs s)(m := None)\<rparr>)" by (simp add: io_frame_def)
  moreover have "handle_message i m s = Inr ((), s2\<lparr>msgs := (msgs s)(m := None)\<rparr>)"
    using m s1(1) s2(1) f1(2) conn_frame_io(2) [OF s2(2)] by (simp add: handle_message_def bindM_Inr msg_load_Some thenM_Inr modifyM_def)
  ultimately show ?thesis using s2(3) f1(2,3) conn_frame_io(3) [OF s2(2)] by simp
qed

lemma io_owned_ios: "io_owned ext s \<Longrightarrow> ios s i = Some I \<Longrightarrow> io_owned ext (s\<lparr>ios := (ios s)(i \<mapsto> I')\<rparr>)"
  by (subst io_owned_cong [of _ s]) auto

lemma io_frame_ios: "ios s i = Some I \<Longrightarrow> io_core I' = io_core I \<Longrightarrow> io_frame i s (s\<lparr>ios := (ios s)(i \<mapsto> I')\<rparr>)"
  by (simp add: io_frame_def)

lemma drain_loop_owned:
  "io_owned ext s \<Longrightarrow> msg_abs_at Locked s i ms \<Longrightarrow> io_live s i \<Longrightarrow> length ms \<le> fuel \<Longrightarrow>
     \<exists>s'. drain_loop fuel i s = Inr ((), s') \<and> msg_abs_at Locked s' i [] \<and> io_owned ext s' \<and> io_frame i s s' \<and>
          msgs s' = msgs s |` (- set ms)"
proof (induction ms arbitrary: s fuel)
  case Nil
  then show ?case by (subst drain_loop.simps) (simp add: bindM_Inr msg_dequeue_empty returnM_def restrict_map_def)
next
  case (Cons m ms)
  then obtain f where f: "fuel = Suc f" "length ms \<le> f" by (cases fuel) auto
  obtain x where x: "msgs s m = Some x" using msg_abs_msgs [OF Cons.prems(2), of m] by auto
  obtain I I1 where 1: "ios s i = Some I" "msg_dequeue i s = Inr (Some m, s\<lparr>ios := (ios s)(i \<mapsto> I1)\<rparr>)"
      "msg_abs_at Locked (s\<lparr>ios := (ios s)(i \<mapsto> I1)\<rparr>) i ms" "io_core I1 = io_core I"
    using Cons.prems(2) by (rule msg_dequeue_exec)
  obtain I2 where 2: "msgq_unlock i (s\<lparr>ios := (ios s)(i \<mapsto> I1)\<rparr>) = Inr ((), s\<lparr>ios := (ios s)(i \<mapsto> I2)\<rparr>)"
      "msg_abs (s\<lparr>ios := (ios s)(i \<mapsto> I2)\<rparr>) i ms" "io_core I2 = io_core I"
    by (rule msgq_unlock_abs [OF 1(3)]) (use 1(4) in auto)
  let ?s2 = "s\<lparr>ios := (ios s)(i \<mapsto> I2)\<rparr>"
  have s2: "io_owned ext ?s2" "io_frame i s ?s2" "io_live ?s2 i"
    using io_owned_ios [OF Cons.prems(1) 1(1)] io_frame_ios [OF 1(1) 2(3)] io_live_upd [OF Cons.prems(3) 1(1) 2(3)] by auto
  obtain s3 where s3: "handle_message i m ?s2 = Inr ((), s3)" "io_owned ext s3" "io_frame i ?s2 s3" "msgs s3 = (msgs s)(m := None)" "ios s3 = ios ?s2"
    using handle_message_owned [OF s2(1) _ s2(3), of m x] x by auto
  have "m \<notin> set ms" using Cons.prems(2) by (auto elim!: msg_absD dest: chain_distinct)
  then have "msg_abs s3 i ms" using 2(2) s3(4,5) by (subst msg_abs_at_cong [of _ i ?s2]) auto
  then obtain I3 where 4: "ios s3 i = Some I3" "msgq_lock i s3 = Inr ((), s3\<lparr>ios := (ios s3)(i \<mapsto> I3\<lparr>io_msg_queue_mutex := Locked\<rparr>)\<rparr>)"
      "msg_abs_at Locked (s3\<lparr>ios := (ios s3)(i \<mapsto> I3\<lparr>io_msg_queue_mutex := Locked\<rparr>)\<rparr>) i ms" by (rule msgq_lock_abs)
  let ?s4 = "s3\<lparr>ios := (ios s3)(i \<mapsto> I3\<lparr>io_msg_queue_mutex := Locked\<rparr>)\<rparr>"
  have s4: "io_owned ext ?s4" "io_frame i s ?s4"
    using io_owned_ios [OF s3(2) 4(1)] io_frame_trans [OF io_frame_trans [OF s2(2) s3(3)]]
      io_frame_ios [OF 4(1), of "I3\<lparr>io_msg_queue_mutex := Locked\<rparr>"] by simp_all
  then have "io_live ?s4 i" using io_live_frame Cons.prems(3) by blast
  then obtain s5 where s5: "drain_loop f i ?s4 = Inr ((), s5)" "msg_abs_at Locked s5 i []" "io_owned ext s5" "io_frame i ?s4 s5"
      "msgs s5 = msgs ?s4 |` (- set ms)" using Cons.IH [OF s4(1) 4(3) _ f(2)] by blast
  have "msgs s5 = msgs s |` (- set (m # ms))" using s5(5) s3(4) by (auto simp: restrict_map_def)
  moreover have "drain_loop fuel i s = Inr ((), s5)"
    using f(1) 1(2) 2(1) s3(1) 4(2) s5(1) by (subst drain_loop.simps) (simp add: bindM_Inr thenM_Inr)
  ultimately show ?case using s5 io_frame_trans [OF s4(2) s5(4)] by blast
qed

lemma msg_event_owned:
  assumes "io_owned ext s" and "msg_abs s i ms" and "io_live s i" and "length ms \<le> fuel"
  shows "\<exists>s'. handle_msg_event fuel i s = Inr ((), s') \<and> msg_abs s' i [] \<and> io_owned ext s' \<and> io_frame i s s' \<and>
           msgs s' = msgs s |` (- set ms)"
proof -
  obtain I where I: "ios s i = Some I" using assms(2) by (rule msg_absD)
  have "\<exists>r s0. sys_pipe_read (fst (io_msg_pipe_fd I)) 1 s = Inr (r, s0) \<and> ((\<exists>e. s0 = s\<lparr>errno := e\<rparr>) \<or> (\<exists>p. s0 = s\<lparr>pipe_buf := p\<rparr>))"
    by (auto simp: sys_pipe_read_def split: list.splits)
  then obtain r s0 where s0: "sys_pipe_read (fst (io_msg_pipe_fd I)) 1 s = Inr (r, s0)" and
    "(\<exists>e. s0 = s\<lparr>errno := e\<rparr>) \<or> (\<exists>p. s0 = s\<lparr>pipe_buf := p\<rparr>)" by blast
  then have 0: "io_owned ext s0" "msg_abs s0 i ms" "io_frame i s s0" "msgs s0 = msgs s" using assms by auto
  obtain J where 1: "ios s0 i = Some J" "msgq_lock i s0 = Inr ((), s0\<lparr>ios := (ios s0)(i \<mapsto> J\<lparr>io_msg_queue_mutex := Locked\<rparr>)\<rparr>)"
      "msg_abs_at Locked (s0\<lparr>ios := (ios s0)(i \<mapsto> J\<lparr>io_msg_queue_mutex := Locked\<rparr>)\<rparr>) i ms" using 0(2) by (rule msgq_lock_abs)
  let ?s1 = "s0\<lparr>ios := (ios s0)(i \<mapsto> J\<lparr>io_msg_queue_mutex := Locked\<rparr>)\<rparr>"
  have s1: "io_owned ext ?s1" "io_frame i s ?s1"
    using io_owned_ios [OF 0(1) 1(1)] io_frame_trans [OF 0(3)] io_frame_ios [OF 1(1), of "J\<lparr>io_msg_queue_mutex := Locked\<rparr>"] by auto
  obtain s2 where s2: "drain_loop fuel i ?s1 = Inr ((), s2)" "msg_abs_at Locked s2 i []" "io_owned ext s2" "io_frame i ?s1 s2"
      "msgs s2 = msgs s |` (- set ms)"
    using drain_loop_owned [OF s1(1) 1(3) io_live_frame [OF s1(2) assms(3)] assms(4)] 0(4) by auto
  obtain K where K: "ios s2 i = Some K" "msgq_unlock i s2 = Inr ((), s2\<lparr>ios := (ios s2)(i \<mapsto> K\<lparr>io_msg_queue_mutex := Unlocked\<rparr>)\<rparr>)"
      "msg_abs (s2\<lparr>ios := (ios s2)(i \<mapsto> K\<lparr>io_msg_queue_mutex := Unlocked\<rparr>)\<rparr>) i []" using s2(2) by (rule msgq_unlock_abs)
  let ?s3 = "s2\<lparr>ios := (ios s2)(i \<mapsto> K\<lparr>io_msg_queue_mutex := Unlocked\<rparr>)\<rparr>"
  have "io_frame i s ?s3"
    using io_frame_trans [OF io_frame_trans [OF s1(2) s2(4)]] io_frame_ios [OF K(1), of "K\<lparr>io_msg_queue_mutex := Unlocked\<rparr>"] by simp
  moreover have "handle_msg_event fuel i s = Inr ((), ?s3)"
    using I s0 1(2) s2(1) K(2) by (simp add: handle_msg_event_def bindM_Inr thenM_Inr io_load_Some)
  ultimately show ?thesis using K(3) io_owned_ios [OF s2(3) K(1)] s2(5) by (intro exI [of _ ?s3]) simp
qed


section \<open>A concrete thread\<close>

text \<open>Thread 80 watches connection 0 through loop 70 and has message 90 about it in its queue.\<close>

definition demo_loop :: event_loop where
  "demo_loop = \<lparr>l_impl = Some (Epoll 3 64), l_ops = Some epoll_ops, l_max_events = 64\<rparr>"

definition demo_io_thread :: io_thread where
  "demo_io_thread =
     \<lparr>io_thread_index = 0, io_event_loop = Some 70, io_worker_pool = Some 60, io_pipe_fd = (10, 11), io_shutdown = False,
      io_msg_queue_head = Some 90, io_msg_queue_tail = Some 90, io_msg_queue_mutex = Unlocked, io_msg_pipe_fd = (12, 13),
      io_connections_handled = 0, io_bytes_read = 0, io_bytes_written = 0, io_stats_mutex = Unlocked\<rparr>"

definition demo_io_store :: io_store where
  "demo_io_store = pool_store.extend
     (demo_pool_store\<lparr>conns := [0 \<mapsto> (demo_conn 5 5)\<lparr>c_io_thread := Some 80\<rparr>], loops := [70 \<mapsto> demo_loop],
        fd_open := {3, 5, 10, 11, 12, 13}, pipe_peer := (\<lambda>fd. fd - 1)\<rparr>)
     \<lparr>msgs = [90 \<mapsto> \<lparr>m_type = IO_MSG_RESPONSE_READY, m_conn = Some 0, m_next = None\<rparr>], ios = [80 \<mapsto> demo_io_thread]\<rparr>"

lemma demo_io_fields [simp]:
  "tasks demo_io_store = tasks demo_task_store" "queues demo_io_store = queues demo_task_store" "pools demo_io_store = pools demo_pool_store"
  "conns demo_io_store = [0 \<mapsto> (demo_conn 5 5)\<lparr>c_io_thread := Some 80\<rparr>]" "loops demo_io_store = [70 \<mapsto> demo_loop]"
  "msgs demo_io_store = [90 \<mapsto> \<lparr>m_type = IO_MSG_RESPONSE_READY, m_conn = Some 0, m_next = None\<rparr>]"
  "ios demo_io_store = [80 \<mapsto> demo_io_thread]" "next_addr demo_io_store = 100" "mem demo_io_store = []"
  "fd_open demo_io_store = {3, 5, 10, 11, 12, 13}" "errno demo_io_store = E_OK"
  "rx demo_io_store = (\<lambda>_. [])" "tx demo_io_store = (\<lambda>_. [])" "sent demo_io_store = (\<lambda>_. [])" "pipe_buf demo_io_store = (\<lambda>_. [])"
  "pipe_peer demo_io_store = (\<lambda>fd. fd - 1)"
  by (simp_all add: demo_io_store_def demo_pool_store_def demo_task_store_def pool_store.extend_def task_store.extend_def)

lemma demo_msg_abs: "msg_abs demo_io_store 80 [90]"
  by (simp add: msg_abs_at_def msg_next_def demo_io_thread_def)

lemma demo_io_live: "io_live demo_io_store 80"
  by (simp add: io_live_def demo_io_thread_def)

lemma demo_msg_refs: "msg_refs (msgs demo_io_store) = (\<lambda>a. if a = 0 then 1 else 0)"
proof
  fix a
  have "{m. map_option m_conn (msgs demo_io_store m) = Some (Some a)} = (if a = 0 then {90} else {})"
    by (auto split: if_splits)
  then show "msg_refs (msgs demo_io_store) a = (if a = 0 then 1 else 0)" by (simp add: refs_by_def)
qed

lemma demo_heap_fresh: "heap_fresh demo_task_store"
  using demo_owned by (simp add: task_owned_def)

lemma demo_io_owned: "io_owned demo_ext demo_io_store"
proof -
  have "conns_wf demo_io_store"
    using conn_wf_demo [of 5 5] by (auto simp: conns_wf_def conn_wf_def split: if_splits)
  moreover have "heap_fresh demo_io_store" using demo_heap_fresh by (simp add: heap_fresh_def) (simp add: demo_task_store_def)
  moreover have "conn_count demo_io_store = counts_to (\<lambda>a. task_refs (tasks demo_io_store) a + (msg_refs (msgs demo_io_store) a + demo_ext a))"
    unfolding demo_msg_refs unfolding demo_io_fields demo_task_refs
    by (auto simp: fun_eq_iff conn_count_def counts_to_def demo_ext_def demo_conn_def)
  ultimately have "task_owned (\<lambda>a. msg_refs (msgs demo_io_store) a + demo_ext a) demo_io_store" by (simp only: task_owned_def)
  then show ?thesis by (simp add: io_owned_def) (simp add: demo_pool_store_def task_store.extend_def)
qed

theorem io_thread_send_message_delivers_witness:
  "\<exists>s'. io_thread_send_message (Some 80) IO_MSG_RESPONSE_READY (Some 0) demo_io_store = Inr ((), s') \<and>
        io_owned demo_ext s' \<and> msg_abs s' 80 [90, 100] \<and> pipe_buf s' 12 \<noteq> []"
proof -
  have 1: "conns demo_io_store 0 \<noteq> None" "ios demo_io_store 80 = Some demo_io_thread"
    "snd (io_msg_pipe_fd demo_io_thread) \<in> fd_open demo_io_store" by (simp_all add: demo_io_thread_def)
  show ?thesis
    using io_thread_send_message_delivers [OF demo_io_owned 1(1) demo_msg_abs 1(2,3), of IO_MSG_RESPONSE_READY]
    by (auto simp: demo_io_thread_def)
qed


end
