(* ===== verification/System_State.thy ===== *)
theory System_State
  imports Io_Message
begin

text \<open>
  The invariant of the running server: one worker pool with its queue, any number of I/O threads, the
  connections they own, and the ownership accounting of all references. \<open>mq\<close> names the messages in the queue of each I/O
  thread and \<open>ext\<close> the references held by registrations. The lemmas carry the invariant over
  the basic operations; \<open>Worker\<close> and \<open>Io_Thread\<close> carry it over the handlers.
\<close>

section \<open>The invariant\<close>

text \<open>A task as \<open>handle_read\<close> makes it: a request of 1 to \<open>BUFFER_SIZE\<close> bytes of some connection.\<close>

definition task_ok :: "task \<Rightarrow> bool" where
  "task_ok x \<longleftrightarrow> t_type x = TASK_TYPE_PROCESS \<and> t_conn x \<noteq> None \<and>
     (case t_data x of None \<Rightarrow> False
      | Some d \<Rightarrow> d \<noteq> [] \<and> length d \<le> BUFFER_SIZE \<and> t_data_len x = int (length d))"

definition tasks_ok :: "'a task_store_scheme \<Rightarrow> bool" where
  "tasks_ok s \<longleftrightarrow> (\<forall>t x. tasks s t = Some x \<longrightarrow> task_ok x)"

text \<open>Every connection belongs to an I/O thread.\<close>

definition conns_ok :: "'a io_store_scheme \<Rightarrow> bool" where
  "conns_ok s \<longleftrightarrow> (\<forall>a c. conns s a = Some c \<longrightarrow> (\<exists>i. c_io_thread c = Some i \<and> ios s i \<noteq> None))"

definition threads_ok :: "addr \<Rightarrow> (addr \<Rightarrow> addr list) \<Rightarrow> 'a io_store_scheme \<Rightarrow> bool" where
  "threads_ok w mq s \<longleftrightarrow>
     (\<forall>i I. ios s i = Some I \<longrightarrow> msg_abs s i (mq i) \<and> io_live s i \<and> io_worker_pool I = Some w \<and> io_stats_mutex I = Unlocked) \<and>
     (\<forall>i j. ios s i \<noteq> None \<longrightarrow> ios s j \<noteq> None \<longrightarrow> i \<noteq> j \<longrightarrow> set (mq i) \<inter> set (mq j) = {})"

definition sys_inv :: "addr \<Rightarrow> addr \<Rightarrow> (addr \<Rightarrow> nat) \<Rightarrow> (addr \<Rightarrow> addr list) \<Rightarrow> 'a io_store_scheme \<Rightarrow> bool" where
  "sys_inv w q ext mq s \<longleftrightarrow> io_owned ext s \<and> (\<exists>b. pool_abs s w q b) \<and> tasks_ok s \<and> conns_ok s \<and> threads_ok w mq s"

lemma sys_invD:
  assumes "sys_inv w q ext mq s"
  shows "io_owned ext s" "\<exists>b. pool_abs s w q b" "tasks_ok s" "conns_ok s" "threads_ok w mq s"
  using assms by (auto simp: sys_inv_def)

lemma conns_okD: "conns_ok s \<Longrightarrow> conns s a = Some c \<Longrightarrow> \<exists>i I. c_io_thread c = Some i \<and> ios s i = Some I"
  unfolding conns_ok_def by blast

lemma threads_okD:
  assumes "threads_ok w mq s" and "ios s i = Some I"
  shows "msg_abs s i (mq i)" "io_live s i" "io_worker_pool I = Some w" "io_stats_mutex I = Unlocked"
  using assms by (auto simp: threads_ok_def)

lemma threads_disjoint:
  assumes "threads_ok w mq s" and "ios s i = Some I" and "ios s j \<noteq> None" and "j \<noteq> i" and "m \<in> set (mq j)"
  shows "m \<notin> set (mq i)"
proof -
  have "set (mq j) \<inter> set (mq i) = {}" using assms(1-4) by (simp add: threads_ok_def)
  with assms(5) show ?thesis by blast
qed

section \<open>Frames\<close>

lemma conns_ok_mono:
  assumes "conns_ok s" and "conn_body s' \<subseteq>\<^sub>m conn_body s" and "\<And>i. ios s i \<noteq> None \<Longrightarrow> ios s' i \<noteq> None"
  shows "conns_ok s'"
  unfolding conns_ok_def
proof (intro allI impI)
  fix a c assume "conns s' a = Some c"
  then have "conn_body s' a = Some (c\<lparr>c_ref_count := 0\<rparr>)" by (simp add: conn_body_def)
  with assms(2) have "conn_body s a = Some (c\<lparr>c_ref_count := 0\<rparr>)" by (metis domI map_le_def)
  then obtain d where "conns s a = Some d" "d\<lparr>c_ref_count := 0\<rparr> = c\<lparr>c_ref_count := 0\<rparr>"
    by (auto simp: conn_body_def)
  moreover from this(2) have "c_io_thread d = c_io_thread c" by (cases c; cases d) simp
  ultimately show "\<exists>i. c_io_thread c = Some i \<and> ios s' i \<noteq> None" using assms(1,3) unfolding conns_ok_def by metis
qed

lemma threads_ok_cong:
  assumes "threads_ok w mq s" and "ios s' = ios s" and "loops s' = loops s"
    and "\<And>i m. ios s i \<noteq> None \<Longrightarrow> m \<in> set (mq i) \<Longrightarrow> msgs s' m = msgs s m"
  shows "threads_ok w mq s'"
  unfolding threads_ok_def
proof (intro conjI allI impI)
  fix i I assume "ios s' i = Some I"
  then have i: "ios s i = Some I" using assms(2) by simp
  then show "msg_abs s' i (mq i)"
    using threads_okD(1) [OF assms(1) i] assms(2,4) by (subst msg_abs_at_cong [of _ i s]) auto
  show "io_live s' i" using threads_okD(2) [OF assms(1) i] assms(2,3) by (auto simp: io_live_def split: option.splits)
qed (use assms(1,2) in \<open>auto simp: threads_ok_def\<close>)

lemma pool_abs_cong:
  "pools s' w = pools s w \<Longrightarrow> tasks s' = tasks s \<Longrightarrow> queues s' = queues s \<Longrightarrow> pool_abs s' w q b = pool_abs s w q b"
  using queue_abs_cong [of s' s q b] by (cases "pools s w") (simp_all add: pool_abs_def)

text \<open>Changing what a connection contains, but neither its count nor its owner.\<close>

lemma sys_inv_conn_upd:
  assumes inv: "sys_inv w q ext mq s" and c: "conns s a = Some c"
    and c': "conn_wf c'" "c_ref_count c' = c_ref_count c" "c_io_thread c' = c_io_thread c"
  shows "sys_inv w q ext mq (s\<lparr>conns := (conns s)(a \<mapsto> c')\<rparr>)"
proof -
  let ?s = "s\<lparr>conns := (conns s)(a \<mapsto> c')\<rparr>"
  have own: "io_owned ext s" by (rule sys_invD [OF inv])
  have "conn_count ?s = conn_count s" using c c'(2) by (auto simp: conn_count_def)
  moreover have "conns_wf ?s" using io_ownedD(2) [OF own] c'(1) by (rule conns_wf_upd)
  moreover have "heap_fresh ?s" using task_ownedD(2) [OF io_ownedD(1) [OF own]] c by (auto simp: heap_fresh_def)
  ultimately have "io_owned ext ?s" using own by (simp add: io_owned_def task_owned_def)
  moreover have "conns_ok ?s" using sys_invD(4) [OF inv] c c'(3) by (auto simp: conns_ok_def)
  moreover have "threads_ok w mq ?s" using sys_invD(5) [OF inv] by (rule threads_ok_cong) simp_all
  moreover have "\<exists>b. pool_abs ?s w q b" using sys_invD(2) [OF inv] pool_abs_cong [of ?s w s q] by simp
  ultimately show ?thesis using sys_invD(3) [OF inv] by (simp add: sys_inv_def tasks_ok_def)
qed

text \<open>Changes of the kernel state alone.\<close>

lemma sys_inv_heap:
  assumes inv: "sys_inv w q ext mq s" and heap: "loops s' = loops s" "conns s' = conns s" "tasks s' = tasks s" "queues s' = queues s" "pools s' = pools s"
    "msgs s' = msgs s" "ios s' = ios s" and next_addr: "next_addr s' = next_addr s"
  shows "sys_inv w q ext mq s'"
proof -
  have "io_owned ext s'" using sys_invD(1) [OF inv] heap next_addr by (subst io_owned_cong [of s' s]) auto
  moreover have "threads_ok w mq s'" using sys_invD(5) [OF inv] by (rule threads_ok_cong) (simp_all add: heap)
  moreover have "\<exists>b. pool_abs s' w q b" using sys_invD(2) [OF inv] pool_abs_cong [of s' w s q] heap by simp
  ultimately show ?thesis using inv heap by (simp add: sys_inv_def tasks_ok_def conns_ok_def)
qed

lemma sys_inv_kernel:
  assumes inv: "sys_inv w q ext mq s" and "kernel.more s' = kernel.more s" and "next_addr s' = next_addr s"
  shows "sys_inv w q ext mq s'"
  using inv by (rule sys_inv_heap) (use assms(2,3) in \<open>(cases s; cases s'; simp)+\<close>)

section \<open>The basic operations\<close>

text \<open>The invariant after an operation on the messages of one thread.\<close>

lemma io_frame_live_other: "io_frame i s s' \<Longrightarrow> io_live s j \<Longrightarrow> io_live s' j"
  using io_live_frame [of i s s'] by (cases "j = i") (auto simp: io_frame_def io_live_def split: option.splits)

lemma sys_inv_io_frame:
  assumes inv: "sys_inv w q ext mq s" and own: "io_owned ext s'" and frame: "io_frame i s s'" and i: "ios s i \<noteq> None"
    and abs: "msg_abs s' i ms" and others: "\<And>j m. j \<noteq> i \<Longrightarrow> ios s j \<noteq> None \<Longrightarrow> m \<in> set (mq j) \<Longrightarrow> msgs s' m = msgs s m \<and> m \<notin> set ms"
  shows "sys_inv w q ext (mq(i := ms)) s'"
proof -
  note f = io_frameD [OF frame]
  have dom: "ios s' j = None \<longleftrightarrow> ios s j = None" for j
    using f(6) [of j] f(7) by (cases "j = i") (auto simp flip: option.map_disc_iff)
  have th: "threads_ok w mq s" by (rule sys_invD [OF inv])
  have "threads_ok w (mq(i := ms)) s'"
    unfolding threads_ok_def
  proof (intro conjI allI impI)
    fix j J assume J: "ios s' j = Some J"
    then obtain K where K: "ios s j = Some K" using dom [of j] by auto
    show "msg_abs s' j ((mq(i := ms)) j)"
      using abs threads_okD(1) [OF th K] f(6) [of j] others [of j] K
      by (cases "j = i") (auto simp: msg_abs_at_cong [of s' j s])
    show "io_live s' j" using io_frame_live_other [OF frame] threads_okD(2) [OF th K] .
    have "io_core J = io_core K" using f(6) [of j] f(7) J K by (cases "j = i") auto
    then show "io_worker_pool J = Some w" "io_stats_mutex J = Unlocked"
      using io_core_fields [of J K] threads_okD(3,4) [OF th K] by auto
  next
    fix j k assume jk: "ios s' j \<noteq> None" "ios s' k \<noteq> None" "j \<noteq> k"
    then have "set (mq j) \<inter> set (mq k) = {}" using th dom by (auto simp: threads_ok_def)
    then show "set ((mq(i := ms)) j) \<inter> set ((mq(i := ms)) k) = {}" using jk others [of j] others [of k] dom by auto
  qed
  moreover have "conns_ok s'" using sys_invD(4) [OF inv] f(5) by (rule conns_ok_mono) (simp add: dom)
  moreover have "\<exists>b. pool_abs s' w q b" using sys_invD(2) [OF inv] pool_abs_cong [of s' w s q] f by simp
  ultimately show ?thesis using own sys_invD(3) [OF inv] f by (simp add: sys_inv_def tasks_ok_def)
qed

lemma threads_ok_fresh:
  assumes "sys_inv w q ext mq s" and "ios s i \<noteq> None" and "m \<in> set (mq i)"
  shows "m \<noteq> next_addr s"
proof -
  obtain I where "ios s i = Some I" using assms(2) by auto
  then have "msgs s m \<noteq> None" using threads_okD(1) [OF sys_invD(5) [OF assms(1)]] msg_abs_msgs assms(3) by blast
  then show ?thesis using io_ownedD(4) [OF sys_invD(1) [OF assms(1)]] by auto
qed

lemma send_message_sys:
  assumes inv: "sys_inv w q ext mq s" and i: "ios s i = Some I" and a: "conns s a \<noteq> None"
  shows "\<exists>s' mq'. io_thread_send_message (Some i) ty (Some a) s = Inr ((), s') \<and> sys_inv w q ext mq' s' \<and> io_frame i s s' \<and>
           conn_body s' = conn_body s \<and>
           (False \<notin> set (take 1 (mem s)) \<longrightarrow> mq' = mq(i := mq i @ [next_addr s]) \<and>
              map_option (\<lambda>x. (m_type x, m_conn x)) (msgs s' (next_addr s)) = Some (ty, Some a))"
proof -
  have th: "threads_ok w mq s" by (rule sys_invD [OF inv])
  obtain s' where s': "io_thread_send_message (Some i) ty (Some a) s = Inr ((), s')" "io_owned ext s'" "io_frame i s s'"
      "conn_body s' = conn_body s" "\<forall>k. k \<notin> set (mq i) \<longrightarrow> k \<noteq> next_addr s \<longrightarrow> msgs s' k = msgs s k"
    and r: "if False \<in> set (take 1 (mem s)) then msg_abs s' i (mq i) \<and> msgs s' = msgs s
       else msg_abs s' i (mq i @ [next_addr s]) \<and> map_option (\<lambda>x. (m_type x, m_conn x)) (msgs s' (next_addr s)) = Some (ty, Some a)"
    using send_message_owned [OF sys_invD(1) [OF inv] a threads_okD(1) [OF th i] i, of ty]
    by (elim exE conjE, rule_tac that) (assumption | simp split: if_splits)+
  define ms where "ms = (if False \<in> set (take 1 (mem s)) then mq i else mq i @ [next_addr s])"
  have "sys_inv w q ext (mq(i := ms)) s'"
  proof (rule sys_inv_io_frame [OF inv s'(2,3)])
    show "ios s i \<noteq> None" "msg_abs s' i ms" using i r by (auto simp: ms_def)
    fix j m assume j: "j \<noteq> i" "ios s j \<noteq> None" "m \<in> set (mq j)"
    then have "m \<notin> set (mq i)" "m \<noteq> next_addr s" using threads_disjoint [OF th i] threads_ok_fresh [OF inv] by blast+
    then show "msgs s' m = msgs s m \<and> m \<notin> set ms" using s'(5) by (auto simp: ms_def)
  qed
  then show ?thesis using s' r by (intro exI [of _ s'] exI [of _ "mq(i := ms)"]) (auto simp: ms_def)
qed

lemma msg_event_sys:
  assumes inv: "sys_inv w q ext mq s" and i: "ios s i = Some I" and fuel: "length (mq i) \<le> fuel"
  shows "\<exists>s'. handle_msg_event fuel i s = Inr ((), s') \<and> sys_inv w q ext (mq(i := [])) s' \<and> io_frame i s s'"
proof -
  have th: "threads_ok w mq s" by (rule sys_invD [OF inv])
  obtain s' where s': "handle_msg_event fuel i s = Inr ((), s')" "msg_abs s' i []" "io_owned ext s'" "io_frame i s s'"
      "msgs s' = msgs s |` (- set (mq i))"
    using msg_event_owned [OF sys_invD(1) [OF inv] threads_okD(1,2) [OF th i] fuel] by blast
  have "sys_inv w q ext (mq(i := [])) s'"
  proof (rule sys_inv_io_frame [OF inv s'(3,4)])
    fix j m assume j: "j \<noteq> i" "ios s j \<noteq> None" "m \<in> set (mq j)"
    then have "m \<notin> set (mq i)" using threads_disjoint [OF th i] by blast
    then show "msgs s' m = msgs s m \<and> m \<notin> set []" using s'(5) by simp
  qed (use i s'(2) in auto)
  then show ?thesis using s' by blast
qed

section \<open>Tasks and the pool\<close>

lemma tasks_ok_core:
  assumes "tasks_ok s" and "task_core s' = task_core s"
  shows "tasks_ok s'"
  unfolding tasks_ok_def
proof (intro allI impI)
  fix t x assume "tasks s' t = Some x"
  then have "task_core s t = Some (t_type x, t_conn x, t_data x, t_data_len x)" unfolding assms(2) [symmetric] by (simp add: task_core_def)
  then obtain y where "tasks s t = Some y" "t_type y = t_type x" "t_conn y = t_conn x" "t_data y = t_data x" "t_data_len y = t_data_len x"
    by (auto simp: task_core_def)
  moreover from this(1) assms(1) have "task_ok y" by (simp add: tasks_ok_def)
  ultimately show "task_ok x" by (cases "t_data x") (simp_all add: task_ok_def)
qed

lemma task_more_io:
  assumes "task_store.more s' = task_store.more s"
  shows "pools s' = pools s" "msgs s' = msgs s" "ios s' = ios s" "io_store.more s' = io_store.more s"
  using assms by (cases s; cases s'; simp)+

lemma io_owned_task:
  assumes "io_owned ext s" and "task_owned (\<lambda>a. msg_refs (msgs s) a + ext' a) s'" and "task_store.more s' = task_store.more s"
    and "next_addr s \<le> next_addr s'"
  shows "io_owned ext' s'"
  using assms task_more_io [OF assms(3)] by (simp add: io_owned_def)

lemma sys_inv_queue_frame:
  assumes inv: "sys_inv w q ext mq s" and frame: "queue_frame q s s'" and "pool_abs s' w q b'"
  shows "sys_inv w q ext mq s'"
proof -
  have more: "task_store.more s' = task_store.more s" and core: "task_core s' = task_core s" using frame by (simp_all add: queue_frame_def)
  note io = task_more_io [OF more] and cn = queue_frame_conns [OF frame]
  have "queues s q \<noteq> None" using sys_invD(2) [OF inv] by (auto elim!: pool_absD queue_absD)
  then have "task_owned (\<lambda>a. msg_refs (msgs s) a + ext a) s'"
    by (rule task_owned_queue_frame [OF io_ownedD(1) [OF sys_invD(1) [OF inv]] frame])
  then have "io_owned ext s'" by (rule io_owned_task [OF sys_invD(1) [OF inv]]) (simp_all add: more cn)
  moreover have "threads_ok w mq s'" using sys_invD(5) [OF inv] by (rule threads_ok_cong) (simp_all add: io cn)
  moreover have "conns_ok s'" using sys_invD(4) [OF inv] io cn by (simp add: conns_ok_def)
  ultimately show ?thesis using tasks_ok_core [OF sys_invD(3) [OF inv] core] assms(3) by (auto simp: sys_inv_def)
qed

lemma pop_sys:
  assumes inv: "sys_inv w q ext mq s" and pool: "pool_abs s w q b" and items: "b_items b = t # ts"
  shows "\<exists>s'. task_queue_pop (Some q) s = Inr (Some t, s') \<and> sys_inv w q ext mq s' \<and> pool_abs s' w q (b\<lparr>b_items := ts\<rparr>) \<and> queue_frame q s s'"
proof -
  have "bq_pop b = Popped t (b\<lparr>b_items := ts\<rparr>)" using items by (simp add: bq_pop_def)
  moreover have "queue_abs s q b" using pool by (rule pool_absD)
  ultimately obtain s' where s': "task_queue_pop (Some q) s = Inr (Some t, s')" "queue_abs s' q (b\<lparr>b_items := ts\<rparr>)" "queue_frame q s s'"
    using pop_popped by blast
  then have "pool_abs s' w q (b\<lparr>b_items := ts\<rparr>)"
    using pool queue_frame_pools [OF s'(3)] by (auto simp: pool_abs_def split: option.splits)
  with s' sys_inv_queue_frame [OF inv] show ?thesis by blast
qed

text \<open>A queue does not notice the destruction of a task that is not in it.\<close>

lemma queue_abs_del:
  assumes "queue_abs s q b" and "t \<notin> set (b_items b)" and "tasks s' = (tasks s)(t := None)" and "queues s' = queues s"
  shows "queue_abs s' q b"
proof -
  have "chain (task_next s') p (b_items b) = chain (task_next s) p (b_items b)" for p
    using assms(2,3) by (intro chain_cong) (auto simp: task_next_def)
  then show ?thesis using assms(1,4) by (cases "queues s q") (simp_all add: queue_abs_def)
qed

lemma task_destroy_sys:
  assumes inv: "sys_inv w q ext mq s" and pool: "pool_abs s w q b" and t: "tasks s t = Some x" "t \<notin> set (b_items b)"
  shows "\<exists>s'. task_destroy (Some t) s = Inr ((), s') \<and> sys_inv w q ext mq s' \<and> pool_abs s' w q b \<and> tasks s' = (tasks s)(t := None) \<and> task_frame s s'"
proof -
  obtain s' where s': "task_destroy (Some t) s = Inr ((), s')" "task_owned (\<lambda>a. msg_refs (msgs s) a + ext a) s'"
      "tasks s' = (tasks s)(t := None)" "task_frame s s'"
    using task_destroy_any [OF io_ownedD(1) [OF sys_invD(1) [OF inv]] t(1)] by blast
  then have f: "queues s' = queues s" "task_store.more s' = task_store.more s" "loops s' = loops s" "next_addr s' = next_addr s"
    "conn_body s' \<subseteq>\<^sub>m conn_body s" by (simp_all add: task_frame_def)
  note io = task_more_io [OF f(2)]
  have pool': "pool_abs s' w q b"
    using pool queue_abs_del [OF _ t(2) s'(3) f(1)] io(1) by (auto simp: pool_abs_def split: option.splits)
  have "io_owned ext s'" by (rule io_owned_task [OF sys_invD(1) [OF inv] s'(2)]) (simp_all add: f)
  moreover have "threads_ok w mq s'" using sys_invD(5) [OF inv] by (rule threads_ok_cong) (simp_all add: io f)
  moreover have "conns_ok s'" using sys_invD(4) [OF inv] f(5) by (rule conns_ok_mono) (simp add: io)
  moreover have "tasks_ok s'" using sys_invD(3) [OF inv] s'(3) by (auto simp: tasks_ok_def split: if_splits)
  ultimately have "sys_inv w q ext mq s'" using pool' by (auto simp: sys_inv_def)
  with s' pool' show ?thesis by blast
qed

lemma sys_inv_conn_frame:
  assumes inv: "sys_inv w q ext mq s" and frame: "conn_frame s s'" and own: "task_owned (\<lambda>a. msg_refs (msgs s) a + ext' a) s'"
  shows "sys_inv w q ext' mq s'"
proof -
  note io = conn_frame_io(2,3) [OF frame] conn_frame_tasks [OF frame] conn_frameD(1,2,10) [OF frame]
  have "io_owned ext' s'" by (rule io_owned_task [OF sys_invD(1) [OF inv] own]) (simp_all add: io)
  moreover have "threads_ok w mq s'" using sys_invD(5) [OF inv] by (rule threads_ok_cong) (simp_all add: io)
  moreover have "conns_ok s'" using sys_invD(4) [OF inv] io(8) by (rule conns_ok_mono) (simp add: io)
  moreover have "\<exists>b. pool_abs s' w q b"
    using sys_invD(2) [OF inv] pool_abs_cong [of s' w s q] io task_more_io(1) [OF io(5)] by simp
  ultimately show ?thesis using sys_invD(3) [OF inv] io(3) by (simp add: sys_inv_def tasks_ok_def)
qed

text \<open>The I/O thread gives up the registration of a connection.\<close>

lemma release_sys:
  assumes inv: "sys_inv w q ext mq s" and a: "ext a \<noteq> 0"
  shows "\<exists>s'. conn_release (Some a) s = Inr ((), s') \<and> sys_inv w q (ext(a := ext a - 1)) mq s' \<and> conn_frame s s'"
proof -
  let ?e = "\<lambda>b. msg_refs (msgs s) b + ext b"
  obtain s' where s': "conn_release (Some a) s = Inr ((), s')" "task_owned (?e(a := ?e a - 1)) s'" "conn_frame s s'"
    using release_owned [OF io_ownedD(1) [OF sys_invD(1) [OF inv]], of a] a by auto
  have "?e(a := ?e a - 1) = (\<lambda>b. msg_refs (msgs s) b + (ext(a := ext a - 1)) b)" using a by (auto simp: fun_eq_iff)
  then show ?thesis using s' sys_inv_conn_frame [OF inv s'(3)] by auto
qed

text \<open>The counters of the pool.\<close>

lemma sys_inv_pool_upd:
  assumes inv: "sys_inv w q ext mq s" and W: "pools s w = Some W"
    and W': "p_task_queue W' = p_task_queue W" "p_stats_mutex W' = p_stats_mutex W" "p_shutdown W' = p_shutdown W"
  shows "sys_inv w q ext mq (s\<lparr>pools := (pools s)(w \<mapsto> W')\<rparr>)"
proof -
  let ?s = "s\<lparr>pools := (pools s)(w \<mapsto> W')\<rparr>"
  have "task_owned (\<lambda>a. msg_refs (msgs s) a + ext a) ?s"
    using io_ownedD(1) [OF sys_invD(1) [OF inv]] by (simp add: task_owned_pools)
  then have "io_owned ext ?s" using sys_invD(1) [OF inv] W by (auto simp: io_owned_def)
  moreover have "threads_ok w mq ?s" using sys_invD(5) [OF inv] by (rule threads_ok_cong) simp_all
  moreover have "\<exists>b. pool_abs ?s w q b" using sys_invD(2) [OF inv] W W' by (auto simp: pool_abs_def)
  ultimately show ?thesis using inv by (simp add: sys_inv_def tasks_ok_def conns_ok_def)
qed

lemma io_owned_task_live:
  assumes "io_owned ext s" and "tasks s t = Some x" and "t_conn x = Some a"
  shows "conns s a \<noteq> None"
proof -
  have "finite (dom (tasks s))" using task_ownedD(4) [OF io_ownedD(1) [OF assms(1)]] .
  then have "task_refs (tasks s) a \<noteq> 0"
    using refs_by_del [where f = t_conn and T = "tasks s" and t = t and x = x and a = a] assms(2,3)
    by (metis fun_upd_same nat.distinct(1))
  then show ?thesis using task_owned_live [OF io_ownedD(1) [OF assms(1)], of a] by simp
qed

section \<open>Handing a request to the pool\<close>

lemma sys_inv_tasks:
  assumes inv: "sys_inv w q ext mq s" and own: "task_owned (\<lambda>a. msg_refs (msgs s) a + ext' a) s'"
    and frame: "task_store.more s' = task_store.more s" "loops s' = loops s" "next_addr s \<le> next_addr s'" "conn_body s' \<subseteq>\<^sub>m conn_body s"
    and "tasks_ok s'" "pool_abs s' w q b"
  shows "sys_inv w q ext' mq s'"
proof -
  note io = task_more_io [OF frame(1)]
  have "io_owned ext' s'" by (rule io_owned_task [OF sys_invD(1) [OF inv] own frame(1,3)])
  moreover have "threads_ok w mq s'" using sys_invD(5) [OF inv] by (rule threads_ok_cong) (simp_all add: io frame)
  moreover have "conns_ok s'" using sys_invD(4) [OF inv] frame(4) by (rule conns_ok_mono) (simp add: io)
  ultimately show ?thesis using assms(7,8) by (auto simp: sys_inv_def)
qed

lemma pool_abs_new_task:
  assumes "pool_abs s w q b" and "tasks s t = None" and "tasks s' = (tasks s)(t \<mapsto> x)" and "queues s' = queues s" and "pools s' = pools s"
  shows "pool_abs s' w q b" "t \<notin> set (b_items b)"
proof -
  have abs: "queue_abs s q b" using assms(1) by (rule pool_absD)
  then show t: "t \<notin> set (b_items b)" using queue_abs_tasks assms(2) by fastforce
  then have "chain (task_next s') p (b_items b) = chain (task_next s) p (b_items b)" for p
    using assms(3) by (intro chain_cong) (auto simp: task_next_def)
  then have "queue_abs s' q b" using abs assms(4) by (cases "queues s q") (simp_all add: queue_abs_def)
  then show "pool_abs s' w q b" using assms(1,5) by (auto simp: pool_abs_def split: option.splits)
qed

lemma conn_body_count:
  assumes "conns s a = Some c" and "conns s' = (conns s)(a \<mapsto> c\<lparr>c_ref_count := n\<rparr>)"
  shows "conn_body s' = conn_body s"
  using assms by (auto simp: conn_body_def)

text \<open>
  Creating the task for a request. \<open>k\<close> is what \<open>ext\<close> becomes at the connection: one more when the reference
  was taken for a task that then could not be completed.
\<close>

lemma create_sys:
  assumes inv: "sys_inv w q ext mq s" and pool: "pool_abs s w q b" and c: "conns s a = Some c"
    and d: "d \<noteq> []" "length d \<le> BUFFER_SIZE"
  obtains r s' k where "task_create TASK_TYPE_PROCESS (Some a) (Some d) (int (length d)) s = Inr (r, s')"
    "sys_inv w q (ext(a := k)) mq s'" "pool_abs s' w q b" "ext a \<le> k" "mem s = [] \<Longrightarrow> r \<noteq> None \<and> k = ext a \<and> mem s' = []"
    "\<And>t. r = Some t \<Longrightarrow> t \<notin> set (b_items b) \<and> tasks s' t = Some (new_task TASK_TYPE_PROCESS (Some a) d (int (length d)))"
    "\<And>u. tasks s u \<noteq> None \<Longrightarrow> tasks s' u = tasks s u"
    "conn_body s' = conn_body s" "rx s' = rx s" "ios s' = ios s" "fd_open s' = fd_open s" "tx s' = tx s" "now s' = now s"
proof -
  let ?t = "next_addr s" and ?C = "(conns s)(a \<mapsto> c\<lparr>c_ref_count := c_ref_count c + 1\<rparr>)"
  let ?e = "\<lambda>b. msg_refs (msgs s) b + ext b"
  have own: "task_owned ?e s" by (rule io_ownedD(1) [OF sys_invD(1) [OF inv]])
  have fresh: "tasks s ?t = None" by (rule task_owned_fresh [OF own])
  have "c_mutex c = Unlocked" using io_owned_wf [OF sys_invD(1) [OF inv] c] by simp
  note exec = task_create_exec [OF c this, of "int (length d)" d, OF _ _ fresh, where ty = TASK_TYPE_PROCESS]
  have n: "0 < int (length d)" "int (length d) \<le> int (length d)" using d by auto
  consider (f1) m where "mem s = False # m" | (f2) m where "mem s = True # False # m" | (ok) "False \<notin> set (take 2 (mem s))"
    by (cases "mem s" rule: remdups_adj.cases) auto
  then show ?thesis
  proof cases
    case f1
    have "sys_inv w q ext mq (s\<lparr>mem := m\<rparr>)" using inv by (rule sys_inv_kernel) simp_all
    moreover have "pool_abs (s\<lparr>mem := m\<rparr>) w q b" using pool pool_abs_cong [of "s\<lparr>mem := m\<rparr>" w s q b] by simp
    ultimately show ?thesis using f1 exec(1) [OF n f1] by (intro that [of None "s\<lparr>mem := m\<rparr>" "ext a"]) simp_all
  next
    case f2
    let ?s = "s\<lparr>next_addr := Suc ?t, mem := m, conns := ?C\<rparr>"
    have "?e(a := Suc (?e a)) = (\<lambda>b. msg_refs (msgs s) b + (ext(a := Suc (ext a))) b)" by (auto simp: fun_eq_iff)
    then have own': "task_owned (\<lambda>b. msg_refs (msgs s) b + (ext(a := Suc (ext a))) b) ?s"
      using task_create_owned(1) [OF own c, of m] by simp
    have pool': "pool_abs ?s w q b" using pool pool_abs_cong [of ?s w s q b] by simp
    have body: "conn_body ?s = conn_body s" by (rule conn_body_count [OF c]) simp
    have "sys_inv w q (ext(a := Suc (ext a))) mq ?s"
      by (rule sys_inv_tasks [OF inv own' _ _ _ _ _ pool']) (use sys_invD(3) [OF inv] body in \<open>simp_all add: tasks_ok_def\<close>)
    then show ?thesis using f2 exec(2) [OF n f2] pool' body by (intro that [of None ?s "Suc (ext a)"]) simp_all
  next
    case ok
    let ?x = "new_task TASK_TYPE_PROCESS (Some a) d (int (length d))"
    let ?s = "s\<lparr>next_addr := Suc (Suc ?t), mem := drop 2 (mem s), conns := ?C, tasks := (tasks s)(?t \<mapsto> ?x)\<rparr>"
    have own': "task_owned ?e ?s" using task_create_owned(2) [OF own c] .
    have pool': "pool_abs ?s w q b" "?t \<notin> set (b_items b)" using pool_abs_new_task [OF pool fresh, of ?s ?x] by simp_all
    have ok': "tasks_ok ?s" using sys_invD(3) [OF inv] d by (auto simp: tasks_ok_def task_ok_def new_task_def)
    have body: "conn_body ?s = conn_body s" by (rule conn_body_count [OF c]) simp
    have "sys_inv w q ext mq ?s"
      by (rule sys_inv_tasks [OF inv own' _ _ _ _ ok' pool'(1)]) (use body in simp_all)
    then show ?thesis using exec(3) [OF n ok] pool' body fresh by (intro that [of "Some ?t" ?s "ext a"]) auto
  qed
qed

text \<open>Submitting a task that is not queued yet.\<close>

lemma submit_sys:
  assumes inv: "sys_inv w q ext mq s" and pool: "pool_abs s w q b" and t: "tasks s t = Some x" "t \<notin> set (b_items b)"
  shows "bq_push t b = Push_Wait \<and> thread_pool_submit (Some w) (Some t) s = Inl Would_Block \<or>
     (\<exists>r s' b'. thread_pool_submit (Some w) (Some t) s = Inr (r, s') \<and> sys_inv w q ext mq s' \<and> pool_abs s' w q b' \<and>
        (if b_shutdown b then s' = s \<and> b' = b else bq_push t b = Pushed b' \<and> queue_frame q s s'))"
proof (cases "bq_push t b")
  case Push_Wait then show ?thesis using submit_cases [OF pool t] by simp
next
  case Push_Refused then show ?thesis using submit_cases [OF pool t] inv pool by (auto simp: bq_push_def split: if_splits)
next
  case (Pushed b')
  then obtain s' where s': "thread_pool_submit (Some w) (Some t) s = Inr (0, s')" "pool_abs s' w q b'" "queue_frame q s s'"
    using submit_cases [OF pool t] by auto
  moreover have "\<not> b_shutdown b" using Pushed by (auto simp: bq_push_def)
  ultimately show ?thesis using sys_inv_queue_frame [OF inv s'(3,2)] Pushed by auto
qed

section \<open>A concrete server\<close>

definition demo_mq :: "addr \<Rightarrow> addr list" where
  "demo_mq i = (if i = 80 then [90] else [])"

lemma demo_io_pool_abs: "pool_abs demo_io_store 60 50 demo_queue"
  using demo_pool_abs queue_abs_cong [of demo_io_store demo_pool_store 50 demo_queue] by (simp add: pool_abs_def split: option.splits)

lemma demo_io_pool: "pools demo_io_store 60 = Some \<lparr>p_threads = None, p_thread_count = 2, p_task_queue = Some 50, p_shutdown = False,
                        p_tasks_completed = 0, p_stats_mutex = Unlocked\<rparr>"
  by (simp add: demo_pool_store_def task_store.extend_def)

lemma demo_sys_inv: "sys_inv 60 50 demo_ext demo_mq demo_io_store"
proof -
  have "tasks_ok demo_io_store"
    by (auto simp: tasks_ok_def task_ok_def demo_task_store_def demo_task_def BUFFER_SIZE_def split: if_splits)
  moreover have "conns_ok demo_io_store" by (simp add: conns_ok_def)
  moreover have "threads_ok 60 demo_mq demo_io_store"
    using demo_msg_abs demo_io_live by (auto simp: threads_ok_def demo_mq_def demo_io_thread_def split: if_splits)
  ultimately show ?thesis using demo_io_owned demo_io_pool_abs by (auto simp: sys_inv_def)
qed

end
