(* ===== verification/Worker.thy ===== *)
theory Worker
  imports System_State Http_Response
begin

text \<open>
  \<open>advanced-reactor-server/thread_pool.c\<close>, the worker threads: \<open>process_request\<close> builds the response in the write buffer
  of the connection and tells its I/O thread; \<open>worker_thread\<close> takes tasks from the queue until the
  pool is shut down.
\<close>

section \<open>Operations\<close>

text \<open>
  The part of \<open>process_request\<close> that stores the response: \<open>memcpy\<close> into \<open>write_buf\<close>, and the sizes and the state.
\<close>

definition store_response :: "string \<Rightarrow> int \<Rightarrow> connection \<Rightarrow> connection" where
  "store_response response response_len c =
     c\<lparr>c_write_buf := map Some (take (nat response_len) response) @ drop (nat response_len) (c_write_buf c),
       c_write_size := response_len, c_write_pos := 0, c_state := CONN_STATE_WRITING\<rparr>"

text \<open>
  Formatting a \<open>NULL\<close> string, or more bytes than the block has, is undefined behaviour.
\<close>

definition process_request :: "ptr \<Rightarrow> string option \<Rightarrow> int \<Rightarrow> ('a io_store_scheme, unit) cmd" where
  "process_request conn data data_len = (case (conn, data) of
     (Some a, Some d) \<Rightarrow>
       if (data_len < 0 \<or> int (length d) < data_len) \<and> CHR 0x00 \<notin> set d then failM Out_Of_Bounds
       else
         (let (response, response_len) = build_response d data_len in
          thenM (whenM (0 < response_len \<and> response_len < int BUFFER_SIZE)
                  (conn_update a (store_response response response_len)))
         (bindM (conn_load a) (\<lambda>c.
          if c_io_thread c = None then returnM ()
          else bindM (conn_is_valid conn) (\<lambda>valid.
            whenM valid (io_thread_send_message (c_io_thread c) IO_MSG_RESPONSE_READY conn)))))
   | _ \<Rightarrow> failM Null_Deref)"

text \<open>The \<open>switch\<close> on the type of the task.\<close>

definition run_task :: "addr \<Rightarrow> ('a io_store_scheme, unit) cmd" where
  "run_task t =
     bindM (task_load t) (\<lambda>x. case t_type x of
       TASK_TYPE_PROCESS \<Rightarrow>
         bindM (conn_is_valid (t_conn x)) (\<lambda>valid.
           whenM valid (process_request (t_conn x) (t_data x) (t_data_len x)))
     | TASK_TYPE_CLOSE \<Rightarrow>
         whenM (t_conn x \<noteq> None) (thenM (conn_mark_closing (t_conn x)) (conn_release (t_conn x)))
     | _ \<Rightarrow> returnM ())"

definition pool_stats :: "addr \<Rightarrow> ('a pool_store_scheme, unit) cmd" where
  "pool_stats w =
     bindM (pool_load w) (\<lambda>W. bindM (mutex_lock (p_stats_mutex W)) (\<lambda>m.
     thenM (pool_update w (p_stats_mutex_update (\<lambda>_. m)))
    (thenM (pool_update w (\<lambda>W. W\<lparr>p_tasks_completed := p_tasks_completed W + 1\<rparr>))
    (bindM (pool_load w) (\<lambda>W. bindM (mutex_unlock (p_stats_mutex W)) (\<lambda>m.
       pool_update w (p_stats_mutex_update (\<lambda>_. m))))))))"

text \<open>One iteration of the loop of \<open>worker_thread\<close>; the result tells whether the loop goes on.\<close>

definition worker_step :: "addr \<Rightarrow> ('a io_store_scheme, bool) cmd" where
  "worker_step w =
     bindM (pool_load w) (\<lambda>W.
       if p_shutdown W then returnM False
       else bindM (task_queue_pop (p_task_queue W)) (\<lambda>p. case p of
         None \<Rightarrow> bindM (pool_load w) (\<lambda>W. returnM (\<not> p_shutdown W))
       | Some t \<Rightarrow>
           thenM (run_task t)
          (thenM (pool_stats w)
          (thenM (task_destroy (Some t)) (returnM True)))))"

fun worker_thread :: "nat \<Rightarrow> addr \<Rightarrow> ('a io_store_scheme, unit) cmd" where
  "worker_thread 0 w = failM Out_Of_Fuel"
| "worker_thread (Suc fuel) w = bindM (worker_step w) (\<lambda>go. if go then worker_thread fuel w else returnM ())"

section \<open>Processing a request\<close>

lemma store_response_wf:
  assumes "conn_wf c" and "0 < n" and "n < int BUFFER_SIZE" and "n = int (length r)"
  shows "conn_wf (store_response r n c)"
  using assms by (auto simp: conn_wf_def store_response_def)

lemma build_response_len:
  assumes "0 \<le> n" and "n \<le> int BUFFER_SIZE"
  obtains r where "build_response d n = (r, int (length r))" "0 < length r" "length r < BUFFER_SIZE"
proof -
  let ?d = "prec_str n d"
  let ?r = "http_header (6 + int (length ?d)) @ take 1023 (''Echo: '' @ ?d)"
  have "length ?r \<le> 1114" by (rule response_fits [OF length_prec_str_buffer [OF assms]])
  then have "length ?r < BUFFER_SIZE" by (simp only: BUFFER_SIZE_def)
  moreover have "0 < length ?r" by (simp add: length_http_header)
  moreover have "build_response d n = (?r, int (length ?r))" using build_response_exec [OF assms] by (simp only: Let_def)
  ultimately show ?thesis using that by blast
qed

text \<open>The request is answered: the response is in the write buffer and the owner of the connection is told.\<close>

lemma process_request_sys:
  assumes inv: "sys_inv w q ext mq s" and c: "conns s a = Some c" "\<not> c_closing c"
    and d: "length d \<le> BUFFER_SIZE"
  obtains i s' mq' r where "c_io_thread c = Some i" "process_request (Some a) (Some d) (int (length d)) s = Inr ((), s')"
    "sys_inv w q ext mq' s'" "build_response d (int (length d)) = (r, int (length r))"
    "conn_body s' = (conn_body s)(a \<mapsto> (store_response r (int (length r)) c)\<lparr>c_ref_count := 0\<rparr>)"
    "tasks s' = tasks s" "queues s' = queues s" "pools s' = pools s"
    "False \<notin> set (take 1 (mem s)) \<Longrightarrow> mq' = mq(i := mq i @ [next_addr s]) \<and>
       map_option (\<lambda>x. (m_type x, m_conn x)) (msgs s' (next_addr s)) = Some (IO_MSG_RESPONSE_READY, Some a)"
proof -
  have wf: "conn_wf c" using io_owned_wf [OF sys_invD(1) [OF inv] c(1)] .
  obtain i I where i: "c_io_thread c = Some i" "ios s i = Some I" using conns_okD [OF sys_invD(4) [OF inv] c(1)] by blast
  obtain r where r: "build_response d (int (length d)) = (r, int (length r))" "0 < length r" "length r < BUFFER_SIZE"
    using build_response_len [of "int (length d)" d] d by auto
  let ?c = "store_response r (int (length r)) c"
  let ?s = "s\<lparr>conns := (conns s)(a \<mapsto> ?c)\<rparr>"
  have wf': "conn_wf ?c" using wf r by (intro store_response_wf) simp_all
  have inv1: "sys_inv w q ext mq ?s"
    using sys_inv_conn_upd [OF inv c(1) wf'] by (simp add: store_response_def)
  have ok: "c_mutex ?c = Unlocked" "\<not> c_closing ?c" "c_state ?c \<noteq> CONN_STATE_CLOSED" "c_io_thread ?c = Some i"
    using wf c(2) i by (simp_all add: store_response_def)
  obtain s' mq' where s': "io_thread_send_message (Some i) IO_MSG_RESPONSE_READY (Some a) ?s = Inr ((), s')" "sys_inv w q ext mq' s'"
      "io_frame i ?s s'" "conn_body s' = conn_body ?s"
      "False \<notin> set (take 1 (mem s)) \<longrightarrow> mq' = mq(i := mq i @ [next_addr s]) \<and>
         map_option (\<lambda>x. (m_type x, m_conn x)) (msgs s' (next_addr s)) = Some (IO_MSG_RESPONSE_READY, Some a)"
    using send_message_sys [OF inv1, of i I a IO_MSG_RESPONSE_READY] i(2) by auto
  have run: "process_request (Some a) (Some d) (int (length d)) s = Inr ((), s')"
    using c(1) r ok s'(1)
    by (simp add: process_request_def thenM_Inr bindM_Inr conn_update_Some conn_load_Some conn_is_valid_Some)
  have "conn_body ?s = (conn_body s)(a \<mapsto> ?c\<lparr>c_ref_count := 0\<rparr>)" by (auto simp: conn_body_def)
  with s' run i r io_frameD [OF s'(3)] show ?thesis by (intro that [of i s' mq' r]) auto
qed

section \<open>The worker\<close>

lemma pool_stats_exec:
  "pools s w = Some W \<Longrightarrow> p_stats_mutex W = Unlocked \<Longrightarrow>
     pool_stats w s = Inr ((), s\<lparr>pools := (pools s)(w \<mapsto> W\<lparr>p_tasks_completed := p_tasks_completed W + 1\<rparr>)\<rparr>)"
  by (cases W) (simp add: pool_stats_def c_exec c_defs)

lemma run_task_sys:
  assumes inv: "sys_inv w q ext mq s" and x: "tasks s t = Some x"
  shows "\<exists>s' mq'. run_task t s = Inr ((), s') \<and> sys_inv w q ext mq' s' \<and> tasks s' = tasks s \<and> queues s' = queues s \<and> pools s' = pools s"
proof -
  have "task_ok x" using sys_invD(3) [OF inv] x by (simp add: tasks_ok_def)
  then obtain a d where a: "t_type x = TASK_TYPE_PROCESS" "t_conn x = Some a" "t_data x = Some d" "t_data_len x = int (length d)"
      "length d \<le> BUFFER_SIZE" by (auto simp: task_ok_def split: option.splits)
  obtain c where c: "conns s a = Some c" using io_owned_task_live [OF sys_invD(1) [OF inv] x a(2)] by auto
  have wf: "conn_wf c" using io_owned_wf [OF sys_invD(1) [OF inv] c] .
  then have valid: "conn_is_valid (Some a) s = Inr (\<not> c_closing c, s)" using c by (simp add: conn_is_valid_Some) (simp add: conn_wf_def)
  show ?thesis
  proof (cases "c_closing c")
    case True
    then have "run_task t s = Inr ((), s)"
      using x a valid by (simp add: run_task_def bindM_def task_load_Some returnM_def)
    with inv show ?thesis by blast
  next
    case False
    show ?thesis
    proof (rule process_request_sys [OF inv c False a(5)])
      fix s' mq' assume "process_request (Some a) (Some d) (int (length d)) s = Inr ((), s')" "sys_inv w q ext mq' s'"
        "tasks s' = tasks s" "queues s' = queues s" "pools s' = pools s"
      with x a valid False show ?thesis by (auto simp: run_task_def bindM_Inr task_load_Some)
    qed
  qed
qed

lemma worker_step_task:
  assumes inv: "sys_inv w q ext mq s" and pool: "pool_abs s w q b" and b: "\<not> b_shutdown b" "b_items b = t # ts"
    and W: "pools s w = Some W"
  shows "\<exists>s' mq'. worker_step w s = Inr (True, s') \<and> sys_inv w q ext mq' s' \<and> pool_abs s' w q (b\<lparr>b_items := ts\<rparr>) \<and>
           task_core s' = (task_core s)(t := None) \<and>
           pools s' w = Some (W\<lparr>p_tasks_completed := p_tasks_completed W + 1\<rparr>)"
proof -
  have pq: "p_task_queue W = Some q" "\<not> p_shutdown W" "p_stats_mutex W = Unlocked" "queue_abs s q b"
    using pool W b(1) by (auto elim!: pool_absD)
  obtain s1 where s1: "task_queue_pop (Some q) s = Inr (Some t, s1)" "sys_inv w q ext mq s1" "pool_abs s1 w q (b\<lparr>b_items := ts\<rparr>)" "queue_frame q s s1"
    using pop_sys [OF inv pool b(2)] by blast
  have core1: "task_core s1 = task_core s" and pools1: "pools s1 = pools s"
    using s1(4) queue_frame_pools [OF s1(4)] by (simp_all add: queue_frame_def)
  have "tasks s t \<noteq> None" using queue_abs_tasks [OF pq(4)] b(2) by auto
  then obtain x where x: "tasks s1 t = Some x" using task_core_None [of s1 t] task_core_None [of s t] core1 by auto
  obtain s2 mq' where s2: "run_task t s1 = Inr ((), s2)" "sys_inv w q ext mq' s2" "tasks s2 = tasks s1" "queues s2 = queues s1" "pools s2 = pools s1"
    using run_task_sys [OF s1(2) x] by blast
  let ?W = "W\<lparr>p_tasks_completed := p_tasks_completed W + 1\<rparr>"
  let ?s3 = "s2\<lparr>pools := (pools s2)(w \<mapsto> ?W)\<rparr>"
  have W2: "pools s2 w = Some W" using W s2(5) pools1 by simp
  have 3: "pool_stats w s2 = Inr ((), ?s3)" using W2 pq(3) by (rule pool_stats_exec)
  have inv3: "sys_inv w q ext mq' ?s3" using s2(2) W2 by (rule sys_inv_pool_upd) simp_all
  have pool3: "pool_abs ?s3 w q (b\<lparr>b_items := ts\<rparr>)"
    using s1(3) pools1 W s2(3,4) queue_abs_cong [of s2 s1 q "b\<lparr>b_items := ts\<rparr>"] by (simp add: pool_abs_def)
  have "t \<notin> set ts" using queue_abs_distinct [OF pq(4)] b(2) by simp
  then obtain s4 where s4: "task_destroy (Some t) ?s3 = Inr ((), s4)" "sys_inv w q ext mq' s4" "pool_abs s4 w q (b\<lparr>b_items := ts\<rparr>)"
      "tasks s4 = (tasks ?s3)(t := None)" "task_frame ?s3 s4"
    using task_destroy_sys [OF inv3 pool3, of t x] x s2(3) by auto
  have "worker_step w s = Inr (True, s4)"
    using W pq s1(1) s2(1) 3 s4(1) by (simp add: worker_step_def bindM_Inr thenM_Inr pool_load_Some returnM_def)
  moreover have "task_core s4 = (task_core s)(t := None)" using s4(4) s2(3) core1 by (auto simp: task_core_def fun_eq_iff)
  moreover have "pools s4 w = Some ?W" using s4(5) task_more_io(1) [of s4 ?s3] by (simp add: task_frame_def)
  ultimately show ?thesis using s4(2,3) by blast
qed


text \<open>Iterations of the loop until a bound or the end of the thread.\<close>

fun worker_run :: "nat \<Rightarrow> addr \<Rightarrow> ('a io_store_scheme, unit) cmd" where
  "worker_run 0 w = returnM ()"
| "worker_run (Suc n) w = bindM (worker_step w) (\<lambda>go. if go then worker_run n w else returnM ())"

lemma worker_run_all:
  "sys_inv w q ext mq s \<Longrightarrow> pool_abs s w q b \<Longrightarrow> \<not> b_shutdown b \<Longrightarrow> pools s w = Some W \<Longrightarrow>
     \<exists>s' mq'. worker_run (length (b_items b)) w s = Inr ((), s') \<and> sys_inv w q ext mq' s' \<and> pool_abs s' w q (b\<lparr>b_items := []\<rparr>) \<and>
        task_core s' = task_core s |` (- set (b_items b)) \<and>
        pools s' w = Some (W\<lparr>p_tasks_completed := p_tasks_completed W + int (length (b_items b))\<rparr>)"
proof (induction "b_items b" arbitrary: b s mq W)
  case Nil
  then have nil: "b_items b = []" by simp
  then have "b\<lparr>b_items := []\<rparr> = b" by (cases b) simp
  moreover have "W\<lparr>p_tasks_completed := p_tasks_completed W + int (length (b_items b))\<rparr> = W" using nil by (cases W) simp
  moreover have "worker_run (length (b_items b)) w s = Inr ((), s)" "task_core s |` (- set (b_items b)) = task_core s"
    using nil by (simp_all add: returnM_def restrict_map_def)
  ultimately show ?case using Nil.prems by (intro exI [of _ s] exI [of _ mq]) simp
next
  case (Cons t ts)
  let ?b = "b\<lparr>b_items := ts\<rparr>" and ?W = "W\<lparr>p_tasks_completed := p_tasks_completed W + 1\<rparr>"
  have items: "b_items b = t # ts" using Cons.hyps(2) by simp
  obtain s1 mq1 where s1: "worker_step w s = Inr (True, s1)" "sys_inv w q ext mq1 s1" "pool_abs s1 w q ?b"
      "task_core s1 = (task_core s)(t := None)" "pools s1 w = Some ?W"
    using worker_step_task [OF Cons.prems(1-3) items Cons.prems(4)] by blast
  obtain s2 mq2 where s2: "worker_run (length ts) w s1 = Inr ((), s2)" "sys_inv w q ext mq2 s2" "pool_abs s2 w q (?b\<lparr>b_items := []\<rparr>)"
      "task_core s2 = task_core s1 |` (- set ts)" "pools s2 w = Some (?W\<lparr>p_tasks_completed := p_tasks_completed ?W + int (length ts)\<rparr>)"
    using Cons.hyps(1) [of ?b, OF _ s1(2,3) _ s1(5)] Cons.prems(3) by auto
  have "task_core s2 = task_core s |` (- set (b_items b))" using s2(4) s1(4) items by (auto simp: restrict_map_def)
  with s1(1) s2 items show ?case by (intro exI [of _ s2] exI [of _ mq2]) (simp add: bindM_def ac_simps)
qed

text \<open>
  A worker gets everything done: left alone with a queue of \<open>n\<close> tasks it completes all of them in \<open>n\<close> iterations, the
  queue is then empty, exactly those tasks are destroyed and the counter has grown by \<open>n\<close>; and once the pool is shut
  down a worker that looks at the flag ends.
\<close>

theorem worker_processes_all:
  assumes "sys_inv w q ext mq s" and "pool_abs s w q b" and "\<not> b_shutdown b" and "pools s w = Some W"
  shows "\<exists>s' mq'. worker_run (length (b_items b)) w s = Inr ((), s') \<and> sys_inv w q ext mq' s' \<and>
           pool_abs s' w q (b\<lparr>b_items := []\<rparr>) \<and> task_core s' = task_core s |` (- set (b_items b)) \<and>
           pools s' w = Some (W\<lparr>p_tasks_completed := p_tasks_completed W + int (length (b_items b))\<rparr>) \<and>
           (\<exists>s''. thread_pool_shutdown (Some w) s' = Inr ((), s'') \<and> worker_thread 1 w s'' = Inr ((), s''))"
proof -
  obtain s' mq' where s': "worker_run (length (b_items b)) w s = Inr ((), s')" "sys_inv w q ext mq' s'"
      "pool_abs s' w q (b\<lparr>b_items := []\<rparr>)" "task_core s' = task_core s |` (- set (b_items b))"
      "pools s' w = Some (W\<lparr>p_tasks_completed := p_tasks_completed W + int (length (b_items b))\<rparr>)"
    using worker_run_all [OF assms] by blast
  obtain s'' V where "thread_pool_shutdown (Some w) s' = Inr ((), s'')" "pools s'' w = Some V" "p_shutdown V"
    using shutdown_pool [OF s'(3)] by (auto simp: bq_shutdown_def elim!: pool_absD)
  moreover from this have "worker_thread 1 w s'' = Inr ((), s'')" by (simp add: worker_step_def bindM_def pool_load_Some returnM_def)
  ultimately show ?thesis using s' by blast
qed


theorem worker_processes_all_witness:
  "\<exists>s' mq'. worker_run 2 60 demo_io_store = Inr ((), s') \<and> sys_inv 60 50 demo_ext mq' s' \<and> task_core s' 2 = None"
proof -
  have 1: "\<not> b_shutdown demo_queue" "length (b_items demo_queue) = 2" "2 \<in> set (b_items demo_queue)" by (simp_all add: demo_queue_def)
  obtain s' mq' where "worker_run 2 60 demo_io_store = Inr ((), s')" "sys_inv 60 50 demo_ext mq' s'"
      "task_core s' = task_core demo_io_store |` (- set (b_items demo_queue))"
    using worker_processes_all [OF demo_sys_inv demo_io_pool_abs 1(1) demo_io_pool] unfolding 1(2) by blast
  with 1(3) show ?thesis by (auto simp: restrict_map_def)
qed

text \<open>
  What a request leads to: \<open>process_request\<close> on a valid connection and a block of at most \<open>BUFFER_SIZE\<close> bytes puts
  exactly the response text at the start of the write buffer, with the position reset to 0 and the size set to its
  length, leaves every other connection as it is, and, unless the allocation of the message fails, appends a
  \<open>IO_MSG_RESPONSE_READY\<close> message about the connection to the queue of the I/O thread that owns it.
\<close>

theorem process_request_answers:
  assumes "sys_inv w q ext mq s" and "conns s a = Some c" and "\<not> c_closing c" and "length d \<le> BUFFER_SIZE"
  shows "\<exists>i s' mq' r c'. process_request (Some a) (Some d) (int (length d)) s = Inr ((), s') \<and> sys_inv w q ext mq' s' \<and>
           build_response d (int (length d)) = (r, int (length r)) \<and>
           conns s' a = Some c' \<and> take (length r) (c_write_buf c') = map Some r \<and> c_write_pos c' = 0 \<and>
           c_write_size c' = int (length r) \<and> (\<forall>b. b \<noteq> a \<longrightarrow> conn_body s' b = conn_body s b) \<and>
           c_io_thread c = Some i \<and>
           (False \<notin> set (take 1 (mem s)) \<longrightarrow> mq' i = mq i @ [next_addr s] \<and>
              map_option (\<lambda>x. (m_type x, m_conn x)) (msgs s' (next_addr s)) = Some (IO_MSG_RESPONSE_READY, Some a))"
proof (rule process_request_sys [OF assms])
  fix i s' mq' r
  assume 1: "c_io_thread c = Some i" "process_request (Some a) (Some d) (int (length d)) s = Inr ((), s')" "sys_inv w q ext mq' s'"
    "build_response d (int (length d)) = (r, int (length r))"
    and body: "conn_body s' = (conn_body s)(a \<mapsto> (store_response r (int (length r)) c)\<lparr>c_ref_count := 0\<rparr>)"
    and msg: "False \<notin> set (take 1 (mem s)) \<Longrightarrow> mq' = mq(i := mq i @ [next_addr s]) \<and>
       map_option (\<lambda>x. (m_type x, m_conn x)) (msgs s' (next_addr s)) = Some (IO_MSG_RESPONSE_READY, Some a)"
  from body have "conn_body s' a = Some ((store_response r (int (length r)) c)\<lparr>c_ref_count := 0\<rparr>)" by simp
  then obtain c' where c': "conns s' a = Some c'" "c'\<lparr>c_ref_count := 0\<rparr> = (store_response r (int (length r)) c)\<lparr>c_ref_count := 0\<rparr>"
    by (auto simp: conn_body_def)
  then have "c_write_buf c' = c_write_buf (store_response r (int (length r)) c)" "c_write_pos c' = 0" "c_write_size c' = int (length r)"
    unfolding store_response_def by (cases c'; cases c; simp)+
  with c' 1 body msg show ?thesis
    by (intro exI [of _ i] exI [of _ s'] exI [of _ mq'] exI [of _ r] exI [of _ c'] conjI) (auto simp: store_response_def)
qed

theorem process_request_answers_witness:
  "\<exists>s' mq'. process_request (Some 0) (Some ''hi'') 2 demo_io_store = Inr ((), s') \<and> sys_inv 60 50 demo_ext mq' s' \<and>
     mq' 80 = [90, 100]"
proof -
  have 1: "conns demo_io_store 0 = Some ((demo_conn 5 5)\<lparr>c_io_thread := Some 80\<rparr>)" "\<not> c_closing ((demo_conn 5 5)\<lparr>c_io_thread := Some 80\<rparr>)"
    "length ''hi'' \<le> BUFFER_SIZE" by (simp_all add: demo_conn_def BUFFER_SIZE_def)
  show ?thesis using process_request_answers [OF demo_sys_inv 1] by (auto simp: demo_mq_def)
qed

end
