(* ===== verification/Io_Read.thy ===== *)
theory Io_Read
  imports System_State
begin

text \<open>
  \<open>handle_read\<close> of \<open>advanced-reactor-server/io_thread.c\<close>: the loop that reads a socket until it would block, makes a task
  of each chunk and hands it to the worker pool, and closes the connection at the end of the stream or on an error.
\<close>

section \<open>Operations\<close>

text \<open>The way every handler closes a connection: the descriptor is closed first and then taken out of the event loop.\<close>

definition close_conn :: "addr \<Rightarrow> addr \<Rightarrow> ('a io_store_scheme, unit) cmd" where
  "close_conn i a =
     bindM (conn_load a) (\<lambda>c. let conn_fd = c_fd c in
     thenM (conn_mark_closing (Some a))
    (bindM (io_load i) (\<lambda>I.
     bindM (event_loop_del (io_event_loop I) conn_fd) (\<lambda>_.
     conn_release (Some a)))))"

text \<open>What the loop does with \<open>n > 0\<close> bytes.\<close>

definition dispatch_read :: "addr \<Rightarrow> addr \<Rightarrow> string \<Rightarrow> int \<Rightarrow> ('a io_store_scheme, unit) cmd" where
  "dispatch_read i a buffer n =
     thenM (io_stats i (\<lambda>I. I\<lparr>io_bytes_read := io_bytes_read I + n\<rparr>))
    (thenM (conn_update a (\<lambda>c. c\<lparr>c_state := CONN_STATE_READING\<rparr>))
    (bindM (task_create TASK_TYPE_PROCESS (Some a) (Some buffer) n) (\<lambda>task.
     thenM (if task \<noteq> None
            then bindM (io_load i) (\<lambda>I. bindM (thread_pool_submit (io_worker_pool I) task) (\<lambda>_. returnM ()))
            else returnM ())
    (bindM (getM now) (\<lambda>t. conn_update a (\<lambda>c. c\<lparr>c_last_active := t\<rparr>))))))"

text \<open>The loop, one unit of fuel per successful read.\<close>

fun handle_read :: "nat \<Rightarrow> addr \<Rightarrow> addr \<Rightarrow> ('a io_store_scheme, unit) cmd" where
  "handle_read fuel i a =
     bindM (conn_load a) (\<lambda>c.
     bindM (sys_read (c_fd c) BUFFER_SIZE) (\<lambda>(n, buffer).
       if 0 < n then
         thenM (dispatch_read i a buffer n)
               (case fuel of 0 \<Rightarrow> failM Out_Of_Fuel | Suc f \<Rightarrow> handle_read f i a)
       else if n = 0 then close_conn i a
       else bindM (getM errno) (\<lambda>e. if e = EAGAIN then returnM () else close_conn i a)))"

declare handle_read.simps [simp del]

section \<open>Reading a socket\<close>

definition rx_bytes :: "rx_item list \<Rightarrow> string" where
  "rx_bytes r = concat (map item_bytes r)"

text \<open>The three kinds of result, with what becomes of the stream.\<close>

lemma sys_read_cases:
  assumes "0 < cnt"
  obtains (data) got rest where "sys_read fd cnt s = Inr ((int (length got), got), s\<lparr>rx := (rx s)(fd := rest)\<rparr>)" "got \<noteq> []"
      "length got \<le> cnt" "rx_size rest < rx_size (rx s fd)" "got @ rx_bytes rest = rx_bytes (rx s fd)"
  | (eof) "sys_read fd cnt s = Inr ((0, []), s)"
  | (error) e rest where "sys_read fd cnt s = Inr ((- 1, []), s\<lparr>errno := e, rx := (rx s)(fd := rest)\<rparr>)" "rx_bytes rest = rx_bytes (rx s fd)"
proof (cases "fd \<in> fd_open s")
  case False
  then have "sys_read fd cnt s = Inr ((- 1, []), s\<lparr>errno := EBADF, rx := (rx s)(fd := rx s fd)\<rparr>)" by (simp add: sys_read_def)
  then show ?thesis by (rule error) simp
next
  case True
  show ?thesis
  proof (cases "rx s fd")
    case Nil
    with True have "sys_read fd cnt s = Inr ((- 1, []), s\<lparr>errno := EAGAIN, rx := (rx s)(fd := rx s fd)\<rparr>)"
      by (cases s) (simp add: sys_read_def fun_upd_idem)
    then show ?thesis by (rule error) simp
  next
    case (Cons x r)
    show ?thesis
    proof (cases x)
      case Fin with True Cons show ?thesis by (intro eof) (simp add: sys_read_def)
    next
      case (RdErr e) with True Cons show ?thesis by (intro error [where e = e and rest = r]) (simp_all add: sys_read_def rx_bytes_def)
    next
      case (Chunk c cs)
      let ?got = "take cnt (c # cs)"
      let ?rest = "case drop cnt (c # cs) of [] \<Rightarrow> r | d # ds \<Rightarrow> Chunk d ds # r"
      have size: "rx_size (case ys of [] \<Rightarrow> r | d # ds \<Rightarrow> Chunk d ds # r) \<le> Suc (length ys) + rx_size r" for ys
        by (cases ys) simp_all
      have bytes: "rx_bytes (case ys of [] \<Rightarrow> r | d # ds \<Rightarrow> Chunk d ds # r) = ys @ rx_bytes r" for ys
        by (cases ys) (simp_all add: rx_bytes_def)
      show ?thesis
      proof (rule data [of ?got ?rest])
        show "rx_size ?rest < rx_size (rx s fd)" using size [of "drop cnt (c # cs)"] Cons Chunk assms by simp
        show "?got @ rx_bytes ?rest = rx_bytes (rx s fd)"
          unfolding bytes using Cons Chunk by (simp add: rx_bytes_def flip: append_assoc del: drop_Cons' take_Cons')
      qed (use True Cons Chunk assms in \<open>simp_all add: sys_read_def Let_def\<close>)
    qed
  qed
qed

section \<open>The pieces\<close>

lemma io_stats_exec:
  assumes "ios s i = Some I" and "io_stats_mutex I = Unlocked" and "io_stats_mutex (f (I\<lparr>io_stats_mutex := Locked\<rparr>)) = Locked"
  shows "io_stats i f s = Inr ((), s\<lparr>ios := (ios s)(i \<mapsto> (f (I\<lparr>io_stats_mutex := Locked\<rparr>))\<lparr>io_stats_mutex := Unlocked\<rparr>)\<rparr>)"
  using assms by (simp add: io_stats_def c_exec c_defs)

lemma kernel_more_maybe_close [simp]: "kernel.more (maybe_close fd s) = kernel.more s"
  by (simp add: maybe_close_def after_close_def)

lemma conn_mark_closing_sys:
  assumes inv: "sys_inv w q ext mq s" and c: "conns s a = Some c" and pool: "pool_abs s w q b"
  shows "\<exists>s'. conn_mark_closing (Some a) s = Inr ((), s') \<and> sys_inv w q ext mq s' \<and> pool_abs s' w q b \<and>
           tasks s' = tasks s \<and> loops s' = loops s \<and> ios s' = ios s \<and> mem s' = mem s \<and> rx s' = rx s \<and> sent s' = sent s \<and>
           conn_count s' = conn_count s \<and> (\<exists>c'. conns s' a = Some c' \<and> c_closing c')"
proof (cases "c_closing c")
  case True
  then show ?thesis using inv c pool io_owned_wf [OF sys_invD(1) [OF inv] c] by (simp add: conn_mark_closing_Some)
next
  case False
  let ?c = "c\<lparr>c_closing := True, c_state := CONN_STATE_CLOSING, c_fd := (if 0 \<le> c_fd c then - 1 else c_fd c)\<rparr>"
  let ?s = "(maybe_close (c_fd c) s)\<lparr>conns := (conns s)(a \<mapsto> ?c)\<rparr>"
  have wf: "conn_wf c" by (rule io_owned_wf [OF sys_invD(1) [OF inv] c])
  have "sys_inv w q ext mq (maybe_close (c_fd c) s)" using inv by (rule sys_inv_kernel) simp_all
  then have "sys_inv w q ext mq ?s"
    using sys_inv_conn_upd [of w q ext mq "maybe_close (c_fd c) s" a c ?c] c wf by (simp add: conn_wf_def)
  moreover have "tasks ?s = tasks s" "queues ?s = queues s" "pools ?s = pools s" "loops ?s = loops s" "ios ?s = ios s"
    by (simp_all add: maybe_close_def after_close_def)
  moreover from this have "pool_abs ?s w q b" using pool pool_abs_cong [of ?s w s q b] by simp
  moreover have "conn_count ?s = conn_count s" using c by (auto simp: conn_count_def fun_eq_iff)
  ultimately show ?thesis using False c wf by (intro exI [of _ ?s]) (simp add: conn_mark_closing_Some)
qed

lemma interest_frame_sys:
  assumes inv: "sys_inv w q ext mq s" and frame: "interest_frame s s'" and pool: "pool_abs s w q b"
  shows "sys_inv w q ext mq s'" "pool_abs s' w q b"
proof -
  show "sys_inv w q ext mq s'" using inv interest_frameD(11,7) [OF frame] by (rule sys_inv_kernel)
  show "pool_abs s' w q b"
    using pool io_frameD(1-3) [OF interest_frame_io(1) [OF frame]] pool_abs_cong [of s' w s q b] by simp
qed

lemma close_conn_sys:
  assumes inv: "sys_inv w q ext mq s" and i: "ios s i = Some I" and c: "conns s a = Some c" and pool: "pool_abs s w q b"
    and ext: "ext a \<noteq> 0"
  shows "\<exists>s'. close_conn i a s = Inr ((), s') \<and> sys_inv w q (ext(a := ext a - 1)) mq s' \<and> pool_abs s' w q b \<and>
           tasks s' = tasks s \<and> mem s' = mem s \<and> rx s' = rx s \<and> sent s' = sent s \<and> ios s' = ios s \<and>
           conn_count s' a = (if c_ref_count c = 1 then None else Some (c_ref_count c - 1)) \<and>
           (\<forall>c'. conns s' a = Some c' \<longrightarrow> c_closing c')"
proof -
  obtain s1 c1 where s1: "conn_mark_closing (Some a) s = Inr ((), s1)" "sys_inv w q ext mq s1" "pool_abs s1 w q b"
      "tasks s1 = tasks s" "loops s1 = loops s" "ios s1 = ios s" "mem s1 = mem s" "rx s1 = rx s"
      "conn_count s1 = conn_count s" "conns s1 a = Some c1" "c_closing c1" "sent s1 = sent s"
    using conn_mark_closing_sys [OF inv c pool] by blast
  have "io_live s1 i" using threads_okD(2) [OF sys_invD(5) [OF s1(2)]] i s1(6) by simp
  then obtain l L where l: "io_event_loop I = Some l" "loops s1 l = Some L" using i s1(6) by (auto elim!: io_liveD)
  obtain r s2 where s2: "event_loop_del (Some l) (c_fd c) s1 = Inr (r, s2)" "interest_frame s1 s2"
    using event_loop_ops_frame(3) [OF l(2)] by blast
  note f2 = interest_frame_io [OF s2(2)] interest_frameD [OF s2(2)]
  have s2': "sys_inv w q ext mq s2" "pool_abs s2 w q b" using interest_frame_sys [OF s1(2) s2(2) s1(3)] .
  obtain s3 where s3: "conn_release (Some a) s2 = Inr ((), s3)" "sys_inv w q (ext(a := ext a - 1)) mq s3" "conn_frame s2 s3"
    using release_sys [OF s2'(1) ext] by blast
  have run: "close_conn i a s = Inr ((), s3)"
    using c s1(1,6) i l s2(1) s3(1) by (simp add: close_conn_def Let_def bindM_Inr thenM_Inr conn_load_Some io_load_Some)
  have c2: "conns s2 a = Some c1" using f2(4) s1(10) by simp
  have wf1: "conn_wf c1" using io_owned_wf [OF sys_invD(1) [OF s1(2)] s1(10)] .
  have cnt: "c_ref_count c1 = c_ref_count c" using s1(9,10) c by (metis conn_count_def option.map(2) option.inject)
  have "conn_count s3 a = (if c_ref_count c = 1 then None else Some (c_ref_count c - 1)) \<and> (\<forall>c'. conns s3 a = Some c' \<longrightarrow> c_closing c')"
    using s3(1) c2 wf1 s1(11) cnt
    by (cases "c_ref_count c = 1") (auto simp: conn_release_last conn_release_shared conn_wf_def conn_count_def)
  moreover have "pool_abs s3 w q b"
    using s2'(2) pool_abs_cong [of s3 w s2 q b] conn_frame_tasks [OF s3(3)] task_more_io(1) by metis
  ultimately show ?thesis
    using run s3(2) conn_frame_tasks(1) [OF s3(3)] conn_frameD(3,4,6) [OF s3(3)] conn_frame_io(3) [OF s3(3)] f2 s1 io_frameD(1) [OF f2(1)]
    by (intro exI [of _ s3]) simp
qed

lemma sys_inv_ios_upd:
  assumes inv: "sys_inv w q ext mq s" and I: "ios s i = Some I"
    and I': "io_event_loop I' = io_event_loop I" "io_worker_pool I' = io_worker_pool I" "io_stats_mutex I' = io_stats_mutex I"
      "io_msg_queue_head I' = io_msg_queue_head I" "io_msg_queue_tail I' = io_msg_queue_tail I" "io_msg_queue_mutex I' = io_msg_queue_mutex I"
  shows "sys_inv w q ext mq (s\<lparr>ios := (ios s)(i \<mapsto> I')\<rparr>)"
proof -
  let ?s = "s\<lparr>ios := (ios s)(i \<mapsto> I')\<rparr>"
  have th: "threads_ok w mq s" by (rule sys_invD [OF inv])
  have "threads_ok w mq ?s"
    unfolding threads_ok_def
  proof (intro conjI allI impI)
    fix j J assume J: "ios ?s j = Some J"
    show "msg_abs ?s j (mq j)" using threads_okD(1) [OF th, of j] J I I' by (cases "j = i") (simp_all add: msg_abs_at_def)
    show "io_live ?s j" using threads_okD(2) [OF th, of j] J I I' by (cases "j = i") (auto simp: io_live_def split: option.splits)
    show "io_worker_pool J = Some w" "io_stats_mutex J = Unlocked"
      using threads_okD(3,4) [OF th, of j] J I I' by (cases "j = i"; simp)+
  next
    fix j k assume "ios ?s j \<noteq> None" "ios ?s k \<noteq> None" "j \<noteq> k"
    then show "set (mq j) \<inter> set (mq k) = {}" using th I by (auto simp: threads_ok_def split: if_splits)
  qed
  moreover have "io_owned ext ?s" using sys_invD(1) [OF inv] I by (rule io_owned_ios)
  moreover have "\<exists>b. pool_abs ?s w q b" using sys_invD(2) [OF inv] pool_abs_cong [of ?s w s q] by simp
  moreover have "conns_ok ?s" using sys_invD(4) [OF inv] by (rule conns_ok_mono) simp_all
  ultimately show ?thesis using sys_invD(3) [OF inv] by (simp add: sys_inv_def tasks_ok_def)
qed

lemma conn_body_fields:
  assumes "conn_body s' = conn_body s" and "conns s a = Some c"
  shows "\<exists>c'. conns s' a = Some c' \<and> c_fd c' = c_fd c \<and> c_closing c' = c_closing c"
proof -
  have "conn_body s' a = Some (c\<lparr>c_ref_count := 0\<rparr>)" unfolding assms(1) using assms(2) by (simp add: conn_body_def)
  then obtain c' where "conns s' a = Some c'" "c'\<lparr>c_ref_count := 0\<rparr> = c\<lparr>c_ref_count := 0\<rparr>" by (auto simp: conn_body_def)
  moreover from this(2) have "c_fd c' = c_fd c" "c_closing c' = c_closing c" by (cases c; cases c'; simp)+
  ultimately show ?thesis by blast
qed

lemma queue_frame_kernel:
  assumes "queue_frame q s s'"
  shows "conns s' = conns s" "ios s' = ios s" "rx s' = rx s" "fd_open s' = fd_open s" "mem s' = mem s" "task_core s' = task_core s"
  using assms task_more_io(3) [of s' s] queue_frame_conns(1) [OF assms]
  by (simp_all add: queue_frame_def) (cases s; cases s'; simp add: conn_store.truncate_def)+

text \<open>
  One chunk: it either finds the queue full, or leaves the connection open and, if the pool still accepts tasks and
  memory is available, a task with exactly this chunk at the end of the queue.
\<close>

lemma dispatch_read_sys:
  assumes inv: "sys_inv w q ext mq s" and i: "ios s i = Some I" and c: "conns s a = Some c" and pool: "pool_abs s w q b"
    and d: "d \<noteq> []" "length d \<le> BUFFER_SIZE"
  shows "(\<not> b_shutdown b \<and> b_max b \<le> int (length (b_items b)) \<and> dispatch_read i a d (int (length d)) s = Inl Would_Block) \<or>
     (\<exists>s' k b' c' I'. dispatch_read i a d (int (length d)) s = Inr ((), s') \<and> sys_inv w q (ext(a := k)) mq s' \<and> ext a \<le> k \<and>
        pool_abs s' w q b' \<and> ios s' i = Some I' \<and> rx s' = rx s \<and> fd_open s' = fd_open s \<and> conns s' a = Some c' \<and> c_fd c' = c_fd c \<and>
        c_closing c' = c_closing c \<and> b_max b' = b_max b \<and> b_shutdown b' = b_shutdown b \<and>
        length (b_items b') \<le> Suc (length (b_items b)) \<and> (\<forall>u. task_core s u \<noteq> None \<longrightarrow> task_core s' u = task_core s u) \<and>
        (mem s = [] \<longrightarrow> mem s' = [] \<and> k = ext a \<and> (\<not> b_shutdown b \<longrightarrow>
           (\<exists>t. b_items b' = b_items b @ [t] \<and> task_core s' t = Some (TASK_TYPE_PROCESS, Some a, Some d, int (length d))))))"
proof -
  let ?n = "int (length d)"
  let ?I = "I\<lparr>io_bytes_read := io_bytes_read I + ?n\<rparr>" and ?c = "c\<lparr>c_state := CONN_STATE_READING\<rparr>"
  let ?s1 = "s\<lparr>ios := (ios s)(i \<mapsto> ?I)\<rparr>"
  let ?s2 = "?s1\<lparr>conns := (conns s)(a \<mapsto> ?c)\<rparr>"
  have I: "io_stats_mutex I = Unlocked" "io_worker_pool I = Some w" using threads_okD [OF sys_invD(5) [OF inv] i] by simp_all
  have 1: "io_stats i (\<lambda>I. I\<lparr>io_bytes_read := io_bytes_read I + ?n\<rparr>) s = Inr ((), ?s1)"
    using io_stats_exec [OF i I(1), of "\<lambda>I. I\<lparr>io_bytes_read := io_bytes_read I + ?n\<rparr>"] I(1) by (cases I) simp
  have inv1: "sys_inv w q ext mq ?s1" using inv i by (rule sys_inv_ios_upd) simp_all
  have "conn_wf ?c" using io_owned_wf [OF sys_invD(1) [OF inv] c] by (simp add: conn_wf_def)
  then have inv2: "sys_inv w q ext mq ?s2" using sys_inv_conn_upd [OF inv1, of a c ?c] c by simp
  have pool2: "pool_abs ?s2 w q b" using pool pool_abs_cong [of ?s2 w s q b] by simp
  have c2: "conns ?s2 a = Some ?c" by simp
  show ?thesis
  proof (rule create_sys [OF inv2 pool2 c2 d])
    fix r s3 k
    assume 3: "task_create TASK_TYPE_PROCESS (Some a) (Some d) ?n ?s2 = Inr (r, s3)"
      "sys_inv w q (ext(a := k)) mq s3" "pool_abs s3 w q b" "ext a \<le> k" "mem ?s2 = [] \<Longrightarrow> r \<noteq> None \<and> k = ext a \<and> mem s3 = []"
      "\<And>t. r = Some t \<Longrightarrow> t \<notin> set (b_items b) \<and> tasks s3 t = Some (new_task TASK_TYPE_PROCESS (Some a) d ?n)"
      "\<And>u. tasks ?s2 u \<noteq> None \<Longrightarrow> tasks s3 u = tasks ?s2 u"
      and f3: "conn_body s3 = conn_body ?s2" "rx s3 = rx ?s2" "ios s3 = ios ?s2" "fd_open s3 = fd_open ?s2"
    obtain c3 where c3: "conns s3 a = Some c3" "c_fd c3 = c_fd c" "c_closing c3 = c_closing c"
      using conn_body_fields [OF f3(1) c2] by auto
    have core3: "task_core s u \<noteq> None \<Longrightarrow> task_core s3 u = task_core s u" for u
      using 3(7) [of u] by (simp add: task_core_def)
    have run: "dispatch_read i a d ?n s =
        thenM (if r \<noteq> None then bindM (io_load i) (\<lambda>I. bindM (thread_pool_submit (io_worker_pool I) r) (\<lambda>_. returnM ())) else returnM ())
              (bindM (getM now) (\<lambda>t. conn_update a (\<lambda>c. c\<lparr>c_last_active := t\<rparr>))) s3"
      using 1 c 3(1) by (simp add: dispatch_read_def thenM_Inr bindM_Inr conn_update_Some)
    have finish: ?thesis
      if s4: "dispatch_read i a d ?n s = (bindM (getM now) (\<lambda>t. conn_update a (\<lambda>c. c\<lparr>c_last_active := t\<rparr>))) s4"
        "sys_inv w q (ext(a := k)) mq s4" "pool_abs s4 w q b4" "conns s4 = conns s3" "ios s4 = ios s3" "rx s4 = rx s3" "fd_open s4 = fd_open s3"
        "mem s4 = mem s3" "task_core s4 = task_core s3" "b_max b4 = b_max b" "b_shutdown b4 = b_shutdown b" "length (b_items b4) \<le> Suc (length (b_items b))"
        "mem s = [] \<longrightarrow> \<not> b_shutdown b \<longrightarrow> (\<exists>t. b_items b4 = b_items b @ [t] \<and> r = Some t)" for s4 b4
    proof -
      let ?c5 = "c3\<lparr>c_last_active := now s4\<rparr>"
      let ?s5 = "s4\<lparr>conns := (conns s4)(a \<mapsto> ?c5)\<rparr>"
      have c4: "conns s4 a = Some c3" using s4(4) c3(1) by simp
      have "dispatch_read i a d ?n s = Inr ((), ?s5)" using s4(1) c4 by (simp add: conn_update_Some)
      moreover have "sys_inv w q (ext(a := k)) mq ?s5"
        using io_owned_wf [OF sys_invD(1) [OF s4(2)] c4] by (intro sys_inv_conn_upd [OF s4(2) c4]) (simp_all add: conn_wf_def)
      moreover have "pool_abs ?s5 w q b4" using s4(3) pool_abs_cong [of ?s5 w s4 q b4] by simp
      moreover have "task_core ?s5 = task_core s3" using s4(9) by (simp add: task_core_def fun_eq_iff)
      moreover have "r = Some t \<Longrightarrow> task_core s3 t = Some (TASK_TYPE_PROCESS, Some a, Some d, ?n)" for t
        using 3(6) [of t] by (simp add: task_core_def new_task_def)
      ultimately show ?thesis
        using s4 3(4,5) f3 c3 core3
        by (intro disjI2 exI [of _ ?s5] exI [of _ k] exI [of _ b4] exI [of _ ?c5] exI [of _ ?I] conjI) auto
    qed
    show ?thesis
    proof (cases r)
      case None
      then have "mem s \<noteq> []" using 3(5) by auto
      with None show ?thesis using run 3(2,3) by (intro finish [of s3 b]) (simp_all add: thenM_Inr returnM_def)
    next
      case (Some t)
      have io3: "io_load i s3 = Inr (?I, s3)" using f3(3) by (simp add: io_load_Some)
      consider "bq_push t b = Push_Wait" "thread_pool_submit (Some w) (Some t) s3 = Inl Would_Block"
        | z s4 b4 where "thread_pool_submit (Some w) (Some t) s3 = Inr (z, s4)" "sys_inv w q (ext(a := k)) mq s4" "pool_abs s4 w q b4"
            "if b_shutdown b then s4 = s3 \<and> b4 = b else bq_push t b = Pushed b4 \<and> queue_frame q s3 s4"
        using submit_sys [OF 3(2,3), of t] 3(6) [OF Some] by blast
      then show ?thesis
      proof cases
        case 1
        then have "\<not> b_shutdown b" "b_max b \<le> int (length (b_items b))" by (auto simp: bq_push_def split: if_splits)
        with 1 show ?thesis using run Some io3 I(2) by (simp add: thenM_def bindM_def)
      next
        case 2
        have run4: "dispatch_read i a d ?n s = (bindM (getM now) (\<lambda>t. conn_update a (\<lambda>c. c\<lparr>c_last_active := t\<rparr>))) s4"
          using run Some io3 I(2) 2(1) by (simp add: thenM_def bindM_def returnM_def)
        have keep: "conns s4 = conns s3" "ios s4 = ios s3" "rx s4 = rx s3" "fd_open s4 = fd_open s3" "mem s4 = mem s3" "task_core s4 = task_core s3"
          "b_max b4 = b_max b" "b_shutdown b4 = b_shutdown b" "\<not> b_shutdown b \<longrightarrow> b_items b4 = b_items b @ [t]" "length (b_items b4) \<le> Suc (length (b_items b))"
          using 2(4) queue_frame_kernel [of q s3 s4] by (auto simp: bq_push_def split: if_splits)
        show ?thesis by (rule finish [OF run4 2(2,3)]) (use keep Some in auto)
      qed
    qed
  qed
qed

section \<open>The loop\<close>

definition task_data :: "'a task_store_scheme \<Rightarrow> addr \<Rightarrow> string" where
  "task_data s t = (case task_core s t of Some (_, _, Some d, _) \<Rightarrow> d | _ \<Rightarrow> [])"

lemma task_data_core: "task_core s t = Some (ty, p, Some d, n) \<Longrightarrow> task_data s t = d"
  by (simp add: task_data_def)

text \<open>
  What \<open>handle_read\<close> leaves behind, from state \<open>s\<close> with queue \<open>b\<close> to state \<open>s'\<close> with queue \<open>b'\<close>: the connection is open as
  before, or its registration was given up and whoever still holds it finds it closing. With memory and an open pool the new
  tasks carry exactly the bytes that were taken from the stream, in order.
\<close>

definition read_done :: "(addr \<Rightarrow> nat) \<Rightarrow> addr \<Rightarrow> connection \<Rightarrow> bqueue \<Rightarrow> 'a io_store_scheme \<Rightarrow> nat \<Rightarrow> bqueue \<Rightarrow> 'a io_store_scheme \<Rightarrow> bool" where
  "read_done ext a c b s k b' s' \<longleftrightarrow>
     b_max b' = b_max b \<and> b_shutdown b' = b_shutdown b \<and> (\<forall>u. task_core s u \<noteq> None \<longrightarrow> task_core s' u = task_core s u) \<and>
     (ext a \<le> k \<and> (mem s = [] \<longrightarrow> k = ext a) \<and> (\<exists>c'. conns s' a = Some c' \<and> c_closing c' = c_closing c \<and> c_fd c' = c_fd c) \<or>
      ext a - 1 \<le> k \<and> (mem s = [] \<longrightarrow> k = ext a - 1) \<and> (\<forall>c'. conns s' a = Some c' \<longrightarrow> c_closing c')) \<and>
     (mem s = [] \<longrightarrow> mem s' = []) \<and>
     (mem s = [] \<longrightarrow> \<not> b_shutdown b \<longrightarrow>
        (\<exists>ts. b_items b' = b_items b @ ts \<and> concat (map (task_data s') ts) @ rx_bytes (rx s' (c_fd c)) = rx_bytes (rx s (c_fd c))))"

lemma read_done_stop:
  assumes "conns s' a = Some c'" "c_closing c' = c_closing c" "c_fd c' = c_fd c" "task_core s' = task_core s" "mem s' = mem s"
    "rx_bytes (rx s' (c_fd c)) = rx_bytes (rx s (c_fd c))"
  shows "read_done ext a c b s (ext a) b s'"
  using assms by (auto simp: read_done_def)

lemma read_done_close:
  assumes "\<forall>c'. conns s' a = Some c' \<longrightarrow> c_closing c'" "task_core s' = task_core s" "mem s' = mem s"
    "rx_bytes (rx s' (c_fd c)) = rx_bytes (rx s (c_fd c))"
  shows "read_done ext a c b s (ext a - 1) b s'"
  using assms by (auto simp: read_done_def)

lemma read_done_step:
  assumes fin: "read_done (ext(a := k)) a c1 b1 s1 k' b' s'" and k: "ext a \<le> k" "mem s = [] \<longrightarrow> mem s1 = [] \<and> k = ext a"
    and c1: "c_fd c1 = c_fd c" "c_closing c1 = c_closing c" and b1: "b_max b1 = b_max b" "b_shutdown b1 = b_shutdown b"
    and core: "\<forall>u. task_core s u \<noteq> None \<longrightarrow> task_core s1 u = task_core s u"
    and new: "mem s = [] \<longrightarrow> \<not> b_shutdown b \<longrightarrow>
       (\<exists>t. b_items b1 = b_items b @ [t] \<and> task_core s1 t = Some (TASK_TYPE_PROCESS, Some a, Some d, n) \<and>
            d @ rx_bytes (rx s1 (c_fd c)) = rx_bytes (rx s (c_fd c)))"
  shows "read_done ext a c b s k' b' s'"
proof -
  note D = fin [unfolded read_done_def]
  have core': "\<forall>u. task_core s u \<noteq> None \<longrightarrow> task_core s' u = task_core s u"
    using core D by (metis option.distinct(1))
  have bytes: "\<exists>ts. b_items b' = b_items b @ ts \<and> concat (map (task_data s') ts) @ rx_bytes (rx s' (c_fd c)) = rx_bytes (rx s (c_fd c))"
    if op: "mem s = []" "\<not> b_shutdown b"
  proof -
    obtain t where t: "b_items b1 = b_items b @ [t]" "task_core s1 t = Some (TASK_TYPE_PROCESS, Some a, Some d, n)"
      "d @ rx_bytes (rx s1 (c_fd c)) = rx_bytes (rx s (c_fd c))" using new op by blast
    obtain ts where ts: "b_items b' = b_items b1 @ ts" "concat (map (task_data s') ts) @ rx_bytes (rx s' (c_fd c)) = rx_bytes (rx s1 (c_fd c))"
      using D op k(2) b1(2) c1(1) by auto
    have "task_core s' t = task_core s1 t" using D t(2) by simp
    then have "task_data s' t = d" using t(2) by (simp add: task_data_core)
    with t ts show ?thesis by (intro exI [of _ "t # ts"]) simp
  qed
  show ?thesis
    unfolding read_done_def using D k c1 b1 core' bytes by (auto simp: fun_upd_same)
qed

lemma handle_read_sys:
  "sys_inv w q ext mq s \<Longrightarrow> ios s i = Some I \<Longrightarrow> conns s a = Some c \<Longrightarrow> pool_abs s w q b \<Longrightarrow> ext a \<noteq> 0 \<Longrightarrow> rx_size (rx s (c_fd c)) \<le> fuel \<Longrightarrow>
     \<not> b_shutdown b \<and> b_max b < int (length (b_items b) + rx_size (rx s (c_fd c))) \<and> handle_read fuel i a s = Inl Would_Block \<or>
     (\<exists>s' k b'. handle_read fuel i a s = Inr ((), s') \<and> sys_inv w q (ext(a := k)) mq s' \<and> pool_abs s' w q b' \<and> ios s' i \<noteq> None \<and>
        read_done ext a c b s k b' s')"
proof (induction fuel arbitrary: s ext I c b rule: less_induct)
  case (less fuel)
  note inv = less.prems(1) and i = less.prems(2) and c = less.prems(3) and pool = less.prems(4) and ext = less.prems(5) and size = less.prems(6)
  have cnt: "0 < BUFFER_SIZE" by (simp add: BUFFER_SIZE_def)
  have closing: ?case
    if run: "handle_read fuel i a s = close_conn i a s1" and k1: "kernel.more s1 = kernel.more s" "next_addr s1 = next_addr s" "mem s1 = mem s"
      and bytes: "rx_bytes (rx s1 (c_fd c)) = rx_bytes (rx s (c_fd c))" for s1
  proof -
    have heap: "conns s1 = conns s" "ios s1 = ios s" "tasks s1 = tasks s" "queues s1 = queues s" "pools s1 = pools s"
      using k1(1) by (cases s; cases s1; simp)+
    have inv1: "sys_inv w q ext mq s1" using inv k1(1,2) by (rule sys_inv_kernel)
    have pool1: "pool_abs s1 w q b" using pool pool_abs_cong [of s1 w s q b] heap by simp
    obtain s2 where s2: "close_conn i a s1 = Inr ((), s2)" "sys_inv w q (ext(a := ext a - 1)) mq s2" "pool_abs s2 w q b"
        "tasks s2 = tasks s1" "mem s2 = mem s1" "rx s2 = rx s1" "ios s2 = ios s1" "\<forall>c'. conns s2 a = Some c' \<longrightarrow> c_closing c'"
      using close_conn_sys [OF inv1 _ _ pool1 ext, of i I c] i c heap by auto
    have "read_done ext a c b s (ext a - 1) b s2"
      using s2 heap k1(3) bytes by (intro read_done_close) (simp_all add: task_core_def fun_eq_iff)
    moreover have "handle_read fuel i a s = Inr ((), s2)" "ios s2 i \<noteq> None" using run s2(1,7) heap(2) i by simp_all
    ultimately show ?thesis using s2(2,3) by blast
  qed
  show ?case
  proof (rule sys_read_cases [OF cnt, of "c_fd c" s])
    assume "sys_read (c_fd c) BUFFER_SIZE s = Inr ((0, []), s)"
    then have "handle_read fuel i a s = close_conn i a s"
      using c by (subst handle_read.simps) (simp add: bindM_def conn_load_Some)
    then show ?case by (rule closing) simp_all
  next
    fix e rest
    let ?s = "s\<lparr>errno := e, rx := (rx s)(c_fd c := rest)\<rparr>"
    assume r: "sys_read (c_fd c) BUFFER_SIZE s = Inr ((- 1, []), ?s)" "rx_bytes rest = rx_bytes (rx s (c_fd c))"
    show ?case
    proof (cases "e = EAGAIN")
      case True
      with r c have "handle_read fuel i a s = Inr ((), ?s)"
        by (subst handle_read.simps) (simp add: bindM_def conn_load_Some getM_def returnM_def)
      moreover have "sys_inv w q ext mq ?s" using inv by (rule sys_inv_kernel) simp_all
      moreover have "pool_abs ?s w q b" using pool pool_abs_cong [of ?s w s q b] by simp
      moreover have "read_done ext a c b s (ext a) b ?s" using c r(2) by (intro read_done_stop) (simp_all add: task_core_def fun_eq_iff)
      ultimately show ?thesis using i by (intro disjI2 exI [of _ ?s] exI [of _ "ext a"] exI [of _ b]) simp
    next
      case False
      with r c have "handle_read fuel i a s = close_conn i a ?s"
        by (subst handle_read.simps) (simp add: bindM_def conn_load_Some getM_def)
      then show ?thesis by (rule closing) (simp_all add: r(2))
    qed
  next
    fix got rest
    let ?s = "s\<lparr>rx := (rx s)(c_fd c := rest)\<rparr>"
    assume r: "sys_read (c_fd c) BUFFER_SIZE s = Inr ((int (length got), got), ?s)" "got \<noteq> []" "length got \<le> BUFFER_SIZE"
      "rx_size rest < rx_size (rx s (c_fd c))" "got @ rx_bytes rest = rx_bytes (rx s (c_fd c))"
    obtain f where f: "fuel = Suc f" "rx_size rest \<le> f" using r(4) size by (cases fuel) auto
    have run: "handle_read fuel i a s = thenM (dispatch_read i a got (int (length got))) (handle_read f i a) ?s"
      using r(1,2) c f(1) by (subst handle_read.simps) (simp add: bindM_def conn_load_Some)
    have inv1: "sys_inv w q ext mq ?s" using inv by (rule sys_inv_kernel) simp_all
    have pool1: "pool_abs ?s w q b" using pool pool_abs_cong [of ?s w s q b] by simp
    have core1: "task_core ?s = task_core s" by (simp add: task_core_def fun_eq_iff)
    have mem1: "mem ?s = mem s" and i1: "ios ?s i = Some I" and c1: "conns ?s a = Some c" using i c by simp_all
    from dispatch_read_sys [OF inv1 i1 c1 pool1 r(2,3), unfolded core1 mem1]
    consider "\<not> b_shutdown b" "b_max b \<le> int (length (b_items b))" "dispatch_read i a got (int (length got)) ?s = Inl Would_Block"
      | s2 k b2 c2 I2 where "dispatch_read i a got (int (length got)) ?s = Inr ((), s2)" "sys_inv w q (ext(a := k)) mq s2" "ext a \<le> k"
          "pool_abs s2 w q b2" "ios s2 i = Some I2" "rx s2 = rx ?s" "conns s2 a = Some c2" "c_fd c2 = c_fd c" "c_closing c2 = c_closing c"
          "b_max b2 = b_max b" "b_shutdown b2 = b_shutdown b" "length (b_items b2) \<le> Suc (length (b_items b))"
          "\<forall>u. task_core s u \<noteq> None \<longrightarrow> task_core s2 u = task_core s u"
          "mem s = [] \<longrightarrow> mem s2 = [] \<and> k = ext a \<and> (\<not> b_shutdown b \<longrightarrow>
             (\<exists>t. b_items b2 = b_items b @ [t] \<and> task_core s2 t = Some (TASK_TYPE_PROCESS, Some a, Some got, int (length got))))"
      by (elim disjE exE conjE) blast+
    then show ?case
    proof cases
      case 1
      then show ?thesis using run r(4) by (intro disjI1) (simp add: thenM_Inl)
    next
      case 2
      have "rx_size (rx s2 (c_fd c2)) \<le> f" "(ext(a := k)) a \<noteq> 0" using 2(3,6,8) f(2) ext by simp_all
      have less: "f < fuel" using f(1) by simp
      from less.IH [OF less 2(2,5,7,4) \<open>(ext(a := k)) a \<noteq> 0\<close> \<open>rx_size (rx s2 (c_fd c2)) \<le> f\<close>] consider
          "\<not> b_shutdown b2" "b_max b2 < int (length (b_items b2) + rx_size (rx s2 (c_fd c2)))" "handle_read f i a s2 = Inl Would_Block"
        | s' k' b' where "handle_read f i a s2 = Inr ((), s')" "sys_inv w q (ext(a := k, a := k')) mq s'" "pool_abs s' w q b'" "ios s' i \<noteq> None"
            "read_done (ext(a := k)) a c2 b2 s2 k' b' s'"
        by (elim disjE exE conjE) blast+
      then show ?thesis
      proof cases
        case b: 1
        then show ?thesis using run 2(1,6,8,10-12) r(4) by (intro disjI1) (auto simp: thenM_Inr)
      next
        case o: 2
        have "read_done ext a c b s k' b' s'"
          by (rule read_done_step [OF o(5) 2(3) _ 2(8-11,13), where d = got and n = "int (length got)"]) (use 2(6,14) r(5) in auto)
        moreover have "handle_read fuel i a s = Inr ((), s')" using run 2(1) o(1) by (simp only: thenM_Inr)
        moreover have "sys_inv w q (ext(a := k')) mq s'" using o(2) by (simp only: fun_upd_upd)
        ultimately show ?thesis using o(3,4) by blast
      qed
    qed
  qed
qed

section \<open>Properties\<close>

text \<open>
  C25. \<open>handle_read\<close> on a registered connection never faults and always comes to an end: with fuel for the scripted stream it
  returns, unless the queue of an open pool lacks room for the chunks and the thread waits for a worker. On return the
  invariant of the server holds; the connection is either as open as before, or its registration was given up and, if
  somebody else still holds it, it is marked closing; and no task that existed before is touched.
\<close>

theorem handle_read_returns:
  assumes "sys_inv w q ext mq s" and "ios s i = Some I" and "conns s a = Some c" and "pool_abs s w q b" and "ext a \<noteq> 0"
    and "rx_size (rx s (c_fd c)) \<le> fuel"
  shows "\<not> b_shutdown b \<and> b_max b < int (length (b_items b) + rx_size (rx s (c_fd c))) \<and> handle_read fuel i a s = Inl Would_Block \<or>
    (\<exists>s' k. handle_read fuel i a s = Inr ((), s') \<and> sys_inv w q (ext(a := k)) mq s' \<and>
       (\<forall>u. task_core s u \<noteq> None \<longrightarrow> task_core s' u = task_core s u) \<and>
       (ext a \<le> k \<and> (\<exists>c'. conns s' a = Some c' \<and> c_closing c' = c_closing c \<and> c_fd c' = c_fd c) \<or>
        ext a - 1 \<le> k \<and> (\<forall>c'. conns s' a = Some c' \<longrightarrow> c_closing c')))"
  using handle_read_sys [OF assms]
proof (elim disjE exE conjE)
  fix s' k b'
  assume 1: "handle_read fuel i a s = Inr ((), s')" "sys_inv w q (ext(a := k)) mq s'" "read_done ext a c b s k b' s'"
  then show ?thesis unfolding read_done_def by blast
qed blast

theorem handle_read_returns_witness:
  "\<exists>s' k. handle_read 0 80 0 demo_io_store = Inr ((), s') \<and> sys_inv 60 50 (demo_ext(0 := k)) demo_mq s'"
proof -
  have 1: "ios demo_io_store 80 = Some demo_io_thread" "conns demo_io_store 0 = Some ((demo_conn 5 5)\<lparr>c_io_thread := Some 80\<rparr>)"
    by simp_all
  have 2: "demo_ext 0 \<noteq> 0" "rx_size (rx demo_io_store (c_fd ((demo_conn 5 5)\<lparr>c_io_thread := Some 80\<rparr>))) \<le> 0"
    by (simp_all add: demo_ext_def)
  show ?thesis using handle_read_returns [OF demo_sys_inv 1 demo_io_pool_abs 2] by (auto simp: demo_queue_def)
qed

text \<open>
  C26. No byte is lost between the socket and the workers: while memory is available, the pool accepts tasks and its queue has
  room, the tasks that \<open>handle_read\<close> appends to the queue carry, in order, exactly the bytes it took from the stream.
\<close>

theorem handle_read_conserves:
  assumes "sys_inv w q ext mq s" and "ios s i = Some I" and "conns s a = Some c" and "pool_abs s w q b" and "ext a \<noteq> 0"
    and "rx_size (rx s (c_fd c)) \<le> fuel" and "int (length (b_items b) + rx_size (rx s (c_fd c))) \<le> b_max b"
    and "\<not> b_shutdown b" and "mem s = []"
  shows "\<exists>s' k b' ts. handle_read fuel i a s = Inr ((), s') \<and> sys_inv w q (ext(a := k)) mq s' \<and> pool_abs s' w q b' \<and>
     b_items b' = b_items b @ ts \<and>
     concat (map (task_data s') ts) @ rx_bytes (rx s' (c_fd c)) = rx_bytes (rx s (c_fd c))"
  using handle_read_sys [OF assms(1-6)]
proof (elim disjE exE conjE)
  assume "b_max b < int (length (b_items b) + rx_size (rx s (c_fd c)))"
  with assms(7) show ?thesis by linarith
next
  fix s' k b'
  assume 1: "handle_read fuel i a s = Inr ((), s')" "sys_inv w q (ext(a := k)) mq s'" "pool_abs s' w q b'" "read_done ext a c b s k b' s'"
  then show ?thesis using assms(8,9) unfolding read_done_def by blast
qed

text \<open>A client that sends one byte and then nothing.\<close>

definition demo_rx_store :: io_store where
  "demo_rx_store = demo_io_store\<lparr>rx := (\<lambda>fd. if fd = 5 then [Chunk (CHR ''h'') []] else [])\<rparr>"

lemma demo_rx_inv: "sys_inv 60 50 demo_ext demo_mq demo_rx_store" "pool_abs demo_rx_store 60 50 demo_queue"
  using sys_inv_kernel [OF demo_sys_inv, of demo_rx_store] demo_io_pool_abs pool_abs_cong [of demo_rx_store 60 demo_io_store 50 demo_queue]
  by (simp_all add: demo_rx_store_def)

theorem handle_read_conserves_witness:
  "\<exists>s' k b' ts. handle_read 2 80 0 demo_rx_store = Inr ((), s') \<and> sys_inv 60 50 (demo_ext(0 := k)) demo_mq s' \<and>
     pool_abs s' 60 50 b' \<and> b_items b' = [1, 2] @ ts \<and> concat (map (task_data s') ts) @ rx_bytes (rx s' 5) = ''h''"
proof -
  let ?c = "(demo_conn 5 5)\<lparr>c_io_thread := Some 80\<rparr>"
  have 1: "ios demo_rx_store 80 = Some demo_io_thread" "conns demo_rx_store 0 = Some ?c" by (simp_all add: demo_rx_store_def)
  have fd: "c_fd ?c = 5" by (simp add: demo_conn_def)
  have 2: "demo_ext 0 \<noteq> 0" "rx_size (rx demo_rx_store (c_fd ?c)) \<le> 2"
    "int (length (b_items demo_queue) + rx_size (rx demo_rx_store (c_fd ?c))) \<le> b_max demo_queue" "\<not> b_shutdown demo_queue"
    "mem demo_rx_store = []" unfolding fd by (simp_all add: demo_ext_def demo_rx_store_def demo_queue_def)
  have 3: "b_items demo_queue = [1, 2]" "rx_bytes (rx demo_rx_store 5) = ''h''" by (simp_all add: demo_queue_def demo_rx_store_def rx_bytes_def)
  show ?thesis using handle_read_conserves [OF demo_rx_inv(1) 1 demo_rx_inv(2) 2] unfolding fd 3 .
qed

end
