(* ===== verification/Io_Write.thy ===== *)
theory Io_Write
  imports Io_Read
begin

text \<open>
  \<open>handle_write\<close> of \<open>advanced-reactor-server/io_thread.c\<close>: the loop that sends the rest of the response until it is out or the
  socket would block, and the switch back to reading.
\<close>

section \<open>Operations\<close>

text \<open>
  One round of the loop is a \<open>write\<close> of the cells \<open>write_buf[write_pos]\<close> to \<open>write_buf[write_size - 1]\<close>; cells beyond the buffer are a
  fault. A \<open>write\<close> that takes nothing counts as an error when \<open>errno\<close> is not \<open>EAGAIN\<close>. The result tells whether
  the function goes on behind the loop.
\<close>

definition write_cells :: "connection \<Rightarrow> cell list" where
  "write_cells c = take (nat (c_write_size c - c_write_pos c)) (drop (nat (c_write_pos c)) (c_write_buf c))"

definition wrote :: "addr \<Rightarrow> addr \<Rightarrow> int \<Rightarrow> ('a io_store_scheme, unit) cmd" where
  "wrote i a n =
     thenM (conn_update a (\<lambda>c. c\<lparr>c_write_pos := c_write_pos c + n\<rparr>))
    (thenM (io_stats i (\<lambda>I. I\<lparr>io_bytes_written := io_bytes_written I + n\<rparr>))
    (bindM (getM now) (\<lambda>t. conn_update a (\<lambda>c. c\<lparr>c_last_active := t\<rparr>))))"

fun write_loop :: "nat \<Rightarrow> addr \<Rightarrow> addr \<Rightarrow> ('a io_store_scheme, bool) cmd" where
  "write_loop fuel i a =
     bindM (conn_load a) (\<lambda>c.
       if c_write_pos c < c_write_size c then
         if c_write_pos c < 0 \<or> int (length (c_write_buf c)) < c_write_size c then failM Out_Of_Bounds
         else bindM (sys_write (c_fd c) (write_cells c)) (\<lambda>n.
           if 0 < n then
             thenM (wrote i a n)
                   (case fuel of 0 \<Rightarrow> failM Out_Of_Fuel | Suc f \<Rightarrow> write_loop f i a)
           else bindM (getM errno) (\<lambda>e.
             if e = EAGAIN then returnM True else thenM (close_conn i a) (returnM False)))
       else returnM True)"

declare write_loop.simps [simp del]

definition back_to_read :: "addr \<Rightarrow> addr \<Rightarrow> ('a io_store_scheme, unit) cmd" where
  "back_to_read i a =
     bindM (io_load i) (\<lambda>I. bindM (conn_load a) (\<lambda>c.
     bindM (event_loop_mod (io_event_loop I) (c_fd c) (EVENT_READ OR EVENT_ET) (U_Conn a)) (\<lambda>_.
     conn_update a (\<lambda>c. c\<lparr>c_state := CONN_STATE_READING\<rparr>))))"

definition handle_write :: "nat \<Rightarrow> addr \<Rightarrow> addr \<Rightarrow> ('a io_store_scheme, unit) cmd" where
  "handle_write fuel i a =
     bindM (conn_load a) (\<lambda>c.
       if c_write_size c \<le> 0 then back_to_read i a
       else bindM (write_loop fuel i a) (\<lambda>go.
         if go then
           bindM (conn_load a) (\<lambda>c.
             whenM (c_write_size c \<le> c_write_pos c)
               (thenM (conn_update a (\<lambda>c. c\<lparr>c_write_pos := 0, c_write_size := 0\<rparr>)) (back_to_read i a)))
         else returnM ()))"

section \<open>Writing to a socket\<close>

text \<open>The bytes of the response that are not sent yet.\<close>

definition pending :: "connection \<Rightarrow> string" where
  "pending c = map the (write_cells c)"

lemma write_cells_wf:
  assumes "conn_wf c"
  shows "length (write_cells c) = nat (c_write_size c - c_write_pos c)" "None \<notin> set (write_cells c)"
proof -
  show "length (write_cells c) = nat (c_write_size c - c_write_pos c)"
    using assms by (auto simp: conn_wf_def write_cells_def)
  have eq: "write_cells c = drop (nat (c_write_pos c)) (take (nat (c_write_size c)) (c_write_buf c))"
    using assms by (simp add: conn_wf_def write_cells_def drop_take nat_diff_distrib)
  then show "None \<notin> set (write_cells c)" using assms set_drop_subset unfolding conn_wf_def eq by fast
qed

lemma write_cells_step:
  assumes "conn_wf c" and "n \<le> nat (c_write_size c - c_write_pos c)"
  shows "write_cells (c\<lparr>c_write_pos := c_write_pos c + int n, c_last_active := t\<rparr>) = drop n (write_cells c)"
proof -
  have "nat (c_write_size c - (c_write_pos c + int n)) = nat (c_write_size c - c_write_pos c) - n"
    and "nat (c_write_pos c + int n) = n + nat (c_write_pos c)" using assms by (auto simp: conn_wf_def)
  then show ?thesis by (simp add: write_cells_def drop_take)
qed

lemma sys_write_cases:
  assumes "None \<notin> set bs"
  obtains (ok) n t where "sys_write fd bs s = Inr (int n, s\<lparr>tx := t, sent := (sent s)(fd := sent s fd @ map the (take n bs))\<rparr>)" "n \<le> length bs"
      "\<exists>k. tx s fd = Accept k # t fd \<and> n = min k (length bs)" "fd \<in> fd_open s"
  | (error) e t where "sys_write fd bs s = Inr (- 1, s\<lparr>errno := e, tx := t\<rparr>)" "fd \<in> fd_open s \<Longrightarrow> \<nexists>k t. tx s fd = Accept k # t"
proof (cases "fd \<in> fd_open s")
  case False
  then have "sys_write fd bs s = Inr (- 1, s\<lparr>errno := EBADF, tx := tx s\<rparr>)" by (simp add: sys_write_def)
  with False show ?thesis using error by blast
next
  case True
  show ?thesis
  proof (cases "tx s fd")
    case Nil
    with True assms have "sys_write fd bs s = Inr (- 1, s\<lparr>errno := EAGAIN, tx := tx s\<rparr>)" by (simp add: sys_write_def)
    with Nil show ?thesis by (intro error [where e = EAGAIN and t = "tx s"]) simp_all
  next
    case (Cons x r)
    show ?thesis
    proof (cases x)
      case (Accept k)
      with True Cons assms show ?thesis
        by (intro ok [of "min k (length bs)" "(tx s)(fd := r)"]) (simp_all add: sys_write_def Let_def)
    next
      case (WrErr e)
      with True Cons assms show ?thesis by (intro error [where e = e and t = "(tx s)(fd := r)"]) (simp_all add: sys_write_def)
    qed
  qed
qed

section \<open>The loop\<close>

lemma conn_wf_progress:
  assumes "conn_wf c" and "n \<le> nat (c_write_size c - c_write_pos c)"
  shows "conn_wf (c\<lparr>c_write_pos := c_write_pos c + int n, c_last_active := t\<rparr>)"
  using assms by (auto simp: conn_wf_def)

lemma wrote_sys:
  assumes inv: "sys_inv w q ext mq s" and i: "ios s i = Some I" and c: "conns s a = Some c" and n: "n \<le> nat (c_write_size c - c_write_pos c)"
  defines "c' \<equiv> c\<lparr>c_write_pos := c_write_pos c + int n, c_last_active := now s\<rparr>"
  defines "s' \<equiv> s\<lparr>conns := (conns s)(a \<mapsto> c'), ios := (ios s)(i \<mapsto> I\<lparr>io_bytes_written := io_bytes_written I + int n\<rparr>)\<rparr>"
  shows "wrote i a (int n) s = Inr ((), s')" "sys_inv w q ext mq s'"
proof -
  let ?c1 = "c\<lparr>c_write_pos := c_write_pos c + int n\<rparr>" and ?I = "I\<lparr>io_bytes_written := io_bytes_written I + int n\<rparr>"
  let ?s1 = "s\<lparr>conns := (conns s)(a \<mapsto> ?c1)\<rparr>"
  have I: "io_stats_mutex I = Unlocked" using threads_okD [OF sys_invD(5) [OF inv] i] by simp
  have 1: "io_stats i (\<lambda>I. I\<lparr>io_bytes_written := io_bytes_written I + int n\<rparr>) ?s1 = Inr ((), ?s1\<lparr>ios := (ios s)(i \<mapsto> ?I)\<rparr>)"
    using io_stats_exec [of ?s1 i I "\<lambda>I. I\<lparr>io_bytes_written := io_bytes_written I + int n\<rparr>"] i I by (cases I) simp
  show "wrote i a (int n) s = Inr ((), s')"
    using 1 c by (cases s) (simp add: wrote_def thenM_Inr bindM_Inr conn_update_Some c'_def s'_def)
  have wf: "conn_wf c'" unfolding c'_def using io_owned_wf [OF sys_invD(1) [OF inv] c] n by (rule conn_wf_progress)
  have "sys_inv w q ext mq (s\<lparr>conns := (conns s)(a \<mapsto> c')\<rparr>)" (is "sys_inv w q ext mq ?s2")
    using inv c wf by (rule sys_inv_conn_upd) (simp_all add: c'_def)
  then show "sys_inv w q ext mq s'" using sys_inv_ios_upd [of w q ext mq ?s2 i I ?I] i by (simp add: s'_def)
qed

text \<open>A socket whose coming writes make progress until \<open>n\<close> bytes are out.\<close>

fun takes :: "tx_item list \<Rightarrow> nat \<Rightarrow> bool" where
  "takes t 0 = True"
| "takes (Accept (Suc k) # t) n = takes t (n - Suc k)"
| "takes t n = False"

text \<open>
  What the loop leaves behind when it does not close the connection: only the position, the time stamp and the statistics have
  changed, and the bytes on the wire and those still pending add up to what they were.
\<close>

definition progress :: "addr \<Rightarrow> addr \<Rightarrow> connection \<Rightarrow> 'a io_store_scheme \<Rightarrow> connection \<Rightarrow> 'a io_store_scheme \<Rightarrow> bool" where
  "progress i a c s c' s' \<longleftrightarrow>
     (\<exists>e t z I' p u. s' = s\<lparr>errno := e, tx := t, sent := (sent s)(c_fd c := z), conns := (conns s)(a \<mapsto> c'), ios := (ios s)(i \<mapsto> I')\<rparr> \<and>
        c' = c\<lparr>c_write_pos := p, c_last_active := u\<rparr> \<and> c_write_pos c \<le> p \<and> p \<le> c_write_size c \<and> io_event_loop I' = io_event_loop (the (ios s i)) \<and>
        z @ pending c' = sent s (c_fd c) @ pending c)"

lemma progressI:
  assumes "s' = s\<lparr>errno := e, tx := t, sent := (sent s)(c_fd c := z), conns := (conns s)(a \<mapsto> c'), ios := (ios s)(i \<mapsto> I')\<rparr>"
    "c' = c\<lparr>c_write_pos := p, c_last_active := u\<rparr>" "c_write_pos c \<le> p" "p \<le> c_write_size c" "ios s i = Some I" "io_event_loop I' = io_event_loop I"
    "z @ pending c' = sent s (c_fd c) @ pending c"
  shows "progress i a c s c' s'"
  unfolding progress_def using assms by (metis option.sel)

lemma progress_refl:
  assumes "ios s i = Some I" "conns s a = Some c" "conn_wf c"
  shows "progress i a c s c (s\<lparr>errno := e, tx := t\<rparr>)"
proof (rule progressI [where z = "sent s (c_fd c)" and I' = I and p = "c_write_pos c" and u = "c_last_active c"])
  show "s\<lparr>errno := e, tx := t\<rparr> = s\<lparr>errno := e, tx := t, sent := (sent s)(c_fd c := sent s (c_fd c)), conns := (conns s)(a \<mapsto> c), ios := (ios s)(i \<mapsto> I)\<rparr>"
    using assms(1,2) by (cases s) (simp add: fun_upd_idem)
qed (use assms in \<open>simp_all add: conn_wf_def\<close>)

text \<open>One successful write in front of the rest of the loop.\<close>

lemma progress_step:
  assumes i: "ios s i = Some I" and wf: "conn_wf c" and n: "n \<le> nat (c_write_size c - c_write_pos c)"
    and c1: "c1 = c\<lparr>c_write_pos := c_write_pos c + int n, c_last_active := u\<rparr>"
    and s1: "s1 = s\<lparr>tx := t, sent := (sent s)(c_fd c := sent s (c_fd c) @ map the (take n (write_cells c))), conns := (conns s)(a \<mapsto> c1), ios := (ios s)(i \<mapsto> I1)\<rparr>"
    and I1: "io_event_loop I1 = io_event_loop I" and rest: "progress i a c1 s1 c' s'"
  shows "progress i a c s c' s'"
proof -
  obtain e t' z I' p u' where r: "s' = s1\<lparr>errno := e, tx := t', sent := (sent s1)(c_fd c1 := z), conns := (conns s1)(a \<mapsto> c'), ios := (ios s1)(i \<mapsto> I')\<rparr>"
    "c' = c1\<lparr>c_write_pos := p, c_last_active := u'\<rparr>" "c_write_pos c1 \<le> p" "p \<le> c_write_size c1" "io_event_loop I' = io_event_loop (the (ios s1 i))"
    "z @ pending c' = sent s1 (c_fd c1) @ pending c1" using rest unfolding progress_def by blast
  have fd: "c_fd c1 = c_fd c" using c1 by simp
  have "pending c1 = map the (drop n (write_cells c))" unfolding pending_def c1 write_cells_step [OF wf n] ..
  then have "sent s1 (c_fd c1) @ pending c1 = sent s (c_fd c) @ pending c"
    unfolding fd pending_def using s1 by (simp flip: map_append)
  moreover have "s' = s\<lparr>errno := e, tx := t', sent := (sent s)(c_fd c := z), conns := (conns s)(a \<mapsto> c'), ios := (ios s)(i \<mapsto> I')\<rparr>"
    unfolding r(1) fd unfolding s1 by (cases s) simp
  ultimately show ?thesis
    using r(2-6) i I1 s1 c1 by (intro progressI [where z = z and I' = I' and p = p and u = u']) simp_all
qed

lemma write_loop_sys:
  "sys_inv w q ext mq s \<Longrightarrow> ios s i = Some I \<Longrightarrow> conns s a = Some c \<Longrightarrow> ext a \<noteq> 0 \<Longrightarrow> nat (c_write_size c - c_write_pos c) \<le> fuel \<Longrightarrow>
     (\<exists>s' c'. write_loop fuel i a s = Inr (True, s') \<and> sys_inv w q ext mq s' \<and> progress i a c s c' s' \<and>
        (c_fd c \<in> fd_open s \<and> takes (tx s (c_fd c)) (nat (c_write_size c - c_write_pos c)) \<longrightarrow> c_write_pos c' = c_write_size c')) \<or>
     (\<exists>s' z r. write_loop fuel i a s = Inr (False, s') \<and> sys_inv w q (ext(a := ext a - 1)) mq s' \<and> tasks s' = tasks s \<and> ios s' i \<noteq> None \<and>
        (\<forall>c'. conns s' a = Some c' \<longrightarrow> c_closing c') \<and> sent s' = (sent s)(c_fd c := z) \<and> z @ r = sent s (c_fd c) @ pending c \<and>
        \<not> (c_fd c \<in> fd_open s \<and> takes (tx s (c_fd c)) (nat (c_write_size c - c_write_pos c))))"
proof (induction fuel arbitrary: s I c rule: less_induct)
  case (less fuel)
  note inv = less.prems(1) and i = less.prems(2) and c = less.prems(3) and ext = less.prems(4) and size = less.prems(5)
  have wf: "conn_wf c" by (rule io_owned_wf [OF sys_invD(1) [OF inv] c])
  note cells = write_cells_wf [OF wf]
  show ?case
  proof (cases "c_write_pos c < c_write_size c")
    case False
    then have "c_write_pos c = c_write_size c" using wf by (simp add: conn_wf_def)
    moreover have "write_loop fuel i a s = Inr (True, s)"
      using False c by (subst write_loop.simps) (simp add: bindM_def conn_load_Some returnM_def)
    moreover have "progress i a c s c s" using progress_refl [OF i c wf, where e = "errno s" and t = "tx s"] by simp
    ultimately show ?thesis using inv by blast
  next
    case True
    have bounds: "\<not> (c_write_pos c < 0 \<or> int (length (c_write_buf c)) < c_write_size c)" using wf by (auto simp: conn_wf_def)
    have run: "write_loop fuel i a s = bindM (sys_write (c_fd c) (write_cells c)) (\<lambda>n.
           if 0 < n then thenM (wrote i a n) (case fuel of 0 \<Rightarrow> failM Out_Of_Fuel | Suc f \<Rightarrow> write_loop f i a)
           else bindM (getM errno) (\<lambda>e. if e = EAGAIN then returnM True else thenM (close_conn i a) (returnM False))) s"
      using True bounds c by (subst write_loop.simps) (simp add: bindM_def conn_load_Some)
    have stop: ?thesis
      if s1: "write_loop fuel i a s = (bindM (getM errno) (\<lambda>e. if e = EAGAIN then returnM True else thenM (close_conn i a) (returnM False))) s1"
        "s1 = s\<lparr>errno := e, tx := t\<rparr>" and no: "\<not> (c_fd c \<in> fd_open s \<and> takes (tx s (c_fd c)) (nat (c_write_size c - c_write_pos c)))" for s1 e t
    proof -
      have inv1: "sys_inv w q ext mq s1" unfolding s1(2) using inv by (rule sys_inv_kernel) simp_all
      show ?thesis
      proof (cases "e = EAGAIN")
        case True
        then have "write_loop fuel i a s = Inr (True, s1)" using s1 by (simp add: bindM_def getM_def returnM_def)
        moreover have "progress i a c s c s1" unfolding s1(2) using i c wf by (rule progress_refl)
        ultimately show ?thesis using inv1 no by blast
      next
        case False
        obtain b where "pool_abs s1 w q b" using sys_invD(2) [OF inv1] by blast
        with inv1 i c ext s1(2) obtain s2 where s2: "close_conn i a s1 = Inr ((), s2)" "sys_inv w q (ext(a := ext a - 1)) mq s2" "sent s2 = sent s1"
            "\<forall>c'. conns s2 a = Some c' \<longrightarrow> c_closing c'" "tasks s2 = tasks s1" "ios s2 = ios s1"
          using close_conn_sys [of w q ext mq s1 i I a c b] by auto
        have "write_loop fuel i a s = Inr (False, s2)" using s1 s2(1) False by (simp add: bindM_def getM_def thenM_Inr returnM_def)
        moreover have "sent s2 = (sent s)(c_fd c := sent s (c_fd c))" "tasks s2 = tasks s" "ios s2 i \<noteq> None" using s2(3,5,6) s1(2) i by simp_all
        ultimately show ?thesis using s2(2,4) no by blast
      qed
    qed
    show ?thesis
    proof (rule sys_write_cases [OF cells(2), of "c_fd c" s])
      fix e t
      assume "sys_write (c_fd c) (write_cells c) s = Inr (- 1, s\<lparr>errno := e, tx := t\<rparr>)" "c_fd c \<in> fd_open s \<Longrightarrow> \<nexists>k t. tx s (c_fd c) = Accept k # t"
      moreover from this(2) True have "\<not> (c_fd c \<in> fd_open s \<and> takes (tx s (c_fd c)) (nat (c_write_size c - c_write_pos c)))"
        by (cases "(tx s (c_fd c), nat (c_write_size c - c_write_pos c))" rule: takes.cases) auto
      ultimately show ?thesis using run by (intro stop) (simp_all add: bindM_def)
    next
      fix n t
      let ?s0 = "s\<lparr>tx := t, sent := (sent s)(c_fd c := sent s (c_fd c) @ map the (take n (write_cells c)))\<rparr>"
      assume n: "sys_write (c_fd c) (write_cells c) s = Inr (int n, ?s0)" "n \<le> length (write_cells c)"
        "\<exists>k. tx s (c_fd c) = Accept k # t (c_fd c) \<and> n = min k (length (write_cells c))" "c_fd c \<in> fd_open s"
      show ?thesis
      proof (cases "n = 0")
        case zero: True
        have "\<not> takes (tx s (c_fd c)) (nat (c_write_size c - c_write_pos c))"
        proof -
          obtain k m where k: "tx s (c_fd c) = Accept k # t (c_fd c)" "min k (length (write_cells c)) = 0"
            "nat (c_write_size c - c_write_pos c) = Suc m"
            using n(3) zero True by (cases "nat (c_write_size c - c_write_pos c)") auto
          then have "k = 0" using cells(1) by simp
          with k show ?thesis by simp
        qed
        then show ?thesis using run n(1) zero by (intro stop [where ?s1.0 = ?s0 and e = "errno s" and t = t]) (simp_all add: bindM_def)
      next
        case pos: False
        have n': "n \<le> nat (c_write_size c - c_write_pos c)" using n(2) cells(1) by simp
        let ?c1 = "c\<lparr>c_write_pos := c_write_pos c + int n, c_last_active := now ?s0\<rparr>" and ?I1 = "I\<lparr>io_bytes_written := io_bytes_written I + int n\<rparr>"
        let ?s1 = "?s0\<lparr>conns := (conns ?s0)(a \<mapsto> ?c1), ios := (ios ?s0)(i \<mapsto> ?I1)\<rparr>"
        have inv0: "sys_inv w q ext mq ?s0" using inv by (rule sys_inv_kernel) simp_all
        have w: "wrote i a (int n) ?s0 = Inr ((), ?s1)" "sys_inv w q ext mq ?s1" using wrote_sys [OF inv0 _ _ n', of i I a] i c by simp_all
        have "0 < fuel" using pos n' size by simp
        then obtain f where f: "fuel = Suc f" by (cases fuel) simp_all
        have size1: "nat (c_write_size ?c1 - c_write_pos ?c1) = nat (c_write_size c - c_write_pos c) - n" by simp
        have size1': "nat (c_write_size ?c1 - c_write_pos ?c1) \<le> f" unfolding size1 using size pos f by simp
        have takes1: "takes (t (c_fd c)) (nat (c_write_size ?c1 - c_write_pos ?c1))"
          if tk: "takes (tx s (c_fd c)) (nat (c_write_size c - c_write_pos c))"
        proof -
          obtain k where k: "tx s (c_fd c) = Accept k # t (c_fd c)" "n = min k (length (write_cells c))" using n(3) by blast
          obtain j where j: "k = Suc j" using k(2) pos by (cases k) auto
          obtain m where m: "nat (c_write_size c - c_write_pos c) = Suc m" using True by (cases "nat (c_write_size c - c_write_pos c)") auto
          have "takes (t (c_fd c)) (Suc m - Suc j)" using tk unfolding k(1) j m by simp
          moreover have "Suc m - Suc j = Suc m - n" using k(2) j m cells(1) by simp
          ultimately show ?thesis unfolding size1 m by simp
        qed
        have run1: "write_loop fuel i a s = write_loop f i a ?s1" using run n(1) pos f w(1) by (simp add: bindM_def thenM_Inr)
        have i1: "ios ?s1 i = Some ?I1" and c1: "conns ?s1 a = Some ?c1" by simp_all
        have lt: "f < fuel" using f by simp
        show ?thesis
          using less.IH [OF lt w(2) i1 c1 ext size1']
        proof (elim disjE exE conjE)
          fix s' c'
          assume r: "write_loop f i a ?s1 = Inr (True, s')" "sys_inv w q ext mq s'" "progress i a ?c1 ?s1 c' s'"
            "c_fd ?c1 \<in> fd_open ?s1 \<and> takes (tx ?s1 (c_fd ?c1)) (nat (c_write_size ?c1 - c_write_pos ?c1)) \<longrightarrow> c_write_pos c' = c_write_size c'"
          have "progress i a c s c' s'"
            by (rule progress_step [OF i wf n' refl _ _ r(3), where t = t and ?I1.0 = ?I1]) simp_all
          then show ?thesis using run1 r(1,2,4) n(4) takes1 by auto
        next
          fix s' z y
          assume r: "write_loop f i a ?s1 = Inr (False, s')" "sys_inv w q (ext(a := ext a - 1)) mq s'" "\<forall>c'. conns s' a = Some c' \<longrightarrow> c_closing c'"
            and keep: "tasks s' = tasks ?s1" "ios s' i \<noteq> None"
            and r': "sent s' = (sent ?s1)(c_fd ?c1 := z)" "z @ y = sent ?s1 (c_fd ?c1) @ pending ?c1"
            "\<not> (c_fd ?c1 \<in> fd_open ?s1 \<and> takes (tx ?s1 (c_fd ?c1)) (nat (c_write_size ?c1 - c_write_pos ?c1)))"
          have "pending ?c1 = map the (drop n (write_cells c))" unfolding pending_def write_cells_step [OF wf n'] ..
          then have "z @ y = sent s (c_fd c) @ pending c" using r'(2) by (simp add: pending_def flip: map_append)
          moreover have "sent s' = (sent s)(c_fd c := z)" "tasks s' = tasks s" using r'(1) keep(1) by simp_all
          moreover have "\<not> (c_fd c \<in> fd_open s \<and> takes (tx s (c_fd c)) (nat (c_write_size c - c_write_pos c)))" using r'(3) takes1 by auto
          moreover have "write_loop fuel i a s = Inr (False, s')" using run1 r(1) by (rule trans)
          ultimately show ?thesis using r(2,3) keep(2) by blast
        qed
      qed
    qed
  qed
qed

section \<open>Switching back to reading\<close>

lemma progressD:
  assumes "progress i a c s c' s'" and "ios s i = Some I"
  obtains I' z p u where "conns s' a = Some c'" "ios s' i = Some I'" "io_event_loop I' = io_event_loop I" "sent s' = (sent s)(c_fd c := z)"
    "z @ pending c' = sent s (c_fd c) @ pending c" "c' = c\<lparr>c_write_pos := p, c_last_active := u\<rparr>" "p \<le> c_write_size c"
    "fd_open s' = fd_open s" "loops s' = loops s" "ep_interest s' = ep_interest s" "kq_filters s' = kq_filters s" "tasks s' = tasks s"
proof -
  obtain e t z I' p u where "s' = s\<lparr>errno := e, tx := t, sent := (sent s)(c_fd c := z), conns := (conns s)(a \<mapsto> c'), ios := (ios s)(i \<mapsto> I')\<rparr>"
    "c' = c\<lparr>c_write_pos := p, c_last_active := u\<rparr>" "p \<le> c_write_size c" "io_event_loop I' = io_event_loop (the (ios s i))"
    "z @ pending c' = sent s (c_fd c) @ pending c" using assms(1) unfolding progress_def by blast
  then show ?thesis using assms(2) by (intro that [where I' = I' and z = z and p = p and u = u]) simp_all
qed

text \<open>The modification of the interest is the only system call of the switch.\<close>

lemma back_to_read_sys:
  assumes inv: "sys_inv w q ext mq s" and i: "ios s i = Some I" and c: "conns s a = Some c"
  shows "\<exists>l r s1. io_event_loop I = Some l \<and> loops s l \<noteq> None \<and> event_loop_mod (Some l) (c_fd c) (EVENT_READ OR EVENT_ET) (U_Conn a) s = Inr (r, s1) \<and>
     interest_frame s s1 \<and> back_to_read i a s = Inr ((), s1\<lparr>conns := (conns s1)(a \<mapsto> c\<lparr>c_state := CONN_STATE_READING\<rparr>)\<rparr>) \<and>
     sys_inv w q ext mq (s1\<lparr>conns := (conns s1)(a \<mapsto> c\<lparr>c_state := CONN_STATE_READING\<rparr>)\<rparr>)"
proof -
  obtain l L where l: "io_event_loop I = Some l" "loops s l = Some L"
    using threads_okD(2) [OF sys_invD(5) [OF inv] i] i by (auto elim!: io_liveD)
  obtain r s1 where s1: "event_loop_mod (Some l) (c_fd c) (EVENT_READ OR EVENT_ET) (U_Conn a) s = Inr (r, s1)" "interest_frame s s1"
    using event_loop_ops_frame(2) [OF l(2)] by blast
  have c1: "conns s1 a = Some c" using c interest_frame_io(4) [OF s1(2)] by simp
  have inv1: "sys_inv w q ext mq s1" using inv interest_frameD(11,7) [OF s1(2)] by (rule sys_inv_kernel)
  have "sys_inv w q ext mq (s1\<lparr>conns := (conns s1)(a \<mapsto> c\<lparr>c_state := CONN_STATE_READING\<rparr>)\<rparr>)"
    using io_owned_wf [OF sys_invD(1) [OF inv] c] by (intro sys_inv_conn_upd [OF inv1 c1]) (simp_all add: conn_wf_def)
  moreover have "back_to_read i a s = Inr ((), s1\<lparr>conns := (conns s1)(a \<mapsto> c\<lparr>c_state := CONN_STATE_READING\<rparr>)\<rparr>)"
    using i c l(1) s1(1) c1 by (simp add: back_to_read_def bindM_def io_load_Some conn_load_Some conn_update_Some)
  ultimately show ?thesis using l s1 by blast
qed

lemma handle_write_idle:
  assumes "conns s a = Some c" and "c_write_size c \<le> 0"
  shows "handle_write fuel i a s = back_to_read i a s"
  using assms by (simp add: handle_write_def bindM_def conn_load_Some)

lemma handle_write_open:
  assumes "conns s a = Some c" and "0 < c_write_size c" and "write_loop fuel i a s = Inr (True, s1)" and "conns s1 a = Some c1"
  shows "handle_write fuel i a s =
    (if c_write_size c1 \<le> c_write_pos c1
     then back_to_read i a (s1\<lparr>conns := (conns s1)(a \<mapsto> c1\<lparr>c_write_pos := 0, c_write_size := 0\<rparr>)\<rparr>)
     else Inr ((), s1))"
  using assms by (simp add: handle_write_def bindM_def conn_load_Some whenM_def conn_update_Some thenM_Inr returnM_def)

lemma handle_write_closed:
  assumes "conns s a = Some c" and "0 < c_write_size c" and "write_loop fuel i a s = Inr (False, s1)"
  shows "handle_write fuel i a s = Inr ((), s1)"
  using assms by (simp add: handle_write_def bindM_def conn_load_Some returnM_def)

lemma pending_empty: "c_write_size c \<le> c_write_pos c \<Longrightarrow> pending c = []"
  by (simp add: pending_def write_cells_def)

lemma pending_empty_iff: "conn_wf c \<Longrightarrow> pending c = [] \<longleftrightarrow> c_write_size c \<le> c_write_pos c"
  using write_cells_wf(1) [of c] by (auto simp: pending_def)

lemma handle_write_sys:
  assumes "sys_inv w q ext mq s" and "ios s i = Some I" and "conns s a = Some c" and "ext a \<noteq> 0" and "nat (c_write_size c - c_write_pos c) \<le> fuel"
  shows "\<exists>s'. handle_write fuel i a s = Inr ((), s') \<and> tasks s' = tasks s \<and> ios s' i \<noteq> None \<and> (\<forall>fd. fd \<noteq> c_fd c \<longrightarrow> sent s' fd = sent s fd) \<and>
     ((\<exists>c'. conns s' a = Some c' \<and> sys_inv w q ext mq s' \<and> c_fd c' = c_fd c \<and> c_closing c' = c_closing c \<and>
         sent s' (c_fd c) @ pending c' = sent s (c_fd c) @ pending c \<and>
         (pending c' = [] \<longrightarrow> c_write_pos c' = 0 \<and> c_write_size c' = 0 \<and> c_state c' = CONN_STATE_READING)) \<or>
      sys_inv w q (ext(a := ext a - 1)) mq s' \<and> (\<forall>c'. conns s' a = Some c' \<longrightarrow> c_closing c') \<and>
         (\<exists>r. sent s' (c_fd c) @ r = sent s (c_fd c) @ pending c))"
proof (cases "c_write_size c \<le> 0")
  case True
  have "conn_wf c" by (rule io_owned_wf [OF sys_invD(1) [OF assms(1)] assms(3)])
  then have 0: "c_write_pos c = 0" "c_write_size c = 0" "pending c = []" using True pending_empty [of c] by (auto simp: conn_wf_def)
  obtain s1 where s1: "interest_frame s s1" "back_to_read i a s = Inr ((), s1\<lparr>conns := (conns s1)(a \<mapsto> c\<lparr>c_state := CONN_STATE_READING\<rparr>)\<rparr>)"
     "sys_inv w q ext mq (s1\<lparr>conns := (conns s1)(a \<mapsto> c\<lparr>c_state := CONN_STATE_READING\<rparr>)\<rparr>)" using back_to_read_sys [OF assms(1-3)] by blast
  then show ?thesis
    using 0 assms(2) interest_frameD(4) [OF s1(1)] io_frameD(1) [OF interest_frame_io(1) [OF s1(1)]] interest_frame_io(3) [OF s1(1)] handle_write_idle [OF assms(3) True] by (auto simp: pending_empty)
next
  case False
  show ?thesis
    using write_loop_sys [OF assms]
  proof (elim disjE exE conjE)
    fix s1 c1
    assume w: "write_loop fuel i a s = Inr (True, s1)" "sys_inv w q ext mq s1" "progress i a c s c1 s1"
    obtain I1 z p u where s1: "conns s1 a = Some c1" "ios s1 i = Some I1" "sent s1 = (sent s)(c_fd c := z)"
        "z @ pending c1 = sent s (c_fd c) @ pending c" "c1 = c\<lparr>c_write_pos := p, c_last_active := u\<rparr>" "tasks s1 = tasks s"
      by (rule progressD [OF w(3) assms(2)])
    have wf1: "conn_wf c1" by (rule io_owned_wf [OF sys_invD(1) [OF w(2)] s1(1)])
    have run: "handle_write fuel i a s =
        (if c_write_size c1 \<le> c_write_pos c1 then back_to_read i a (s1\<lparr>conns := (conns s1)(a \<mapsto> c1\<lparr>c_write_pos := 0, c_write_size := 0\<rparr>)\<rparr>) else Inr ((), s1))"
      using handle_write_open [OF assms(3) _ w(1) s1(1)] False by simp
    show ?thesis
    proof (cases "c_write_size c1 \<le> c_write_pos c1")
      case fin: True
      let ?c2 = "c1\<lparr>c_write_pos := 0, c_write_size := 0\<rparr>"
      let ?s2 = "s1\<lparr>conns := (conns s1)(a \<mapsto> ?c2)\<rparr>" and ?c3 = "?c2\<lparr>c_state := CONN_STATE_READING\<rparr>"
      have inv2: "sys_inv w q ext mq ?s2" using wf1 by (intro sys_inv_conn_upd [OF w(2) s1(1)]) (simp_all add: conn_wf_def BUFFER_SIZE_def)
      have i2: "ios ?s2 i = Some I1" "conns ?s2 a = Some ?c2" using s1(2) by simp_all
      obtain s3 where s3: "interest_frame ?s2 s3" "back_to_read i a ?s2 = Inr ((), s3\<lparr>conns := (conns s3)(a \<mapsto> ?c3)\<rparr>)"
        "sys_inv w q ext mq (s3\<lparr>conns := (conns s3)(a \<mapsto> ?c3)\<rparr>)" using back_to_read_sys [OF inv2 i2] by blast
      have "sent s3 = (sent s)(c_fd c := z)" "pending ?c3 = []" "z = sent s (c_fd c) @ pending c"
        using interest_frameD(4) [OF s3(1)] s1(3,4) pending_empty [OF fin] by (simp_all add: pending_empty)
      then show ?thesis
        using run fin s3(2,3) s1(2,5,6) io_frameD(1) [OF interest_frame_io(1) [OF s3(1)]] interest_frame_io(3) [OF s3(1)] by auto
    next
      case False
      then have "pending c1 \<noteq> []" using pending_empty_iff [OF wf1] by simp
      then show ?thesis using run False s1 w(2) by auto
    qed
  next
    fix s1 z r
    assume "write_loop fuel i a s = Inr (False, s1)" "sys_inv w q (ext(a := ext a - 1)) mq s1" "\<forall>c'. conns s1 a = Some c' \<longrightarrow> c_closing c'"
      "tasks s1 = tasks s" "ios s1 i \<noteq> None" "sent s1 = (sent s)(c_fd c := z)" "z @ r = sent s (c_fd c) @ pending c"
    then show ?thesis using handle_write_closed [OF assms(3)] False by auto
  qed
qed

section \<open>Properties\<close>

text \<open>
  C27. \<open>handle_write\<close> on a registered connection never faults and always returns, with as much fuel as there are bytes to send, and no byte
  of the response is lost or sent twice: what is on the wire followed by what is still pending is what it was before. The
  connection stays open, in reading state with an empty buffer once everything is sent, or its registration was given
  up after an error, with a prefix of the response sent. The invariant of the server is kept and no other socket is written.
\<close>

theorem handle_write_conserves:
  assumes "sys_inv w q ext mq s" and "ios s i = Some I" and "conns s a = Some c" and "ext a \<noteq> 0" and "nat (c_write_size c - c_write_pos c) \<le> fuel"
  shows "\<exists>s'. handle_write fuel i a s = Inr ((), s') \<and> (\<forall>fd. fd \<noteq> c_fd c \<longrightarrow> sent s' fd = sent s fd) \<and>
     ((\<exists>c'. conns s' a = Some c' \<and> sys_inv w q ext mq s' \<and> c_fd c' = c_fd c \<and> c_closing c' = c_closing c \<and>
         sent s' (c_fd c) @ pending c' = sent s (c_fd c) @ pending c \<and>
         (pending c' = [] \<longrightarrow> c_write_pos c' = 0 \<and> c_write_size c' = 0 \<and> c_state c' = CONN_STATE_READING)) \<or>
      sys_inv w q (ext(a := ext a - 1)) mq s' \<and> (\<forall>c'. conns s' a = Some c' \<longrightarrow> c_closing c') \<and>
         (\<exists>r. sent s' (c_fd c) @ r = sent s (c_fd c) @ pending c))"
  using handle_write_sys [OF assms] by blast

lemma loop_cong:
  assumes "loops s' = loops s" and "fd_open s' = fd_open s" and "ep_interest s' = ep_interest s" and "kq_filters s' = kq_filters s"
  shows "loop_ready be l s' fd = loop_ready be l s fd" "loop_registered l s' fd = loop_registered l s fd" "loop_wants l s' fd = loop_wants l s fd"
  unfolding loop_ready_def loop_registered_def loop_wants_def assms by simp_all

lemma mod_to_read:
  assumes "loop_ready be l s fd" and "loop_registered l s fd"
  shows "\<exists>s'. event_loop_mod (Some l) fd (EVENT_READ OR EVENT_ET) d s = Inr (0, s') \<and>
     loop_wants l s' fd = (case be of epoll_ops \<Rightarrow> EVENT_READ | kqueue_ops \<Rightarrow> loop_wants l s fd OR EVENT_READ)"
proof -
  have mask: "(EVENT_READ OR EVENT_ET) AND RW = EVENT_READ" by (simp add: RW_def event_flags)
  show ?thesis
  proof (cases be)
    case epoll_ops
    with assms show ?thesis using epoll_mod_exec [of l s fd "EVENT_READ OR EVENT_ET" d] mask by auto
  next
    case kqueue_ops
    with assms show ?thesis using kqueue_add_exec [of l s fd "EVENT_READ OR EVENT_ET" d] mask by (auto simp: kqueue_mod_exec)
  qed
qed

lemma wants_registered: "loop_wants l s fd \<noteq> 0 \<Longrightarrow> loop_registered l s fd"
  by (auto simp: loop_wants_def loop_registered_def split: option.splits impl.splits)

text \<open>A response that the socket takes.\<close>

lemma write_out_sys:
  assumes "sys_inv w q ext mq s" and "ios s i = Some I" and "conns s a = Some c" and "ext a \<noteq> 0" and "nat (c_write_size c - c_write_pos c) \<le> fuel"
    and "0 < c_write_size c" and "takes (tx s (c_fd c)) (nat (c_write_size c - c_write_pos c))"
    and "io_event_loop I = Some l" and "loop_ready be l s (c_fd c)" and "loop_registered l s (c_fd c)"
  shows "\<exists>s' c'. handle_write fuel i a s = Inr ((), s') \<and> sys_inv w q ext mq s' \<and> conns s' a = Some c' \<and>
     sent s' (c_fd c) = sent s (c_fd c) @ pending c \<and> c_write_pos c' = 0 \<and> c_write_size c' = 0 \<and> c_state c' = CONN_STATE_READING \<and>
     c_fd c' = c_fd c \<and> c_closing c' = c_closing c \<and> c_io_thread c' = c_io_thread c \<and>
     map_option io_event_loop (ios s' i) = Some (Some l) \<and> loop_ready be l s' (c_fd c) \<and> loop_registered l s' (c_fd c) \<and>
     loop_wants l s' (c_fd c) = (case be of epoll_ops \<Rightarrow> EVENT_READ | kqueue_ops \<Rightarrow> loop_wants l s (c_fd c) OR EVENT_READ)"
proof -
  have op: "c_fd c \<in> fd_open s" using assms(9) by (simp add: loop_ready_def)
  obtain s1 c1 where w: "write_loop fuel i a s = Inr (True, s1)" "sys_inv w q ext mq s1" "progress i a c s c1 s1" "c_write_pos c1 = c_write_size c1"
    using write_loop_sys [OF assms(1-5)] op assms(7) by blast
  obtain I1 z p u where s1: "conns s1 a = Some c1" "ios s1 i = Some I1" "io_event_loop I1 = io_event_loop I" "sent s1 = (sent s)(c_fd c := z)"
      "z @ pending c1 = sent s (c_fd c) @ pending c" "c1 = c\<lparr>c_write_pos := p, c_last_active := u\<rparr>"
      "fd_open s1 = fd_open s" "loops s1 = loops s" "ep_interest s1 = ep_interest s" "kq_filters s1 = kq_filters s"
    by (rule progressD [OF w(3) assms(2)])
  let ?c2 = "c1\<lparr>c_write_pos := 0, c_write_size := 0\<rparr>"
  let ?s2 = "s1\<lparr>conns := (conns s1)(a \<mapsto> ?c2)\<rparr>" and ?c3 = "?c2\<lparr>c_state := CONN_STATE_READING\<rparr>"
  have wf1: "conn_wf c1" by (rule io_owned_wf [OF sys_invD(1) [OF w(2)] s1(1)])
  have inv2: "sys_inv w q ext mq ?s2" using wf1 by (intro sys_inv_conn_upd [OF w(2) s1(1)]) (simp_all add: conn_wf_def BUFFER_SIZE_def)
  have i2: "ios ?s2 i = Some I1" "conns ?s2 a = Some ?c2" using s1(2) by simp_all
  have fd: "c_fd ?c2 = c_fd c" using s1(6) by simp
  obtain l' r s3 where s3: "io_event_loop I1 = Some l'" "event_loop_mod (Some l') (c_fd ?c2) (EVENT_READ OR EVENT_ET) (U_Conn a) ?s2 = Inr (r, s3)"
    "interest_frame ?s2 s3" "back_to_read i a ?s2 = Inr ((), s3\<lparr>conns := (conns s3)(a \<mapsto> ?c3)\<rparr>)"
    "sys_inv w q ext mq (s3\<lparr>conns := (conns s3)(a \<mapsto> ?c3)\<rparr>)" using back_to_read_sys [OF inv2 i2] by blast
  have frame2: "loops ?s2 = loops s" "fd_open ?s2 = fd_open s" "ep_interest ?s2 = ep_interest s" "kq_filters ?s2 = kq_filters s" using s1(7-10) by simp_all
  have wants: "loop_wants l s3 (c_fd c) = (case be of epoll_ops \<Rightarrow> EVENT_READ | kqueue_ops \<Rightarrow> loop_wants l s (c_fd c) OR EVENT_READ)"
    using mod_to_read [of be l ?s2 "c_fd c" "U_Conn a"] assms(8-10) s3(1,2) s1(3) unfolding fd loop_cong [OF frame2] by auto
  then have "loop_wants l s3 (c_fd c) \<noteq> 0" by (cases be) (simp_all add: event_flags or_eq_0_iff)
  then have "loop_registered l s3 (c_fd c)" by (rule wants_registered)
  moreover have "loop_ready be l s3 (c_fd c)"
    using assms(9) loop_ready_cong [of s3 s be l] interest_frameD(1) [OF s3(3)] interest_frame_loops [OF s3(3)] s1(7,8) by simp
  moreover have "ios s3 i = Some I1" using interest_frame_io(3) [OF s3(3)] i2(1) by simp
  moreover note wants
  moreover have "loop_wants l (s3\<lparr>conns := (conns s3)(a \<mapsto> ?c3)\<rparr>) (c_fd c) = loop_wants l s3 (c_fd c)" by (rule loop_cong(3)) simp_all
  moreover have "loop_ready be l (s3\<lparr>conns := (conns s3)(a \<mapsto> ?c3)\<rparr>) (c_fd c) = loop_ready be l s3 (c_fd c)"
    "loop_registered l (s3\<lparr>conns := (conns s3)(a \<mapsto> ?c3)\<rparr>) (c_fd c) = loop_registered l s3 (c_fd c)" by (rule loop_cong; simp)+
  moreover have "handle_write fuel i a s = Inr ((), s3\<lparr>conns := (conns s3)(a \<mapsto> ?c3)\<rparr>)"
    using handle_write_open [OF assms(3,6) w(1) s1(1)] w(4) s3(4) by simp
  moreover have "sent s3 (c_fd c) = sent s (c_fd c) @ pending c"
    using interest_frameD(4) [OF s3(3)] s1(4,5) pending_empty [of c1] w(4) by simp
  ultimately show ?thesis using s3(5) by (intro exI [of _ "s3\<lparr>conns := (conns s3)(a \<mapsto> ?c3)\<rparr>"] exI [of _ ?c3]) (simp add: s1(3,6) assms(8))
qed

text \<open>
  C28. A response gets out: if the socket is open and its coming writes each take at least one byte until the response is out,
  \<open>handle_write\<close> sends all of it, resets the position and the size, and goes back to watching for reads; on the kqueue back end
  the connection also stays watched for what it was watched before.
\<close>

theorem handle_write_completes:
  assumes "sys_inv w q ext mq s" and "ios s i = Some I" and "conns s a = Some c" and "ext a \<noteq> 0" and "nat (c_write_size c - c_write_pos c) \<le> fuel"
    and "0 < c_write_size c" and "takes (tx s (c_fd c)) (nat (c_write_size c - c_write_pos c))"
    and "io_event_loop I = Some l" and "loop_ready be l s (c_fd c)" and "loop_registered l s (c_fd c)"
  shows "\<exists>s' c'. handle_write fuel i a s = Inr ((), s') \<and> sys_inv w q ext mq s' \<and> conns s' a = Some c' \<and>
     sent s' (c_fd c) = sent s (c_fd c) @ pending c \<and> c_write_pos c' = 0 \<and> c_write_size c' = 0 \<and> c_state c' = CONN_STATE_READING \<and>
     loop_wants l s' (c_fd c) = (case be of epoll_ops \<Rightarrow> EVENT_READ | kqueue_ops \<Rightarrow> loop_wants l s (c_fd c) OR EVENT_READ)"
  using write_out_sys [OF assms] by blast

text \<open>A connection with a response of two bytes, on a socket that takes them one at a time.\<close>

definition demo_out_conn :: connection where
  "demo_out_conn = (demo_conn 5 5)\<lparr>c_io_thread := Some 80, c_write_buf := [Some (CHR ''o''), Some (CHR ''k'')] @ replicate (BUFFER_SIZE - 2) None,
     c_write_size := 2, c_state := CONN_STATE_WRITING\<rparr>"

definition demo_tx_store :: io_store where
  "demo_tx_store = demo_io_store\<lparr>tx := (\<lambda>fd. if fd = 5 then [Accept 1, Accept 1] else []),
     ep_interest := (\<lambda>_ fd. if fd = 5 then Some (to_epoll_events (EVENT_WRITE OR EVENT_ET), U_Conn 0) else None),
     conns := (conns demo_io_store)(0 \<mapsto> demo_out_conn)\<rparr>"

lemma demo_out_fields:
  "c_fd demo_out_conn = 5" "c_write_size demo_out_conn = 2" "c_write_pos demo_out_conn = 0" "pending demo_out_conn = ''ok''"
  by (simp_all add: demo_out_conn_def demo_conn_def pending_def write_cells_def numeral_2_eq_2)

lemma demo_tx_fields:
  "conns demo_tx_store 0 = Some demo_out_conn" "ios demo_tx_store 80 = Some demo_io_thread" "tx demo_tx_store 5 = [Accept 1, Accept 1]"
  "sent demo_tx_store 5 = []" "io_event_loop demo_io_thread = Some 70"
  by (simp_all add: demo_tx_store_def demo_io_thread_def)

lemma demo_tx_ready: "loop_ready epoll_ops 70 demo_tx_store 5" "loop_registered 70 demo_tx_store 5"
  by (simp_all add: loop_ready_def loop_registered_def demo_tx_store_def demo_loop_def)

lemma demo_tx_inv: "sys_inv 60 50 demo_ext demo_mq demo_tx_store"
proof -
  let ?s = "demo_io_store\<lparr>tx := tx demo_tx_store, ep_interest := ep_interest demo_tx_store\<rparr>"
  have 1: "sys_inv 60 50 demo_ext demo_mq ?s" using demo_sys_inv by (rule sys_inv_kernel) simp_all
  have wf: "conn_wf ((demo_conn 5 5)\<lparr>c_io_thread := Some 80\<rparr>)"
    using io_owned_wf [OF sys_invD(1) [OF demo_sys_inv], of 0] by simp
  have "sys_inv 60 50 demo_ext demo_mq (?s\<lparr>conns := (conns ?s)(0 \<mapsto> demo_out_conn)\<rparr>)"
  proof (rule sys_inv_conn_upd [OF 1])
    show "conns ?s 0 = Some ((demo_conn 5 5)\<lparr>c_io_thread := Some 80\<rparr>)" by simp
    show "conn_wf demo_out_conn" using wf by (simp add: conn_wf_def demo_out_conn_def demo_conn_def BUFFER_SIZE_def numeral_2_eq_2)
  qed (simp_all add: demo_out_conn_def)
  moreover have "?s\<lparr>conns := (conns ?s)(0 \<mapsto> demo_out_conn)\<rparr> = demo_tx_store" by (simp add: demo_tx_store_def)
  ultimately show ?thesis by simp
qed

theorem handle_write_conserves_witness:
  "\<exists>s'. handle_write 2 80 0 demo_tx_store = Inr ((), s') \<and> (\<exists>r. sent s' 5 @ r = ''ok'')"
proof -
  have "demo_ext 0 \<noteq> 0" "nat (c_write_size demo_out_conn - c_write_pos demo_out_conn) \<le> 2" by (simp_all add: demo_ext_def demo_out_fields)
  then show ?thesis
    using handle_write_conserves [OF demo_tx_inv demo_tx_fields(2,1)] unfolding demo_out_fields demo_tx_fields by fastforce
qed

theorem handle_write_completes_witness:
  "\<exists>s'. handle_write 2 80 0 demo_tx_store = Inr ((), s') \<and> sent s' 5 = ''ok'' \<and> loop_wants 70 s' 5 = EVENT_READ"
proof -
  have 1: "demo_ext 0 \<noteq> 0" "nat (c_write_size demo_out_conn - c_write_pos demo_out_conn) \<le> 2" "0 < c_write_size demo_out_conn"
    by (simp_all add: demo_ext_def demo_out_fields)
  have 2: "takes (tx demo_tx_store (c_fd demo_out_conn)) (nat (c_write_size demo_out_conn - c_write_pos demo_out_conn))"
    by (simp add: demo_out_fields demo_tx_fields numeral_2_eq_2)
  have 3: "loop_ready epoll_ops 70 demo_tx_store (c_fd demo_out_conn)" "loop_registered 70 demo_tx_store (c_fd demo_out_conn)"
    using demo_tx_ready by (simp_all add: demo_out_fields)
  show ?thesis
    using handle_write_completes [OF demo_tx_inv demo_tx_fields(2,1) 1 2 demo_tx_fields(5) 3] unfolding demo_out_fields demo_tx_fields by auto
qed

end
