(* ===== verification/Io_Events.thy ===== *)
theory Io_Events
  imports Io_Write
begin

text \<open>
  The event handlers of \<open>io_thread_run\<close> in \<open>advanced-reactor-server/io_thread.c\<close>: a new connection arrives as a pointer through a pipe, a
  message event drains the message queue, and everything else is an event of a connection.
\<close>

section \<open>Operations\<close>

text \<open>
  The pipe event: eight bytes are read as a pointer to a connection. Bytes that are not those of one pointer make a wild pointer.
\<close>

definition register_conn :: "addr \<Rightarrow> addr \<Rightarrow> ('a io_store_scheme, unit) cmd" where
  "register_conn i a =
     bindM (io_load i) (\<lambda>I.
     thenM (conn_update a (\<lambda>c. c\<lparr>c_event_loop := io_event_loop I\<rparr>))
    (thenM (conn_update a (\<lambda>c. c\<lparr>c_io_thread := Some i\<rparr>))
    (bindM (conn_load a) (\<lambda>c.
     bindM (event_loop_add (io_event_loop I) (c_fd c) (EVENT_READ OR EVENT_ET) (U_Conn a)) (\<lambda>r.
       if r = 0 then io_stats i (\<lambda>I. I\<lparr>io_connections_handled := io_connections_handled I + 1\<rparr>)
       else conn_release (Some a))))))"

definition handle_pipe_event :: "addr \<Rightarrow> ('a io_store_scheme, unit) cmd" where
  "handle_pipe_event i =
     bindM (io_load i) (\<lambda>I.
     bindM (sys_pipe_read (fst (io_pipe_fd I)) POINTER_SIZE) (\<lambda>(n, cells).
       if n = int POINTER_SIZE then
         (case cells_ptr cells of None \<Rightarrow> failM Dangling | Some a \<Rightarrow> register_conn i a)
       else returnM ()))"

text \<open>
  An event of a connection. The two \<open>continue\<close>s behind the handlers are the early returns; each follows a call of
  \<open>conn_is_valid\<close> on the pointer that the handler got. Data that points at a pipe of another thread is not a connection.
\<close>

definition handle_hangup :: "addr \<Rightarrow> addr \<Rightarrow> int \<Rightarrow> ('a io_store_scheme, unit) cmd" where
  "handle_hangup i a conn_fd =
     thenM (conn_mark_closing (Some a))
    (bindM (io_load i) (\<lambda>I. bindM (event_loop_del (io_event_loop I) conn_fd) (\<lambda>_. conn_release (Some a))))"

definition handle_conn_event :: "nat \<Rightarrow> addr \<Rightarrow> udata \<Rightarrow> 32 word \<Rightarrow> ('a io_store_scheme, unit) cmd" where
  "handle_conn_event fuel i data events = (case data of
     U_Null \<Rightarrow> returnM ()
   | U_Conn a \<Rightarrow>
       bindM (conn_is_valid (Some a)) (\<lambda>valid.
       if \<not> valid then returnM ()
       else bindM (conn_load a) (\<lambda>c. let conn_fd = c_fd c in
         bindM (if events AND EVENT_READ \<noteq> 0 then thenM (handle_read fuel i a) (conn_is_valid (Some a)) else returnM True) (\<lambda>valid.
         if \<not> valid then returnM ()
         else bindM (if events AND EVENT_WRITE \<noteq> 0 then thenM (handle_write fuel i a) (conn_is_valid (Some a)) else returnM True) (\<lambda>valid.
         if \<not> valid then returnM ()
         else whenM (events AND (EVENT_ERROR OR EVENT_HUP) \<noteq> 0) (handle_hangup i a conn_fd)))))
   | _ \<Rightarrow> failM Dangling)"

definition handle_event :: "nat \<Rightarrow> addr \<Rightarrow> event \<Rightarrow> ('a io_store_scheme, unit) cmd" where
  "handle_event fuel i ev =
     (if ev_data ev = U_Pipe i then handle_pipe_event i
      else if ev_data ev = U_MsgPipe i then handle_msg_event fuel i
      else handle_conn_event fuel i (ev_data ev) (ev_events ev))"

text \<open>The \<open>for\<close> loop over the events of one wait, and the loop of the thread with one unit of fuel per wait.\<close>

fun handle_events :: "nat \<Rightarrow> addr \<Rightarrow> event list \<Rightarrow> ('a io_store_scheme, unit) cmd" where
  "handle_events fuel i [] = returnM ()"
| "handle_events fuel i (ev # evs) = thenM (handle_event fuel i ev) (handle_events fuel i evs)"

definition MAX_EVENTS :: int where
  "MAX_EVENTS = 2048"

definition io_thread_step :: "nat \<Rightarrow> addr \<Rightarrow> ('a io_store_scheme, unit) cmd" where
  "io_thread_step fuel i =
     bindM (io_load i) (\<lambda>I.
     bindM (event_loop_wait (io_event_loop I) MAX_EVENTS 1) (\<lambda>(nfds, events).
       handle_events fuel i (take (nat nfds) events)))"

fun io_thread_run :: "nat \<Rightarrow> nat \<Rightarrow> addr \<Rightarrow> ('a io_store_scheme, unit) cmd" where
  "io_thread_run 0 fuel i = failM Out_Of_Fuel"
| "io_thread_run (Suc rounds) fuel i =
     bindM (io_load i) (\<lambda>I. if io_shutdown I then returnM () else thenM (io_thread_step fuel i) (io_thread_run rounds fuel i))"

section \<open>Connection events\<close>

lemma conn_is_valid_wf:
  assumes "sys_inv w q ext mq s" and "conns s a = Some c"
  shows "conn_is_valid (Some a) s = Inr (\<not> c_closing c, s)"
proof -
  have "conn_wf c" by (rule io_owned_wf [OF sys_invD(1) [OF assms(1)] assms(2)])
  then show ?thesis using assms(2) by (simp add: conn_is_valid_Some conn_wf_def)
qed

lemma conn_is_valid_dangling: "conns s a = None \<Longrightarrow> conn_is_valid (Some a) s = Inl Dangling"
  by (simp add: conn_is_valid_def conn_lock_def conn_load_def derefM_def thenM_def bindM_def)

lemma handle_hangup_close:
  assumes "conns s a = Some c" shows "handle_hangup i a (c_fd c) s = close_conn i a s"
  using assms by (simp add: handle_hangup_def close_conn_def bindM_Inr conn_load_Some Let_def)

text \<open>
  Somebody besides the registration keeps the connection: a second registered holder, or a task that is still queued or at work.
\<close>

definition shared :: "(addr \<Rightarrow> nat) \<Rightarrow> addr \<Rightarrow> 'a io_store_scheme \<Rightarrow> bool" where
  "shared ext a s \<longleftrightarrow> 2 \<le> ext a \<or> (\<exists>t ty d n. task_core s t = Some (ty, Some a, d, n))"

lemma shared_task_live:
  assumes "io_owned ext s" and "task_core s t = Some (ty, Some a, d, n)"
  shows "conns s a \<noteq> None"
  using assms(2) io_owned_task_live [OF assms(1)] by (auto simp: task_core_def)

lemma shared_live:
  assumes "shared ext a s" and "\<forall>u. task_core s u \<noteq> None \<longrightarrow> task_core s' u = task_core s u"
    and "io_owned ext' s'" and "ext a - 1 \<le> ext' a"
  shows "conns s' a \<noteq> None"
  using assms(1) unfolding shared_def
proof (elim disjE exE)
  assume "2 \<le> ext a"
  then have "ext' a \<noteq> 0" using assms(4) by linarith
  then show ?thesis by (rule io_owned_ext_live [OF assms(3)])
next
  fix t ty d n
  assume "task_core s t = Some (ty, Some a, d, n)"
  moreover from this have "task_core s' t = task_core s t" using assms(2) by simp
  ultimately show ?thesis using shared_task_live [OF assms(3)] by metis
qed

text \<open>One handler and the check behind it.\<close>

definition stage :: "addr \<Rightarrow> addr \<Rightarrow> (addr \<Rightarrow> nat) \<Rightarrow> (addr \<Rightarrow> addr list) \<Rightarrow> addr \<Rightarrow> addr \<Rightarrow> connection \<Rightarrow> 'a io_store_scheme \<Rightarrow>
    nat \<Rightarrow> connection \<Rightarrow> 'a io_store_scheme \<Rightarrow> bool" where
  "stage w q ext mq i a c s k c' s' \<longleftrightarrow>
     sys_inv w q (ext(a := k)) mq s' \<and> ios s' i \<noteq> None \<and> conns s' a = Some c' \<and>
     (\<forall>u. task_core s u \<noteq> None \<longrightarrow> task_core s' u = task_core s u) \<and>
     ext a - 1 \<le> k \<and> (\<not> c_closing c' \<longrightarrow> ext a \<le> k \<and> c_fd c' = c_fd c)"

lemma stage_refl: "sys_inv w q ext mq s \<Longrightarrow> ios s i = Some I \<Longrightarrow> conns s a = Some c \<Longrightarrow> stage w q ext mq i a c s (ext a) c s"
  by (simp add: stage_def)

lemma stageI:
  assumes "shared ext a s" and "sys_inv w q (ext(a := k)) mq s'" and "ios s' i \<noteq> None" and "ext a - 1 \<le> k"
    and "\<forall>u. task_core s u \<noteq> None \<longrightarrow> task_core s' u = task_core s u"
    and "\<And>c'. conns s' a = Some c' \<Longrightarrow> \<not> c_closing c' \<Longrightarrow> ext a \<le> k \<and> c_fd c' = c_fd c"
  shows "\<exists>c'. stage w q ext mq i a c s k c' s'"
proof -
  have "conns s' a \<noteq> None" using shared_live [OF assms(1,5) sys_invD(1) [OF assms(2)]] assms(4) by simp
  then obtain c' where "conns s' a = Some c'" by blast
  with assms show ?thesis unfolding stage_def by blast
qed

lemma stage_valid:
  assumes "stage w q ext mq i a c s k c' s'"
  shows "conn_is_valid (Some a) s' = Inr (\<not> c_closing c', s')"
proof (rule conn_is_valid_wf)
  show "sys_inv w q (ext(a := k)) mq s'" "conns s' a = Some c'" using assms unfolding stage_def by blast+
qed

lemma read_stage:
  assumes "sys_inv w q ext mq s" and "ios s i = Some I" and "conns s a = Some c" and "pool_abs s w q b" and "ext a \<noteq> 0"
    and "shared ext a s" and "rx_size (rx s (c_fd c)) \<le> fuel"
  shows "thenM (handle_read fuel i a) (conn_is_valid (Some a)) s = Inl Would_Block \<and>
      \<not> b_shutdown b \<and> b_max b < int (length (b_items b) + rx_size (rx s (c_fd c))) \<or>
    (\<exists>s' k c'. thenM (handle_read fuel i a) (conn_is_valid (Some a)) s = Inr (\<not> c_closing c', s') \<and> stage w q ext mq i a c s k c' s')"
  using handle_read_sys [OF assms(1-5,7)]
proof (elim disjE exE conjE)
  fix s' k b'
  assume r: "handle_read fuel i a s = Inr ((), s')" "sys_inv w q (ext(a := k)) mq s'" "ios s' i \<noteq> None" "read_done ext a c b s k b' s'"
  have "\<exists>c'. stage w q ext mq i a c s k c' s'"
    using r(4) by (intro stageI [OF assms(6) r(2,3)]) (auto simp: read_done_def)
  then obtain c' where c': "stage w q ext mq i a c s k c' s'" by blast
  then have "conn_is_valid (Some a) s' = Inr (\<not> c_closing c', s')" by (rule stage_valid)
  with c' r(1) show ?thesis by (metis thenM_Inr)
qed (simp add: thenM_Inl)

lemma write_stage:
  assumes "sys_inv w q ext mq s" and "ios s i = Some I" and "conns s a = Some c" and "ext a \<noteq> 0"
    and "shared ext a s" and "BUFFER_SIZE \<le> fuel"
  shows "\<exists>s' k c'. thenM (handle_write fuel i a) (conn_is_valid (Some a)) s = Inr (\<not> c_closing c', s') \<and> stage w q ext mq i a c s k c' s'"
proof -
  have "nat (c_write_size c - c_write_pos c) \<le> fuel"
    using io_owned_wf [OF sys_invD(1) [OF assms(1)] assms(3)] assms(6) by (auto simp: conn_wf_def)
  from handle_write_sys [OF assms(1-4) this] obtain s' where
      r: "handle_write fuel i a s = Inr ((), s')" "tasks s' = tasks s" "ios s' i \<noteq> None"
    and cases: "(\<exists>c'. conns s' a = Some c' \<and> sys_inv w q ext mq s' \<and> c_fd c' = c_fd c) \<or>
      sys_inv w q (ext(a := ext a - 1)) mq s' \<and> (\<forall>c'. conns s' a = Some c' \<longrightarrow> c_closing c')" by blast
  have core: "\<forall>u. task_core s u \<noteq> None \<longrightarrow> task_core s' u = task_core s u" using r(2) by (simp add: task_core_def)
  obtain k c' where c': "stage w q ext mq i a c s k c' s'"
    using cases
  proof (elim disjE exE conjE)
    fix c' assume "conns s' a = Some c'" "sys_inv w q ext mq s'" "c_fd c' = c_fd c"
    then show ?thesis using core r(3) by (intro that [of "ext a" c']) (simp add: stage_def)
  next
    assume s': "sys_inv w q (ext(a := ext a - 1)) mq s'" "\<forall>c'. conns s' a = Some c' \<longrightarrow> c_closing c'"
    have "\<exists>c'. stage w q ext mq i a c s (ext a - 1) c' s'" using s'(2) core by (intro stageI [OF assms(5) s'(1) r(3)]) auto
    then show ?thesis using that by blast
  qed
  then have "conn_is_valid (Some a) s' = Inr (\<not> c_closing c', s')" by (rule stage_valid)
  with c' r(1) show ?thesis by (metis thenM_Inr)
qed

lemma stage_shared:
  assumes "shared ext a s" and "stage w q ext mq i a c s k c' s'" and "\<not> c_closing c'"
  shows "shared (ext(a := k)) a s'"
  using assms(1) unfolding shared_def
proof (elim disjE exE)
  assume "2 \<le> ext a"
  then show "2 \<le> (ext(a := k)) a \<or> (\<exists>t ty d n. task_core s' t = Some (ty, Some a, d, n))" using assms(2,3) by (simp add: stage_def)
next
  fix t ty d n assume "task_core s t = Some (ty, Some a, d, n)"
  then have "task_core s' t = Some (ty, Some a, d, n)" using assms(2) by (simp add: stage_def)
  then show "2 \<le> (ext(a := k)) a \<or> (\<exists>t ty d n. task_core s' t = Some (ty, Some a, d, n))" by blast
qed

lemma stage_trans:
  assumes "stage w q ext mq i a c s k c1 s1" and "stage w q (ext(a := k)) mq i a c1 s1 k' c' s'" and "\<not> c_closing c1"
  shows "stage w q ext mq i a c s k' c' s'"
proof -
  have "\<forall>u. task_core s u \<noteq> None \<longrightarrow> task_core s' u = task_core s u" using assms(1,2) unfolding stage_def by (metis option.distinct(1))
  with assms show ?thesis unfolding stage_def by (simp add: fun_upd_upd) linarith
qed

text \<open>The stages of an event, put together; the connection outlives the event because it is shared.\<close>

lemma handle_conn_event_run:
  assumes "sys_inv w q ext mq s" and "conns s a = Some c"
  shows "handle_conn_event fuel i (U_Conn a) ev s =
    (if c_closing c then Inr ((), s)
     else bindM (if ev AND EVENT_READ \<noteq> 0 then thenM (handle_read fuel i a) (conn_is_valid (Some a)) else returnM True) (\<lambda>valid.
       if \<not> valid then returnM ()
       else bindM (if ev AND EVENT_WRITE \<noteq> 0 then thenM (handle_write fuel i a) (conn_is_valid (Some a)) else returnM True) (\<lambda>valid.
       if \<not> valid then returnM ()
       else whenM (ev AND (EVENT_ERROR OR EVENT_HUP) \<noteq> 0) (handle_hangup i a (c_fd c)))) s)"
  using conn_is_valid_wf [OF assms] assms(2)
  by (simp add: handle_conn_event_def bindM_def [of "conn_is_valid (Some a)"] bindM_def [of "conn_load a"] conn_load_Some Let_def returnM_def [of "()"])

lemma hangup_stage:
  assumes inv: "sys_inv w q ext mq s" and i: "ios s i = Some I" and c: "conns s a = Some c" and ext: "ext a \<noteq> 0" and sh: "shared ext a s"
  shows "\<exists>s' k c'. whenM b (handle_hangup i a (c_fd c)) s = Inr ((), s') \<and> stage w q ext mq i a c s k c' s'"
proof (cases b)
  case True
  obtain b' where "pool_abs s w q b'" using sys_invD(2) [OF inv] by blast
  from close_conn_sys [OF inv i c this ext] obtain s' where s': "close_conn i a s = Inr ((), s')" "sys_inv w q (ext(a := ext a - 1)) mq s'"
    "tasks s' = tasks s" "ios s' = ios s" "\<forall>c'. conns s' a = Some c' \<longrightarrow> c_closing c'" by blast
  then have "\<exists>c'. stage w q ext mq i a c s (ext a - 1) c' s'" using i by (intro stageI [OF sh s'(2)]) (auto simp: task_core_def)
  then show ?thesis using True handle_hangup_close [OF c] s'(1) by (auto simp: whenM_def)
next
  case False
  then show ?thesis using stage_refl [OF inv i c] by (auto simp: whenM_def returnM_def)
qed

lemma stageD:
  assumes "stage w q ext mq i a c s k c' s'" and "\<not> c_closing c'" and "ext a \<noteq> 0"
  obtains I' where "sys_inv w q (ext(a := k)) mq s'" "ios s' i = Some I'" "conns s' a = Some c'" "(ext(a := k)) a \<noteq> 0" "c_fd c' = c_fd c"
  using assms by (auto simp: stage_def)

lemma conn_event_sys:
  assumes inv: "sys_inv w q ext mq s" and i: "ios s i = Some I" and c: "conns s a = Some c" and pool: "pool_abs s w q b" and ext: "ext a \<noteq> 0"
    and sh: "shared ext a s" and fuel: "rx_size (rx s (c_fd c)) \<le> fuel" "BUFFER_SIZE \<le> fuel"
  shows "handle_conn_event fuel i (U_Conn a) ev s = Inl Would_Block \<and>
      \<not> b_shutdown b \<and> b_max b < int (length (b_items b) + rx_size (rx s (c_fd c))) \<or>
    (\<exists>s' k c'. handle_conn_event fuel i (U_Conn a) ev s = Inr ((), s') \<and> stage w q ext mq i a c s k c' s')"
proof (cases "c_closing c")
  case True
  then show ?thesis using handle_conn_event_run [OF inv c] stage_refl [OF inv i c] by auto
next
  case op: False
  let ?read = "if ev AND EVENT_READ \<noteq> 0 then thenM (handle_read fuel i a) (conn_is_valid (Some a)) else returnM True"
  let ?wrt = "if ev AND EVENT_WRITE \<noteq> 0 then thenM (handle_write fuel i a) (conn_is_valid (Some a)) else returnM True"
  let ?hup = "whenM (ev AND (EVENT_ERROR OR EVENT_HUP) \<noteq> 0) (handle_hangup i a (c_fd c))"
  have run: "handle_conn_event fuel i (U_Conn a) ev s =
      bindM ?read (\<lambda>v. if \<not> v then returnM () else bindM ?wrt (\<lambda>v. if \<not> v then returnM () else ?hup)) s"
    using handle_conn_event_run [OF inv c] op by simp
  consider "?read s = Inl Would_Block" "\<not> b_shutdown b" "b_max b < int (length (b_items b) + rx_size (rx s (c_fd c)))"
    | s1 k1 c1 where "?read s = Inr (\<not> c_closing c1, s1)" "stage w q ext mq i a c s k1 c1 s1"
    using read_stage [OF inv i c pool ext sh fuel(1)] stage_refl [OF inv i c] op by (cases "ev AND EVENT_READ \<noteq> 0") (auto simp: returnM_def)
  then show ?thesis
  proof cases
    case 1
    then show ?thesis using run by (simp add: bindM_Inl)
  next
    case r: 2
    show ?thesis
    proof (cases "c_closing c1")
      case True
      then have "handle_conn_event fuel i (U_Conn a) ev s = Inr ((), s1)" using run r(1) by (simp add: bindM_def returnM_def)
      with r(2) show ?thesis by blast
    next
      case False
      obtain I1 where s1: "sys_inv w q (ext(a := k1)) mq s1" "ios s1 i = Some I1" "conns s1 a = Some c1" "(ext(a := k1)) a \<noteq> 0" "c_fd c1 = c_fd c"
        using stageD [OF r(2) False ext] .
      have sh1: "shared (ext(a := k1)) a s1" by (rule stage_shared [OF sh r(2) False])
      obtain s2 k2 c2 where w: "?wrt s1 = Inr (\<not> c_closing c2, s2)" "stage w q (ext(a := k1)) mq i a c1 s1 k2 c2 s2"
        using write_stage [OF s1(1-4) sh1 fuel(2)] stage_refl [OF s1(1-3)] False by (cases "ev AND EVENT_WRITE \<noteq> 0") (auto simp: returnM_def)
      have run2: "handle_conn_event fuel i (U_Conn a) ev s = (if c_closing c2 then Inr ((), s2) else ?hup s2)"
        using run r(1) False w(1) by (simp add: bindM_def returnM_def)
      have st2: "stage w q ext mq i a c s k2 c2 s2" by (rule stage_trans [OF r(2) w(2) False])
      show ?thesis
      proof (cases "c_closing c2")
        case True
        then show ?thesis using run2 st2 by auto
      next
        case False
        obtain I2 where s2: "sys_inv w q (ext(a := k2)) mq s2" "ios s2 i = Some I2" "conns s2 a = Some c2" "(ext(a := k2)) a \<noteq> 0" "c_fd c2 = c_fd c"
          using stageD [OF st2 False ext] .
        obtain s3 k3 c3 where h: "?hup s2 = Inr ((), s3)" "stage w q (ext(a := k2)) mq i a c2 s2 k3 c3 s3"
          using hangup_stage [OF s2(1-4) stage_shared [OF sh st2 False]] unfolding s2(5) by blast
        have "handle_conn_event fuel i (U_Conn a) ev s = Inr ((), s3)" using run2 False h(1) by simp
        with stage_trans [OF st2 h(2) False] show ?thesis by blast
      qed
    qed
  qed
qed

text \<open>
  C29. Events of a connection that somebody else also holds, such as a task on its way through the workers, are handled safely: whatever
  the peer does and whichever events are reported, the handler returns without touching freed memory, or waits for room
  in the queue of the workers; the invariant of the server holds and the connection is still allocated afterwards.
\<close>

theorem conn_event_safe:
  assumes "sys_inv w q ext mq s" and "ios s i = Some I" and "conns s a = Some c" and "pool_abs s w q b" and "ext a \<noteq> 0"
    and "2 \<le> ext a \<or> (\<exists>t x. tasks s t = Some x \<and> t_conn x = Some a)"
    and "rx_size (rx s (c_fd c)) \<le> fuel" and "BUFFER_SIZE \<le> fuel"
  shows "handle_conn_event fuel i (U_Conn a) ev s = Inl Would_Block \<and>
      \<not> b_shutdown b \<and> b_max b < int (length (b_items b) + rx_size (rx s (c_fd c))) \<or>
    (\<exists>s' k. handle_conn_event fuel i (U_Conn a) ev s = Inr ((), s') \<and> sys_inv w q (ext(a := k)) mq s' \<and>
       ext a - 1 \<le> k \<and> conns s' a \<noteq> None)"
proof -
  have "shared ext a s" using assms(6) by (fastforce simp: shared_def task_core_def)
  then show ?thesis
    using conn_event_sys [OF assms(1-5) _ assms(7,8)] unfolding stage_def by (metis option.distinct(1))
qed

theorem conn_event_safe_witness:
  "\<exists>s' k. handle_conn_event BUFFER_SIZE 80 (U_Conn 0) EVENT_HUP demo_io_store = Inr ((), s') \<and>
     sys_inv 60 50 (demo_ext(0 := k)) demo_mq s' \<and> conns s' 0 \<noteq> None"
proof -
  let ?c = "(demo_conn 5 5)\<lparr>c_io_thread := Some 80\<rparr>"
  have 1: "ios demo_io_store 80 = Some demo_io_thread" "conns demo_io_store 0 = Some ?c" by simp_all
  have 2: "demo_ext 0 \<noteq> 0" "2 \<le> demo_ext 0 \<or> (\<exists>t x. tasks demo_io_store t = Some x \<and> t_conn x = Some 0)"
    "rx_size (rx demo_io_store (c_fd ?c)) \<le> BUFFER_SIZE" "BUFFER_SIZE \<le> BUFFER_SIZE"
    by (auto simp: demo_ext_def demo_task_store_def demo_task_def intro!: exI [of _ 3])
  show ?thesis using conn_event_safe [OF demo_sys_inv 1 demo_io_pool_abs 2, of EVENT_HUP] by (auto simp: demo_queue_def)
qed

text \<open>
  C30. The handler uses freed memory when the registration holds the only reference: if the peer has closed its end,
  the read handler releases that reference, which frees the connection, and the check behind it dereferences the
  pointer. The claim states the fault for every such state.
\<close>

theorem conn_event_use_after_free:
  assumes "sys_inv w q ext mq s" and "ios s i = Some I" and "conns s a = Some c" and "ext a \<noteq> 0" and "c_ref_count c = 1"
    and "\<not> c_closing c" and "c_fd c \<in> fd_open s" and "rx s (c_fd c) = Fin # r" and "ev AND EVENT_READ \<noteq> 0"
  shows "handle_conn_event fuel i (U_Conn a) ev s = Inl Dangling"
proof -
  obtain b where "pool_abs s w q b" using sys_invD(2) [OF assms(1)] by blast
  from close_conn_sys [OF assms(1-3) this assms(4)] obtain s' where s': "close_conn i a s = Inr ((), s')" "conn_count s' a = None"
    using assms(5) by auto
  have "sys_read (c_fd c) BUFFER_SIZE s = Inr ((0, []), s)" using assms(7,8) by (simp add: sys_read_def)
  then have "handle_read fuel i a s = close_conn i a s" using assms(3) by (subst handle_read.simps) (simp add: bindM_def conn_load_Some)
  then have "thenM (handle_read fuel i a) (conn_is_valid (Some a)) s = Inl Dangling"
    using s' by (simp add: thenM_Inr conn_is_valid_dangling conn_count_None)
  then show ?thesis using handle_conn_event_run [OF assms(1,3)] assms(6,9) by (simp add: bindM_Inl)
qed

text \<open>An idle server: one connection, held by its registration only, whose peer has closed its end.\<close>

definition demo_idle_conn :: connection where
  "demo_idle_conn = (demo_conn 5 1)\<lparr>c_io_thread := Some 80\<rparr>"

definition demo_idle_io :: io_thread where
  "demo_idle_io = demo_io_thread\<lparr>io_msg_queue_head := None, io_msg_queue_tail := None\<rparr>"

definition demo_idle_store :: io_store where
  "demo_idle_store = demo_io_store\<lparr>rx := (\<lambda>fd. if fd = 5 then [Fin] else []), conns := [0 \<mapsto> demo_idle_conn], tasks := Map.empty,
     queues := [50 \<mapsto> empty_queue 4], msgs := Map.empty, ios := [80 \<mapsto> demo_idle_io]\<rparr>"

lemma demo_idle_fields [simp]:
  "conns demo_idle_store = [0 \<mapsto> demo_idle_conn]" "tasks demo_idle_store = Map.empty" "queues demo_idle_store = [50 \<mapsto> empty_queue 4]"
  "msgs demo_idle_store = Map.empty" "ios demo_idle_store = [80 \<mapsto> demo_idle_io]" "pools demo_idle_store = pools demo_pool_store"
  "loops demo_idle_store = [70 \<mapsto> demo_loop]" "next_addr demo_idle_store = 100" "fd_open demo_idle_store = {3, 5, 10, 11, 12, 13}"
  "rx demo_idle_store 5 = [Fin]" "mem demo_idle_store = []" "pipe_buf demo_idle_store = (\<lambda>_. [])" "pipe_peer demo_idle_store = (\<lambda>fd. fd - 1)"
  by (simp_all add: demo_idle_store_def)

lemma demo_idle_wf: "conn_wf demo_idle_conn"
  using conn_wf_demo [of 1 5] by (simp add: demo_idle_conn_def conn_wf_def)

lemma demo_idle_owned: "io_owned demo_ext demo_idle_store"
proof -
  have "conns_wf demo_idle_store" using demo_idle_wf by (simp add: conns_wf_def)
  moreover have "heap_fresh demo_idle_store" by (simp add: heap_fresh_def)
  moreover have "conn_count demo_idle_store = counts_to (\<lambda>a. task_refs (tasks demo_idle_store) a + (msg_refs (msgs demo_idle_store) a + demo_ext a))"
    by (auto simp: fun_eq_iff conn_count_def counts_to_def demo_ext_def refs_by_def demo_idle_conn_def demo_conn_def)
  ultimately have "task_owned (\<lambda>a. msg_refs (msgs demo_idle_store) a + demo_ext a) demo_idle_store" by (simp only: task_owned_def)
  then show ?thesis by (simp add: io_owned_def) (simp add: demo_pool_store_def task_store.extend_def)
qed

lemma demo_idle_inv: "sys_inv 60 50 demo_ext (\<lambda>_. []) demo_idle_store"
proof -
  have "pool_abs demo_idle_store 60 50 \<lparr>b_items = [], b_max = 4, b_shutdown = False\<rparr>"
    by (simp add: pool_abs_def demo_pool_store_def task_store.extend_def queue_abs_def empty_queue_def)
  moreover have "threads_ok 60 (\<lambda>_. []) demo_idle_store"
    by (auto simp: threads_ok_def msg_abs_at_def io_live_def demo_idle_io_def demo_io_thread_def split: if_splits)
  moreover have "tasks_ok demo_idle_store" "conns_ok demo_idle_store" by (simp_all add: tasks_ok_def conns_ok_def demo_idle_conn_def)
  ultimately show ?thesis using demo_idle_owned by (auto simp: sys_inv_def)
qed

theorem conn_event_use_after_free_witness:
  "handle_conn_event 0 80 (U_Conn 0) EVENT_READ demo_idle_store = Inl Dangling"
proof -
  have 1: "ios demo_idle_store 80 = Some demo_idle_io" "conns demo_idle_store 0 = Some demo_idle_conn" by simp_all
  have 2: "demo_ext 0 \<noteq> 0" "c_ref_count demo_idle_conn = 1" "\<not> c_closing demo_idle_conn" "c_fd demo_idle_conn \<in> fd_open demo_idle_store"
    "rx demo_idle_store (c_fd demo_idle_conn) = Fin # []" "EVENT_READ AND EVENT_READ \<noteq> 0"
    by (simp_all add: demo_ext_def demo_idle_conn_def demo_conn_def event_flags)
  show ?thesis by (rule conn_event_use_after_free [OF demo_idle_inv 1 2])
qed

end
