(* ===== verification/Io_Thread.thy ===== *)
theory Io_Thread
  imports Io_Events
begin

text \<open>
  \<open>advanced-reactor-server/io_thread.c\<close>, the life of an I/O thread and of the pool of I/O threads: a connection is handed to a thread
  through its pipe, threads are chosen in turn, and both are created and destroyed. The state gains the heap \<open>iopools\<close>.
\<close>

section \<open>Data\<close>

record io_thread_pool =
  ip_threads :: "ptr list"
  ip_thread_count :: int
  ip_next_thread :: int
  ip_mutex :: mutex
  ip_worker_pool :: ptr

record iop_store = io_store +
  iopools :: "addr \<Rightarrow> io_thread_pool option"

definition iop_load :: "addr \<Rightarrow> ('a iop_store_scheme, io_thread_pool) cmd" where
  "iop_load p = derefM iopools (Some p)"

definition iop_update :: "addr \<Rightarrow> (io_thread_pool \<Rightarrow> io_thread_pool) \<Rightarrow> ('a iop_store_scheme, unit) cmd" where
  "iop_update p f = bindM (iop_load p) (\<lambda>P. modifyM (\<lambda>s. s\<lparr>iopools := (iopools s)(p \<mapsto> f P)\<rparr>))"

section \<open>Handing over a connection\<close>

text \<open>\<open>mutex_ok\<close> is the outcome of \<open>pthread_mutex_init\<close> in \<open>conn_create\<close>.\<close>

definition io_thread_add_connection :: "bool \<Rightarrow> ptr \<Rightarrow> int \<Rightarrow> sockaddr_in option \<Rightarrow> ('a io_store_scheme, int) cmd" where
  "io_thread_add_connection mutex_ok io_thread client_fd addr = (case io_thread of
     None \<Rightarrow> returnM (- 1)
   | Some i \<Rightarrow>
       if client_fd < 0 then returnM (- 1)
       else bindM (conn_create client_fd None addr (Some i) mutex_ok) (\<lambda>conn. case conn of
         None \<Rightarrow> returnM (- 1)
       | Some a \<Rightarrow>
           bindM (io_load i) (\<lambda>I.
           bindM (sys_pipe_write (snd (io_pipe_fd I)) (ptr_cells a)) (\<lambda>n.
             if n \<noteq> int POINTER_SIZE then thenM (conn_release (Some a)) (returnM (- 1))
             else returnM 0))))"

section \<open>Choosing a thread\<close>

text \<open>\<open>threads[next_thread]\<close> outside the array is a fault.\<close>

definition io_thread_pool_get_thread :: "ptr \<Rightarrow> ('a iop_store_scheme, ptr) cmd" where
  "io_thread_pool_get_thread pool = (case pool of
     None \<Rightarrow> returnM None
   | Some p \<Rightarrow>
       bindM (iop_load p) (\<lambda>P.
       if ip_thread_count P = 0 then returnM None
       else bindM (mutex_lock (ip_mutex P)) (\<lambda>m.
         thenM (iop_update p (ip_mutex_update (\<lambda>_. m)))
        (bindM (iop_load p) (\<lambda>P.
         if ip_next_thread P < 0 \<or> int (length (ip_threads P)) \<le> ip_next_thread P then failM Out_Of_Bounds
         else
           let thread = ip_threads P ! nat (ip_next_thread P) in
           thenM (iop_update p (\<lambda>P. P\<lparr>ip_next_thread := (ip_next_thread P + 1) mod ip_thread_count P\<rparr>))
          (bindM (iop_load p) (\<lambda>P. bindM (mutex_unlock (ip_mutex P)) (\<lambda>m.
           thenM (iop_update p (ip_mutex_update (\<lambda>_. m))) (returnM thread)))))))))"

section \<open>Creation and destruction\<close>

definition io_free :: "addr \<Rightarrow> ('a io_store_scheme, unit) cmd" where
  "io_free i = modifyM (\<lambda>s. s\<lparr>ios := (ios s)(i := None)\<rparr>)"

definition close_pair :: "int \<times> int \<Rightarrow> ('a kernel_scheme, unit) cmd" where
  "close_pair fds = bindM (sys_close (fst fds)) (\<lambda>_. bindM (sys_close (snd fds)) (\<lambda>_. returnM ()))"

text \<open>
  \<open>io_thread_create\<close>; \<open>be\<close> is the back end of the platform and \<open>spawn\<close> the outcome of \<open>pthread_create\<close>. Fields that are not set yet
  are indeterminate; the model gives them a value that nothing reads. \<open>io_thread_start\<close> is the part behind the pipes: the event loop,
  its two registrations and the thread.
\<close>

definition io_thread_start :: "backend \<Rightarrow> bool \<Rightarrow> addr \<Rightarrow> int \<times> int \<Rightarrow> int \<times> int \<Rightarrow> ('a io_store_scheme, ptr) cmd" where
  "io_thread_start be spawn i pfd mfd =
     bindM (event_loop_create be MAX_EVENTS) (\<lambda>loop.
     thenM (io_update i (\<lambda>I. I\<lparr>io_event_loop := loop\<rparr>))
    (if loop = None then thenM (close_pair pfd) (thenM (io_free i) (returnM None))
     else
       let undo = thenM (event_loop_destroy loop) (thenM (close_pair pfd) (thenM (close_pair mfd) (thenM (io_free i) (returnM None)))) in
       bindM (event_loop_add loop (fst pfd) (EVENT_READ OR EVENT_ET) (U_Pipe i)) (\<lambda>r.
       if r = - 1 then undo
       else bindM (event_loop_add loop (fst mfd) (EVENT_READ OR EVENT_ET) (U_MsgPipe i)) (\<lambda>r.
       if r = - 1 then undo
       else if spawn then returnM (Some i)
       else thenM (event_loop_destroy loop) (thenM (close_pair pfd) (thenM (io_free i) (returnM None)))))))"

definition io_thread_create :: "backend \<Rightarrow> bool \<Rightarrow> int \<Rightarrow> ptr \<Rightarrow> ('a io_store_scheme, ptr) cmd" where
  "io_thread_create be spawn index worker_pool =
     bindM mallocM (\<lambda>p. case p of
       None \<Rightarrow> returnM None
     | Some i \<Rightarrow>
         thenM (modifyM (\<lambda>s. s\<lparr>ios := (ios s)(i \<mapsto>
           \<lparr>io_thread_index = index, io_event_loop = None, io_worker_pool = worker_pool, io_pipe_fd = (- 1, - 1), io_shutdown = False,
            io_msg_queue_head = None, io_msg_queue_tail = None, io_msg_queue_mutex = Destroyed, io_msg_pipe_fd = (- 1, - 1),
            io_connections_handled = 0, io_bytes_read = 0, io_bytes_written = 0, io_stats_mutex = Destroyed\<rparr>)\<rparr>))
        (bindM sys_pipe (\<lambda>(r, pfd).
         if r = - 1 then thenM (io_free i) (returnM None)
         else thenM (io_update i (\<lambda>I. I\<lparr>io_pipe_fd := pfd\<rparr>))
        (bindM sys_pipe (\<lambda>(r, mfd).
         if r = - 1 then thenM (close_pair pfd) (thenM (io_free i) (returnM None))
         else
           thenM (io_update i (\<lambda>I. I\<lparr>io_msg_pipe_fd := mfd, io_msg_queue_head := None, io_msg_queue_tail := None,
                                     io_msg_queue_mutex := Unlocked, io_stats_mutex := Unlocked\<rparr>))
                 (io_thread_start be spawn i pfd mfd))))))"

text \<open>
  \<open>io_thread_destroy\<close>; \<open>join\<close> is what happens until the thread has ended, which it does once it sees the flag. The
  pipe of the messages and the messages themselves are not given back.
\<close>

definition io_thread_destroy :: "(addr \<Rightarrow> ('a io_store_scheme, unit) cmd) \<Rightarrow> ptr \<Rightarrow> ('a io_store_scheme, unit) cmd" where
  "io_thread_destroy join io_thread = (case io_thread of
     None \<Rightarrow> returnM ()
   | Some i \<Rightarrow>
       thenM (io_update i (\<lambda>I. I\<lparr>io_shutdown := True\<rparr>))
      (bindM (io_load i) (\<lambda>I.
       bindM (sys_pipe_write (snd (io_pipe_fd I)) [PByte 1]) (\<lambda>_.
       thenM (join i)
      (bindM (io_load i) (\<lambda>I.
       thenM (event_loop_destroy (io_event_loop I))
      (thenM (close_pair (io_pipe_fd I))
      (thenM (io_update i (\<lambda>I. I\<lparr>io_stats_mutex := Destroyed\<rparr>))
             (io_free i)))))))))"

fun destroy_threads :: "(addr \<Rightarrow> ('a io_store_scheme, unit) cmd) \<Rightarrow> ptr list \<Rightarrow> ('a io_store_scheme, unit) cmd" where
  "destroy_threads join [] = returnM ()"
| "destroy_threads join (t # ts) = thenM (io_thread_destroy join t) (destroy_threads join ts)"

text \<open>The loop over \<open>io_thread_create\<close>: the threads that were made, or \<open>None\<close> after a failure and the clean-up.\<close>

fun create_threads :: "backend \<Rightarrow> (nat \<Rightarrow> bool) \<Rightarrow> (addr \<Rightarrow> ('a io_store_scheme, unit) cmd) \<Rightarrow> ptr \<Rightarrow> nat \<Rightarrow> ptr list \<Rightarrow>
    ('a io_store_scheme, ptr list option) cmd" where
  "create_threads be spawn join worker_pool 0 ts = returnM (Some ts)"
| "create_threads be spawn join worker_pool (Suc k) ts =
     bindM (io_thread_create be (spawn (length ts)) (int (length ts)) worker_pool) (\<lambda>t.
       if t = None then thenM (destroy_threads join ts) (returnM None)
       else create_threads be spawn join worker_pool k (ts @ [t]))"

definition io_thread_pool_create ::
  "backend \<Rightarrow> (nat \<Rightarrow> bool) \<Rightarrow> (addr \<Rightarrow> ('a iop_store_scheme, unit) cmd) \<Rightarrow> int \<Rightarrow> ptr \<Rightarrow> ('a iop_store_scheme, ptr) cmd" where
  "io_thread_pool_create be spawn join io_thread_count worker_pool =
     bindM mallocM (\<lambda>pool. case pool of
       None \<Rightarrow> returnM None
     | Some p \<Rightarrow>
         thenM (modifyM (\<lambda>s. s\<lparr>iopools := (iopools s)(p \<mapsto>
           \<lparr>ip_threads = [], ip_thread_count = io_thread_count, ip_next_thread = 0, ip_mutex = Unlocked, ip_worker_pool = worker_pool\<rparr>)\<rparr>))
        (bindM mallocM (\<lambda>threads.
         if threads = None then thenM (modifyM (\<lambda>s. s\<lparr>iopools := (iopools s)(p := None)\<rparr>)) (returnM None)
         else bindM (create_threads be spawn join worker_pool (nat io_thread_count) []) (\<lambda>r. case r of
           None \<Rightarrow> thenM (modifyM (\<lambda>s. s\<lparr>iopools := (iopools s)(p := None)\<rparr>)) (returnM None)
         | Some ts \<Rightarrow> thenM (iop_update p (\<lambda>P. P\<lparr>ip_threads := ts\<rparr>)) (returnM (Some p))))))"

definition io_thread_pool_destroy :: "(addr \<Rightarrow> ('a iop_store_scheme, unit) cmd) \<Rightarrow> ptr \<Rightarrow> ('a iop_store_scheme, unit) cmd" where
  "io_thread_pool_destroy join pool = (case pool of
     None \<Rightarrow> returnM ()
   | Some p \<Rightarrow>
       bindM (iop_load p) (\<lambda>P.
       if int (length (ip_threads P)) < ip_thread_count P then failM Out_Of_Bounds
       else
         thenM (destroy_threads join (take (nat (ip_thread_count P)) (ip_threads P)))
        (thenM (iop_update p (\<lambda>P. P\<lparr>ip_mutex := Destroyed\<rparr>))
               (modifyM (\<lambda>s. s\<lparr>iopools := (iopools s)(p := None)\<rparr>)))))"

section \<open>Round robin\<close>

lemma iop_load_Some: "iopools s p = Some P \<Longrightarrow> iop_load p s = Inr (P, s)"
  by (simp add: iop_load_def derefM_def)

lemma iop_update_Some: "iopools s p = Some P \<Longrightarrow> iop_update p f s = Inr ((), s\<lparr>iopools := (iopools s)(p \<mapsto> f P)\<rparr>)"
  by (simp add: iop_update_def bindM_def iop_load_Some modifyM_def)

definition iop_wf :: "io_thread_pool \<Rightarrow> bool" where
  "iop_wf P \<longleftrightarrow> ip_mutex P = Unlocked \<and> ip_thread_count P = int (length (ip_threads P)) \<and>
     0 \<le> ip_next_thread P \<and> (ip_threads P \<noteq> [] \<longrightarrow> ip_next_thread P < ip_thread_count P)"

lemma get_thread_exec:
  assumes p: "iopools s p = Some P" and wf: "iop_wf P" and ts: "ip_threads P \<noteq> []"
  defines "P' \<equiv> P\<lparr>ip_next_thread := (ip_next_thread P + 1) mod ip_thread_count P\<rparr>"
  shows "io_thread_pool_get_thread (Some p) s = Inr (ip_threads P ! nat (ip_next_thread P), s\<lparr>iopools := (iopools s)(p \<mapsto> P')\<rparr>)"
    and "iop_wf P'"
proof -
  have "ip_mutex P = Unlocked" "ip_thread_count P \<noteq> 0" "\<not> ip_next_thread P < 0" "\<not> int (length (ip_threads P)) \<le> ip_next_thread P"
    using wf ts by (auto simp: iop_wf_def)
  then show "io_thread_pool_get_thread (Some p) s = Inr (ip_threads P ! nat (ip_next_thread P), s\<lparr>iopools := (iopools s)(p \<mapsto> P')\<rparr>)"
    using p by (cases P) (simp add: io_thread_pool_get_thread_def P'_def bindM_def thenM_def iop_load_Some iop_update_Some mutex_lock_def
        mutex_unlock_def returnM_def Let_def)
  show "iop_wf P'" using wf ts by (auto simp: iop_wf_def P'_def)
qed

fun get_threads :: "nat \<Rightarrow> ptr \<Rightarrow> ('a iop_store_scheme, ptr list) cmd" where
  "get_threads 0 pool = returnM []"
| "get_threads (Suc k) pool = bindM (io_thread_pool_get_thread pool) (\<lambda>t. bindM (get_threads k pool) (\<lambda>ts. returnM (t # ts)))"

lemma get_threads_rotate:
  assumes "iopools s p = Some P" and "iop_wf P" and "ip_threads P \<noteq> []"
  shows "get_threads k (Some p) s = Inr (map (\<lambda>d. ip_threads P ! ((nat (ip_next_thread P) + d) mod length (ip_threads P))) [0..<k],
      s\<lparr>iopools := (iopools s)(p \<mapsto> P\<lparr>ip_next_thread := int ((nat (ip_next_thread P) + k) mod length (ip_threads P))\<rparr>)\<rparr>)"
  using assms
proof (induction k arbitrary: s P)
  case 0
  then have "P\<lparr>ip_next_thread := int ((nat (ip_next_thread P) + 0) mod length (ip_threads P))\<rparr> = P"
    by (cases P) (auto simp: iop_wf_def nat_less_iff)
  with 0 show ?case by (simp add: returnM_def fun_upd_idem)
next
  case (Suc k)
  let ?m = "length (ip_threads P)" and ?j = "nat (ip_next_thread P)"
  let ?P = "P\<lparr>ip_next_thread := (ip_next_thread P + 1) mod ip_thread_count P\<rparr>"
  let ?s = "s\<lparr>iopools := (iopools s)(p \<mapsto> ?P)\<rparr>"
  note x = get_thread_exec [OF Suc.prems(1-3)]
  have j: "?j < ?m" "ip_next_thread P = int ?j" "ip_thread_count P = int ?m" using Suc.prems(2,3) by (auto simp: iop_wf_def nat_less_iff)
  have j': "nat (ip_next_thread ?P) = (?j + 1) mod ?m" 
  proof -
    have "ip_next_thread ?P = (ip_next_thread P + 1) mod ip_thread_count P" by simp
    also have "\<dots> = int ((?j + 1) mod ?m)" using j(2,3) by (simp only: of_nat_mod of_nat_add of_nat_1)
    finally show ?thesis by (simp only: nat_int)
  qed
  have step: "(((?j + 1) mod ?m) + d) mod ?m = (?j + Suc d) mod ?m" for d by (simp add: mod_simps)
  have rest: "get_threads k (Some p) ?s = Inr (map (\<lambda>d. ip_threads P ! ((?j + Suc d) mod ?m)) [0..<k],
      ?s\<lparr>iopools := (iopools ?s)(p \<mapsto> ?P\<lparr>ip_next_thread := int ((?j + Suc k) mod ?m)\<rparr>)\<rparr>)"
  proof -
    have P: "iopools ?s p = Some ?P" "ip_threads ?P \<noteq> []" and same: "ip_threads ?P = ip_threads P" using Suc.prems(3) by simp_all
    show ?thesis using Suc.IH [OF P(1) x(2) P(2)] unfolding j' same step .
  qed
  have hd: "map (\<lambda>d. ip_threads P ! ((?j + d) mod ?m)) [0..<Suc k] =
      ip_threads P ! ?j # map (\<lambda>d. ip_threads P ! ((?j + Suc d) mod ?m)) [0..<k]"
    using j(1) by (simp add: upt_conv_Cons map_Suc_upt [symmetric] o_def del: upt_Suc)
  have st: "?s\<lparr>iopools := (iopools ?s)(p \<mapsto> ?P\<lparr>ip_next_thread := int ((?j + Suc k) mod ?m)\<rparr>)\<rparr> =
      s\<lparr>iopools := (iopools s)(p \<mapsto> P\<lparr>ip_next_thread := int ((?j + Suc k) mod ?m)\<rparr>)\<rparr>" by simp
  show ?case unfolding hd using x(1) rest unfolding st by (simp only: get_threads.simps bindM_Inr returnM_def)
qed

lemma rotate_perm:
  assumes "j < length xs"
  shows "map (\<lambda>d. xs ! ((j + d) mod length xs)) [0..<length xs] = drop j xs @ take j xs"
proof -
  have "map (\<lambda>d. xs ! ((j + d) mod length xs)) [0..<length xs] = rotate j xs"
    using assms by (intro nth_equalityI) (simp_all add: nth_rotate)
  then show ?thesis using assms by (simp add: rotate_drop_take)
qed

text \<open>
  C31. Connections are spread evenly: as many successive calls of \<open>io_thread_pool_get_thread\<close> as there are threads return every thread
  of the pool exactly once, in the order of the array starting at \<open>next_thread\<close>, and the pool is then as before.
\<close>

theorem get_thread_round_robin:
  assumes "iopools s p = Some P" and "iop_wf P" and "ip_threads P \<noteq> []"
  shows "get_threads (length (ip_threads P)) (Some p) s =
     Inr (drop (nat (ip_next_thread P)) (ip_threads P) @ take (nat (ip_next_thread P)) (ip_threads P), s)"
proof -
  have j: "nat (ip_next_thread P) < length (ip_threads P)" "0 \<le> ip_next_thread P" using assms(2,3) by (auto simp: iop_wf_def nat_less_iff)
  then have "P\<lparr>ip_next_thread := int ((nat (ip_next_thread P) + length (ip_threads P)) mod length (ip_threads P))\<rparr> = P" by (cases P) simp
  then show ?thesis using get_threads_rotate [OF assms, of "length (ip_threads P)"] assms(1) rotate_perm [OF j(1)] by (simp add: fun_upd_idem)
qed

definition demo_iop :: io_thread_pool where
  "demo_iop = \<lparr>ip_threads = [Some 80, Some 81, Some 82], ip_thread_count = 3, ip_next_thread = 1, ip_mutex = Unlocked, ip_worker_pool = Some 60\<rparr>"

theorem get_thread_round_robin_witness:
  "\<exists>s :: iop_store. get_threads 3 (Some 200) s = Inr ([Some 81, Some 82, Some 80], s)"
proof -
  let ?s = "io_store.extend demo_io_store \<lparr>iopools = [200 \<mapsto> demo_iop]\<rparr>"
  have 1: "iopools ?s 200 = Some demo_iop" "iop_wf demo_iop" "ip_threads demo_iop \<noteq> []"
    by (simp_all add: demo_iop_def iop_wf_def io_store.extend_def)
  have 2: "length (ip_threads demo_iop) = 3"
    "drop (nat (ip_next_thread demo_iop)) (ip_threads demo_iop) @ take (nat (ip_next_thread demo_iop)) (ip_threads demo_iop) = [Some 81, Some 82, Some 80]"
    by (simp_all add: demo_iop_def)
  show ?thesis using get_thread_round_robin [OF 1] unfolding 2 by (rule exI)
qed

section \<open>From the acceptor to the event loop\<close>

definition fresh_conn :: "int \<Rightarrow> sockaddr_in option \<Rightarrow> addr \<Rightarrow> nat \<Rightarrow> connection" where
  "fresh_conn fd addr i t =
     \<lparr>c_fd = fd, c_event_loop = None, c_state = CONN_STATE_CONNECTED,
      c_read_buf = replicate BUFFER_SIZE None, c_write_buf = replicate BUFFER_SIZE None,
      c_read_pos = 0, c_write_pos = 0, c_write_size = 0, c_addr = (case addr of Some sa \<Rightarrow> sa | None \<Rightarrow> (0, 0)),
      c_last_active = t, c_io_thread = Some i, c_mutex = Unlocked, c_ref_count = 1, c_closing = False\<rparr>"

lemma fresh_conn_fields [simp]:
  "c_fd (fresh_conn fd addr i t) = fd" "c_ref_count (fresh_conn fd addr i t) = 1" "c_io_thread (fresh_conn fd addr i t) = Some i"
  "c_closing (fresh_conn fd addr i t) = False" "c_mutex (fresh_conn fd addr i t) = Unlocked" "conn_wf (fresh_conn fd addr i t)"
  using conn_wf_fresh by (simp_all add: fresh_conn_def)

lemma conn_create_fresh:
  shows "mem s = False # m \<Longrightarrow> conn_create fd None addr (Some i) ok s = Inr (None, s\<lparr>mem := m\<rparr>)"
    and "False \<notin> set (take 1 (mem s)) \<Longrightarrow> conns s (next_addr s) = None \<Longrightarrow> conn_create fd None addr (Some i) False s =
       Inr (None, s\<lparr>next_addr := Suc (next_addr s), mem := drop 1 (mem s)\<rparr>)"
    and "False \<notin> set (take 1 (mem s)) \<Longrightarrow> conn_create fd None addr (Some i) True s =
       Inr (Some (next_addr s), s\<lparr>next_addr := Suc (next_addr s), mem := drop 1 (mem s),
              conns := (conns s)(next_addr s \<mapsto> fresh_conn fd addr i (now s))\<rparr>)"
  by (cases "mem s"; simp add: conn_create_def bindM_def mallocM_def returnM_def getM_def fresh_conn_def fun_upd_idem)+

text \<open>A new connection has one holder.\<close>

lemma sys_inv_new_conn:
  assumes inv: "sys_inv w q ext mq s" and i: "ios s i = Some I" and c: "conn_wf c" "c_ref_count c = 1" "c_io_thread c = Some i"
  shows "ext (next_addr s) = 0" "conns s (next_addr s) = None"
    "sys_inv w q (ext(next_addr s := 1)) mq (s\<lparr>next_addr := Suc (next_addr s), mem := m, conns := (conns s)(next_addr s \<mapsto> c)\<rparr>)"
proof -
  let ?a = "next_addr s"
  let ?s = "s\<lparr>next_addr := Suc ?a, mem := m, conns := (conns s)(?a \<mapsto> c)\<rparr>"
  let ?n = "\<lambda>b. task_refs (tasks s) b + (msg_refs (msgs s) b + ext b)"
  note own = io_ownedD(1) [OF sys_invD(1) [OF inv]]
  show none: "conns s ?a = None" using task_ownedD(2) [OF own] by (simp add: heap_fresh_def)
  then have zero: "?n ?a = 0" using task_owned_live [OF own, of ?a] by simp
  then show "ext ?a = 0" by simp
  have "conn_count ?s = (conn_count s)(?a \<mapsto> 1)" using c(2) by (auto simp: conn_count_def)
  also have "\<dots> = counts_to (\<lambda>b. task_refs (tasks s) b + (msg_refs (msgs s) b + (ext(?a := 1)) b))"
    unfolding task_ownedD(3) [OF own] using zero by (auto simp: counts_to_def fun_eq_iff)
  finally have count: "conn_count ?s = counts_to (\<lambda>b. task_refs (tasks s) b + (msg_refs (msgs s) b + (ext(?a := 1)) b))" .
  have "conns_wf ?s" using task_ownedD(1) [OF own] c(1) by (auto simp: conns_wf_def)
  moreover have "heap_fresh ?s" using task_ownedD(2) [OF own] by (simp add: heap_fresh_def)
  ultimately have "task_owned (\<lambda>b. msg_refs (msgs s) b + (ext(?a := 1)) b) ?s" using count by (simp add: task_owned_def)
  then have "io_owned (ext(?a := 1)) ?s" using sys_invD(1) [OF inv] by (simp add: io_owned_def)
  moreover have "threads_ok w mq ?s" using sys_invD(5) [OF inv] by (rule threads_ok_cong) simp_all
  moreover have "\<exists>b. pool_abs ?s w q b" using sys_invD(2) [OF inv] pool_abs_cong [of ?s w s q] by simp
  moreover have "conns_ok ?s" using sys_invD(4) [OF inv] c(3) i by (auto simp: conns_ok_def)
  ultimately show "sys_inv w q (ext(?a := 1)) mq ?s" using sys_invD(3) [OF inv] by (simp add: sys_inv_def tasks_ok_def)
qed

lemma sys_inv_alloc:
  assumes inv: "sys_inv w q ext mq s" and n: "next_addr s \<le> n"
  shows "sys_inv w q ext mq (s\<lparr>next_addr := n, mem := m\<rparr>)"
proof -
  let ?s = "s\<lparr>next_addr := n, mem := m\<rparr>"
  have "task_owned (\<lambda>a. msg_refs (msgs s) a + ext a) ?s" using io_ownedD(1) [OF sys_invD(1) [OF inv]] by (rule task_owned_alloc) (simp_all add: n)
  then have "io_owned ext ?s" using sys_invD(1) [OF inv] n by (simp add: io_owned_def)
  moreover have "threads_ok w mq ?s" using sys_invD(5) [OF inv] by (rule threads_ok_cong) simp_all
  moreover have "\<exists>b. pool_abs ?s w q b" using sys_invD(2) [OF inv] pool_abs_cong [of ?s w s q] by simp
  ultimately show ?thesis using sys_invD(3,4) [OF inv] by (simp add: sys_inv_def tasks_ok_def conns_ok_def)
qed

text \<open>The two ways out of \<open>io_thread_add_connection\<close>, after the connection was made.\<close>

lemma add_connection_sys:
  assumes inv: "sys_inv w q ext mq s" and i: "ios s i = Some I" and fd: "0 \<le> fd"
  defines "a \<equiv> next_addr s" and "room \<equiv> snd (io_pipe_fd I) \<in> fd_open s \<and>
     length (pipe_buf s (pipe_peer s (snd (io_pipe_fd I)))) + POINTER_SIZE \<le> PIPE_CAPACITY"
  shows "ext a = 0"
    and "ok \<and> False \<notin> set (take 1 (mem s)) \<and> room \<Longrightarrow> \<exists>s'. io_thread_add_connection ok (Some i) fd addr s = Inr (0, s') \<and>
       sys_inv w q (ext(a := 1)) mq s' \<and>
       s' = s\<lparr>pipe_buf := (pipe_buf s)(pipe_peer s (snd (io_pipe_fd I)) := pipe_buf s (pipe_peer s (snd (io_pipe_fd I))) @ ptr_cells a),
             next_addr := Suc a, mem := drop 1 (mem s), conns := (conns s)(a \<mapsto> fresh_conn fd addr i (now s))\<rparr>"
    and "\<not> (ok \<and> False \<notin> set (take 1 (mem s)) \<and> room) \<Longrightarrow> \<exists>s'. io_thread_add_connection ok (Some i) fd addr s = Inr (- 1, s') \<and>
       sys_inv w q ext mq s' \<and> conns s' = conns s \<and> pipe_buf s' = pipe_buf s \<and>
       fd_open s' = (if ok \<and> False \<notin> set (take 1 (mem s)) then fd_open s - {fd} else fd_open s) \<and>
       ios s' = ios s \<and> accepts s' = accepts s \<and> io_store.more s' = io_store.more s"
proof -
  let ?w = "snd (io_pipe_fd I)" and ?c = "fresh_conn fd addr i (now s)"
  let ?s = "s\<lparr>next_addr := Suc a, mem := drop 1 (mem s), conns := (conns s)(a \<mapsto> ?c)\<rparr>"
  note new = sys_inv_new_conn [OF inv i fresh_conn_fields(6,2,3) [of fd addr i "now s"], folded a_def]
  show "ext a = 0" by (rule new)
  have run: "io_thread_add_connection ok (Some i) fd addr s = (if room then Inr (0, ?s\<lparr>pipe_buf := (pipe_buf s)(pipe_peer s ?w := pipe_buf s (pipe_peer s ?w) @ ptr_cells a)\<rparr>)
      else thenM (conn_release (Some a)) (returnM (- 1)) (?s\<lparr>errno := (if ?w \<in> fd_open s then EAGAIN else EBADF)\<rparr>))"
    if "ok" "False \<notin> set (take 1 (mem s))"
    using that fd i conn_create_fresh(3) [of s fd addr i] unfolding room_def a_def
    by (auto simp: io_thread_add_connection_def bindM_def io_load_Some sys_pipe_write_def returnM_def Let_def POINTER_SIZE_def)
  {
    assume ok: "ok \<and> False \<notin> set (take 1 (mem s)) \<and> room"
    let ?s' = "s\<lparr>pipe_buf := (pipe_buf s)(pipe_peer s ?w := pipe_buf s (pipe_peer s ?w) @ ptr_cells a),
             next_addr := Suc a, mem := drop 1 (mem s), conns := (conns s)(a \<mapsto> ?c)\<rparr>"
    have "io_thread_add_connection ok (Some i) fd addr s = Inr (0, ?s')" using run ok by (cases s) simp
    moreover have "sys_inv w q (ext(a := 1)) mq ?s'" using new(3) [where m = "drop 1 (mem s)"] by (rule sys_inv_kernel) (cases s; simp)+
    ultimately show "\<exists>s'. io_thread_add_connection ok (Some i) fd addr s = Inr (0, s') \<and> sys_inv w q (ext(a := 1)) mq s' \<and> s' = ?s'" by blast
  }
  assume no: "\<not> (ok \<and> False \<notin> set (take 1 (mem s)) \<and> room)"
  show "\<exists>s'. io_thread_add_connection ok (Some i) fd addr s = Inr (- 1, s') \<and>
       sys_inv w q ext mq s' \<and> conns s' = conns s \<and> pipe_buf s' = pipe_buf s \<and>
       fd_open s' = (if ok \<and> False \<notin> set (take 1 (mem s)) then fd_open s - {fd} else fd_open s) \<and>
       ios s' = ios s \<and> accepts s' = accepts s \<and> io_store.more s' = io_store.more s"
  proof (cases "ok \<and> False \<notin> set (take 1 (mem s))")
    case True
    let ?e = "if ?w \<in> fd_open s then EAGAIN else EBADF"
    have inv1: "sys_inv w q (ext(a := 1)) mq (?s\<lparr>errno := ?e\<rparr>)" using new(3) [where m = "drop 1 (mem s)"] by (rule sys_inv_kernel) (cases s; simp)+
    from release_sys [OF inv1, of a] obtain s' where s': "conn_release (Some a) (?s\<lparr>errno := ?e\<rparr>) = Inr ((), s')"
      "sys_inv w q ((ext(a := 1))(a := (ext(a := 1)) a - 1)) mq s'" "conn_frame (?s\<lparr>errno := ?e\<rparr>) s'" by auto
    have "(ext(a := 1))(a := (ext(a := 1)) a - 1) = ext" using new(1) by (auto simp: fun_eq_iff)
    then have inv': "sys_inv w q ext mq s'" using s'(2) by simp
    have "s' = (maybe_close fd (?s\<lparr>errno := ?e\<rparr>))\<lparr>conns := (conns s)(a := None)\<rparr>"
      using s'(1) conn_release_last [of "?s\<lparr>errno := ?e\<rparr>" a ?c] by simp
    then have "conns s' = conns s" "pipe_buf s' = pipe_buf s" "fd_open s' = fd_open s - {fd}" "ios s' = ios s" "accepts s' = accepts s"
      "io_store.more s' = io_store.more s"
      using new(2) fd by (simp_all add: maybe_close_def fun_upd_idem after_close_def)
    moreover have "io_thread_add_connection ok (Some i) fd addr s = Inr (- 1, s')" using run True no s'(1) by (simp add: thenM_Inr returnM_def)
    ultimately show ?thesis using inv' True by auto
  next
    case False
    have "\<exists>n m. n \<ge> next_addr s \<and> io_thread_add_connection ok (Some i) fd addr s = Inr (- 1, s\<lparr>next_addr := n, mem := m\<rparr>)"
    proof (cases "False \<in> set (take 1 (mem s))")
      case True
      then obtain m where "mem s = False # m" by (cases "mem s") auto
      from conn_create_fresh(1) [OF this] have "io_thread_add_connection ok (Some i) fd addr s = Inr (- 1, s\<lparr>next_addr := next_addr s, mem := m\<rparr>)"
        using fd by (simp add: io_thread_add_connection_def bindM_def returnM_def)
      then show ?thesis by blast
    next
      case mem: False
      then have "io_thread_add_connection ok (Some i) fd addr s = Inr (- 1, s\<lparr>next_addr := Suc (next_addr s), mem := drop 1 (mem s)\<rparr>)"
        using False fd conn_create_fresh(2) [OF mem] new(2) by (simp add: io_thread_add_connection_def bindM_def returnM_def a_def)
      then show ?thesis by (meson lessI less_imp_le)
    qed
    then obtain n m where "next_addr s \<le> n" "io_thread_add_connection ok (Some i) fd addr s = Inr (- 1, s\<lparr>next_addr := n, mem := m\<rparr>)" by blast
    moreover from this(1) have "sys_inv w q ext mq (s\<lparr>next_addr := n, mem := m\<rparr>)" by (rule sys_inv_alloc [OF inv])
    ultimately show ?thesis using False by auto
  qed
qed

lemma sys_inv_conn_move:
  assumes inv: "sys_inv w q ext mq s" and c: "conns s a = Some c" and i: "ios s i = Some I"
    and c': "conn_wf c'" "c_ref_count c' = c_ref_count c" "c_io_thread c' = Some i"
  shows "sys_inv w q ext mq (s\<lparr>conns := (conns s)(a \<mapsto> c')\<rparr>)"
proof -
  have "sys_inv w q ext mq (s\<lparr>conns := (conns s)(a \<mapsto> c'\<lparr>c_io_thread := c_io_thread c\<rparr>)\<rparr>)" (is "sys_inv w q ext mq ?s")
    using inv c by (rule sys_inv_conn_upd) (use c' in \<open>simp_all add: conn_wf_def\<close>)
  note inv' = sys_invD [OF this]
  let ?s' = "s\<lparr>conns := (conns s)(a \<mapsto> c')\<rparr>"
  have "io_owned ext ?s'"
  proof -
    have "conn_count ?s' = conn_count ?s" by (auto simp: conn_count_def)
    moreover have "conns_wf ?s'" using io_ownedD(2) [OF sys_invD(1) [OF inv]] c'(1) by (rule conns_wf_upd)
    moreover have "heap_fresh ?s'" using task_ownedD(2) [OF io_ownedD(1) [OF sys_invD(1) [OF inv]]] c by (auto simp: heap_fresh_def)
    ultimately show ?thesis using inv'(1) by (simp add: io_owned_def task_owned_def)
  qed
  moreover have "conns_ok ?s'" using sys_invD(4) [OF inv] c'(3) i by (auto simp: conns_ok_def)
  moreover have "threads_ok w mq ?s'" using sys_invD(5) [OF inv] by (rule threads_ok_cong) simp_all
  moreover have "\<exists>b. pool_abs ?s' w q b" using sys_invD(2) [OF inv] pool_abs_cong [of ?s' w s q] by simp
  ultimately show ?thesis using sys_invD(3) [OF inv] by (simp add: sys_inv_def tasks_ok_def)
qed

lemma register_conn_sys:
  assumes inv: "sys_inv w q ext mq s" and i: "ios s i = Some I" and c: "conns s a = Some c" and ext: "ext a \<noteq> 0"
  defines "c1 \<equiv> c\<lparr>c_event_loop := io_event_loop I, c_io_thread := Some i\<rparr>"
  shows "\<exists>r s1. event_loop_add (io_event_loop I) (c_fd c) (EVENT_READ OR EVENT_ET) (U_Conn a) (s\<lparr>conns := (conns s)(a \<mapsto> c1)\<rparr>) = Inr (r, s1) \<and>
     interest_frame (s\<lparr>conns := (conns s)(a \<mapsto> c1)\<rparr>) s1 \<and>
     (r = 0 \<longrightarrow> register_conn i a s = Inr ((), s1\<lparr>ios := (ios s1)(i \<mapsto> I\<lparr>io_connections_handled := io_connections_handled I + 1\<rparr>)\<rparr>) \<and>
        sys_inv w q ext mq (s1\<lparr>ios := (ios s1)(i \<mapsto> I\<lparr>io_connections_handled := io_connections_handled I + 1\<rparr>)\<rparr>)) \<and>
     (r \<noteq> 0 \<longrightarrow> (\<exists>s'. register_conn i a s = Inr ((), s') \<and> sys_inv w q (ext(a := ext a - 1)) mq s'))"
proof -
  let ?s = "s\<lparr>conns := (conns s)(a \<mapsto> c1)\<rparr>" and ?f = "\<lambda>I. I\<lparr>io_connections_handled := io_connections_handled I + 1\<rparr>"
  have wf: "conn_wf c1" using io_owned_wf [OF sys_invD(1) [OF inv] c] by (simp add: c1_def conn_wf_def)
  have inv0: "sys_inv w q ext mq ?s" by (rule sys_inv_conn_move [OF inv c i wf]) (simp_all add: c1_def)
  obtain l L where l: "io_event_loop I = Some l" "loops ?s l = Some L"
    using threads_okD(2) [OF sys_invD(5) [OF inv] i] i by (auto elim!: io_liveD)
  obtain r s1 where s1: "event_loop_add (Some l) (c_fd c) (EVENT_READ OR EVENT_ET) (U_Conn a) ?s = Inr (r, s1)" "interest_frame ?s s1"
    using event_loop_ops_frame(1) [OF l(2)] by blast
  have inv1: "sys_inv w q ext mq s1" using inv0 interest_frameD(11,7) [OF s1(2)] by (rule sys_inv_kernel)
  have i1: "ios s1 i = Some I" using interest_frame_io(3) [OF s1(2)] i by simp
  have run: "register_conn i a s = (if r = 0 then io_stats i ?f else conn_release (Some a)) s1"
    using i c l(1) s1(1) by (simp add: register_conn_def bindM_def io_load_Some thenM_Inr conn_update_Some conn_load_Some c1_def)
  have "io_stats_mutex I = Unlocked" using threads_okD [OF sys_invD(5) [OF inv] i] by simp
  then have "io_stats i ?f s1 = Inr ((), s1\<lparr>ios := (ios s1)(i \<mapsto> ?f I)\<rparr>)" using io_stats_exec [OF i1, of ?f] by (cases I) simp
  moreover have "sys_inv w q ext mq (s1\<lparr>ios := (ios s1)(i \<mapsto> ?f I)\<rparr>)" using inv1 i1 by (rule sys_inv_ios_upd) simp_all
  moreover obtain s' where "conn_release (Some a) s1 = Inr ((), s')" "sys_inv w q (ext(a := ext a - 1)) mq s'"
    using release_sys [OF inv1 ext] by blast
  ultimately show ?thesis using run s1 l(1) by (intro exI [of _ r] exI [of _ s1]) auto
qed

text \<open>One pointer is taken from the front of the pipe.\<close>

lemma pipe_event_pointer:
  assumes "ios s i = Some I" and "fst (io_pipe_fd I) \<in> fd_open s" and "pipe_buf s (fst (io_pipe_fd I)) = ptr_cells a @ rest"
  shows "handle_pipe_event i s = register_conn i a (s\<lparr>pipe_buf := (pipe_buf s)(fst (io_pipe_fd I) := rest)\<rparr>)"
proof -
  have take: "take POINTER_SIZE (ptr_cells a @ rest) = ptr_cells a" "drop POINTER_SIZE (ptr_cells a @ rest) = rest" by simp_all
  have "ptr_cells a @ rest \<noteq> []" by (simp add: ptr_cells_def POINTER_SIZE_def)
  then obtain x xs where x: "ptr_cells a @ rest = x # xs" by (cases "ptr_cells a @ rest") auto
  have len: "min (length (ptr_cells a @ rest)) POINTER_SIZE = POINTER_SIZE" by simp
  have "sys_pipe_read (fst (io_pipe_fd I)) POINTER_SIZE s =
      Inr ((int POINTER_SIZE, ptr_cells a), s\<lparr>pipe_buf := (pipe_buf s)(fst (io_pipe_fd I) := rest)\<rparr>)"
    using assms(2) take len unfolding sys_pipe_read_def assms(3) unfolding x by simp
  then show ?thesis using assms(1) by (simp add: handle_pipe_event_def bindM_def io_load_Some)
qed

text \<open>
  C32. Handing a connection to an I/O thread either works or leaves no trace: \<open>io_thread_add_connection\<close> returns 0 exactly when
  memory, the mutex and the pipe allow it, and then one new connection, held once, has its pointer at the end of the pipe; it returns
  \<open>- 1\<close> otherwise, with the heap of connections and the pipe as before. In the second case the descriptor of the client is closed already if the
  pipe was the reason, and still open if the connection could not be made.
\<close>

theorem io_thread_add_connection_outcome:
  assumes "sys_inv w q ext mq s" and "ios s i = Some I" and "0 \<le> fd"
  shows "\<exists>r s'. io_thread_add_connection ok (Some i) fd addr s = Inr (r, s') \<and>
     (if ok \<and> False \<notin> set (take 1 (mem s)) then
        if snd (io_pipe_fd I) \<in> fd_open s \<and> length (pipe_buf s (pipe_peer s (snd (io_pipe_fd I)))) + POINTER_SIZE \<le> PIPE_CAPACITY
        then r = 0 \<and> ext (next_addr s) = 0 \<and> sys_inv w q (ext(next_addr s := 1)) mq s' \<and> fd_open s' = fd_open s \<and>
          conns s' = (conns s)(next_addr s \<mapsto> fresh_conn fd addr i (now s)) \<and>
          pipe_buf s' (pipe_peer s (snd (io_pipe_fd I))) = pipe_buf s (pipe_peer s (snd (io_pipe_fd I))) @ ptr_cells (next_addr s)
        else r = - 1 \<and> sys_inv w q ext mq s' \<and> conns s' = conns s \<and> pipe_buf s' = pipe_buf s \<and> fd_open s' = fd_open s - {fd}
      else r = - 1 \<and> sys_inv w q ext mq s' \<and> conns s' = conns s \<and> pipe_buf s' = pipe_buf s \<and> fd_open s' = fd_open s)"
proof (cases "ok \<and> False \<notin> set (take 1 (mem s)) \<and>
    snd (io_pipe_fd I) \<in> fd_open s \<and> length (pipe_buf s (pipe_peer s (snd (io_pipe_fd I)))) + POINTER_SIZE \<le> PIPE_CAPACITY")
  case True
  then show ?thesis using add_connection_sys(1) [OF assms] add_connection_sys(2) [OF assms, of ok addr] by auto
next
  case False
  then obtain s' where "io_thread_add_connection ok (Some i) fd addr s = Inr (- 1, s')" "sys_inv w q ext mq s'" "conns s' = conns s"
    "pipe_buf s' = pipe_buf s" "fd_open s' = (if ok \<and> False \<notin> set (take 1 (mem s)) then fd_open s - {fd} else fd_open s)"
    using add_connection_sys(3) [OF assms, of ok addr] by blast
  with False show ?thesis by (intro exI [of _ "- 1"] exI [of _ s']) (simp, blast)
qed

lemma add_to_read:
  assumes "loop_ready be l s fd" and "\<not> loop_registered l s fd"
  shows "\<exists>s'. event_loop_add (Some l) fd (EVENT_READ OR EVENT_ET) d s = Inr (0, s') \<and> loop_wants l s' fd = EVENT_READ \<and> loop_registered l s' fd"
proof -
  have mask: "(EVENT_READ OR EVENT_ET) AND RW = EVENT_READ" "EVENT_READ \<noteq> 0" by (simp_all add: RW_def event_flags)
  show ?thesis
    using assms epoll.add_new [where a = l and ev = "EVENT_READ OR EVENT_ET"] kqueue.add_new [where a = l and ev = "EVENT_READ OR EVENT_ET"] mask
    by (cases be) fastforce+
qed

text \<open>
  C33. A connection makes the trip from the acceptor to the event loop: after \<open>io_thread_add_connection\<close> on a thread with an empty pipe, the
  pipe event of that thread takes exactly this connection out of the pipe, makes the thread and its loop its owners, and registers its
  descriptor for reading, on both back ends; the connection is held once, by its registration, and the pipe is empty again.
\<close>

theorem new_connection_registered:
  assumes "sys_inv w q ext mq s" and "ios s i = Some I" and "0 \<le> fd" and "False \<notin> set (take 1 (mem s))"
    and "io_pipe_fd I = (pr, pw)" and "{pr, pw} \<subseteq> fd_open s" and "pipe_peer s pw = pr" and "pipe_buf s pr = []"
    and "io_event_loop I = Some l" and "loop_ready be l s fd" and "\<not> loop_registered l s fd"
  shows "\<exists>s' c I'. bindM (io_thread_add_connection True (Some i) fd addr) (\<lambda>_. handle_pipe_event i) s = Inr ((), s') \<and>
     sys_inv w q (ext(next_addr s := 1)) mq s' \<and> conns s' (next_addr s) = Some c \<and> c_fd c = fd \<and> c_ref_count c = 1 \<and>
     c_event_loop c = Some l \<and> c_io_thread c = Some i \<and> pipe_buf s' pr = [] \<and>
     ios s' i = Some I' \<and> io_connections_handled I' = io_connections_handled I + 1 \<and>
     loop_wants l s' fd = EVENT_READ \<and> loop_registered l s' fd"
proof -
  let ?a = "next_addr s" and ?c = "fresh_conn fd addr i (now s)"
  let ?s1 = "s\<lparr>pipe_buf := (pipe_buf s)(pr := ptr_cells ?a), next_addr := Suc ?a, mem := drop 1 (mem s), conns := (conns s)(?a \<mapsto> ?c)\<rparr>"
  have room: "snd (io_pipe_fd I) \<in> fd_open s \<and> length (pipe_buf s (pipe_peer s (snd (io_pipe_fd I)))) + POINTER_SIZE \<le> PIPE_CAPACITY"
    using assms(5-8) by (simp add: POINTER_SIZE_def PIPE_CAPACITY_def)
  have add: "io_thread_add_connection True (Some i) fd addr s = Inr (0, ?s1)" "sys_inv w q (ext(?a := 1)) mq ?s1"
    using add_connection_sys(2) [OF assms(1-3), of True addr] room assms(4-8) by auto
  let ?s2 = "?s1\<lparr>pipe_buf := (pipe_buf ?s1)(pr := [])\<rparr>"
  have inv2: "sys_inv w q (ext(?a := 1)) mq ?s2" using add(2) by (rule sys_inv_kernel) (cases s; simp)+
  have i2: "ios ?s2 i = Some I" and c2: "conns ?s2 ?a = Some ?c" using assms(2) by (cases s; simp)+
  have pipe: "handle_pipe_event i ?s1 = register_conn i ?a ?s2"
    using pipe_event_pointer [of ?s1 i I ?a "[]"] assms(2,5,6) by simp
  let ?c3 = "?c\<lparr>c_event_loop := Some l, c_io_thread := Some i\<rparr>"
  let ?s3 = "?s2\<lparr>conns := (conns ?s2)(?a \<mapsto> ?c3)\<rparr>"
  obtain r s4 where s4: "event_loop_add (Some l) fd (EVENT_READ OR EVENT_ET) (U_Conn ?a) ?s3 = Inr (r, s4)" "interest_frame ?s3 s4"
    and reg: "r = 0 \<Longrightarrow> register_conn i ?a ?s2 = Inr ((), s4\<lparr>ios := (ios s4)(i \<mapsto> I\<lparr>io_connections_handled := io_connections_handled I + 1\<rparr>)\<rparr>) \<and>
        sys_inv w q (ext(?a := 1)) mq (s4\<lparr>ios := (ios s4)(i \<mapsto> I\<lparr>io_connections_handled := io_connections_handled I + 1\<rparr>)\<rparr>)"
    using register_conn_sys [OF inv2 i2 c2] unfolding assms(9) fresh_conn_fields by auto
  have frame: "loops ?s3 = loops s" "fd_open ?s3 = fd_open s" "ep_interest ?s3 = ep_interest s" "kq_filters ?s3 = kq_filters s" by simp_all
  have r: "r = 0" "loop_wants l s4 fd = EVENT_READ" "loop_registered l s4 fd"
    using add_to_read [of be l ?s3 fd "U_Conn ?a"] assms(10,11) s4(1) unfolding loop_cong [OF frame] by auto
  let ?s' = "s4\<lparr>ios := (ios s4)(i \<mapsto> I\<lparr>io_connections_handled := io_connections_handled I + 1\<rparr>)\<rparr>"
  have "bindM (io_thread_add_connection True (Some i) fd addr) (\<lambda>_. handle_pipe_event i) s = Inr ((), ?s')"
    using add(1) pipe reg [OF r(1)] by (simp add: bindM_def)
  moreover have "loop_wants l ?s' fd = EVENT_READ" "loop_registered l ?s' fd"
    using r(2,3) loop_cong(2,3) [of ?s' s4] by simp_all
  moreover have "conns s4 ?a = Some ?c3" "pipe_buf s4 pr = []" using interest_frame_io(4) [OF s4(2)] interest_frameD(6) [OF s4(2)] by simp_all
  ultimately show ?thesis using reg [OF r(1)] by (intro exI [of _ ?s'] exI [of _ ?c3] exI) auto
qed

theorem io_thread_add_connection_outcome_witness:
  "\<exists>s'. io_thread_add_connection True (Some 80) 7 None (demo_idle_store\<lparr>fd_open := {3, 5, 7, 10, 12, 13}\<rparr>) = Inr (- 1, s') \<and> fd_open s' = {3, 5, 10, 12, 13}"
proof -
  let ?s = "demo_idle_store\<lparr>fd_open := {3, 5, 7, 10, 12, 13}\<rparr>"
  have 1: "sys_inv 60 50 demo_ext (\<lambda>_. []) ?s" using demo_idle_inv by (rule sys_inv_kernel) simp_all
  have 2: "ios ?s 80 = Some demo_idle_io" "0 \<le> (7 :: int)" "snd (io_pipe_fd demo_idle_io) = 11" by (simp_all add: demo_idle_io_def demo_io_thread_def)
  show ?thesis using io_thread_add_connection_outcome [OF 1 2(1,2), of True None] unfolding 2(3) by auto
qed

theorem new_connection_registered_witness:
  "\<exists>s' c. bindM (io_thread_add_connection True (Some 80) 7 None) (\<lambda>_. handle_pipe_event 80) (demo_idle_store\<lparr>fd_open := {3, 5, 7, 10, 11, 12, 13}\<rparr>) = Inr ((), s') \<and>
     conns s' 100 = Some c \<and> c_fd c = 7 \<and> loop_wants 70 s' 7 = EVENT_READ"
proof -
  let ?s = "demo_idle_store\<lparr>fd_open := {3, 5, 7, 10, 11, 12, 13}\<rparr>"
  have 1: "sys_inv 60 50 demo_ext (\<lambda>_. []) ?s" using demo_idle_inv by (rule sys_inv_kernel) simp_all
  have 2: "ios ?s 80 = Some demo_idle_io" "0 \<le> (7 :: int)" "False \<notin> set (take 1 (mem ?s))" "io_pipe_fd demo_idle_io = (10, 11)"
    "{10, 11} \<subseteq> fd_open ?s" "pipe_peer ?s 11 = 10" "pipe_buf ?s 10 = []" "io_event_loop demo_idle_io = Some 70"
    by (simp_all add: demo_idle_io_def demo_io_thread_def)
  have "ep_interest demo_idle_store = (\<lambda>_ _. None)"
    by (simp add: demo_idle_store_def demo_io_store_def demo_pool_store_def demo_task_store_def pool_store.extend_def task_store.extend_def)
  then have 3: "loop_ready epoll_ops 70 ?s 7" "\<not> loop_registered 70 ?s 7" by (simp_all add: loop_ready_def loop_registered_def demo_loop_def)
  have "next_addr ?s = 100" by simp
  then show ?thesis using new_connection_registered [OF 1 2 3, of None] by auto
qed

section \<open>Starting a thread\<close>

lemma okM_io [wp]:
  "okM (io_update i f) s Q = (case ios s i of None \<Rightarrow> False | Some I \<Rightarrow> Q () (s\<lparr>ios := (ios s)(i \<mapsto> f I)\<rparr>))"
  "okM (io_load i) s R = (case ios s i of None \<Rightarrow> False | Some I \<Rightarrow> R I s)"
  "okM (io_free i) s Q = Q () (s\<lparr>ios := (ios s)(i := None)\<rparr>)"
  "okM (close_pair fds) s' Q' = Q' () (after_close (snd fds) (after_close (fst fds) s'))"
  by (simp_all add: okM_def io_update_def io_load_def io_free_def close_pair_def derefM_def bindM_def modifyM_def sys_close_def returnM_def
      split: option.splits)

lemma okM_conj: "okM f s Q \<Longrightarrow> okM f s R \<Longrightarrow> okM f s (\<lambda>x s'. Q x s' \<and> R x s')"
  by (auto simp: okM_iff)

text \<open>What the event loop's own operations leave alone.\<close>

definition loop_frame :: "'a io_store_scheme \<Rightarrow> 'a io_store_scheme \<Rightarrow> bool" where
  "loop_frame s s' \<longleftrightarrow> loop_store.more s' = loop_store.more s \<and> pipe_peer s' = pipe_peer s \<and> pipe_buf s' = pipe_buf s \<and> next_addr s \<le> next_addr s'"

lemma loop_frame_ios: "loop_frame s s' \<Longrightarrow> ios s' = ios s \<and> msgs s' = msgs s \<and> conns s' = conns s"
  by (cases s; cases s') (simp add: loop_frame_def)

text \<open>The heap apart from event loops and I/O threads.\<close>

definition heap_rest :: "'a io_store_scheme \<Rightarrow> _" where
  "heap_rest s = (conns s, tasks s, queues s, pools s, msgs s, io_store.more s)"

lemma heap_rest_frames: "loop_frame s s' \<Longrightarrow> heap_rest s' = heap_rest s" "interest_frame t t' \<Longrightarrow> heap_rest t' = heap_rest t"
proof -
  show "loop_frame s s' \<Longrightarrow> heap_rest s' = heap_rest s" by (cases s; cases s') (simp add: loop_frame_def heap_rest_def)
  show "interest_frame t t' \<Longrightarrow> heap_rest t' = heap_rest t" by (cases t; cases t') (simp add: interest_frame_def heap_rest_def)
qed

lemma heap_rest_simps [simp]: "heap_rest (s\<lparr>ios := x\<rparr>) = heap_rest s" "heap_rest (s\<lparr>fd_open := f\<rparr>) = heap_rest s" "heap_rest (s\<lparr>newfd := n\<rparr>) = heap_rest s"
  "heap_rest (s\<lparr>pipe_peer := p\<rparr>) = heap_rest s" "heap_rest (s\<lparr>pipe_buf := b\<rparr>) = heap_rest s" "heap_rest (s\<lparr>next_addr := a\<rparr>) = heap_rest s"
  "heap_rest (s\<lparr>mem := m\<rparr>) = heap_rest s" "heap_rest (s\<lparr>errno := e\<rparr>) = heap_rest s" "heap_rest (after_close fd s) = heap_rest s"
  by (simp_all add: heap_rest_def after_close_def)

lemma after_close_more [simp]:
  "kernel.more (after_close fd s) = kernel.more s" "loop_store.more (after_close fd s') = loop_store.more s'" "loops (after_close fd s') = loops s'"
  "conns (after_close fd t) = conns t" "msgs (after_close fd u) = msgs u" "ios (after_close fd u) = ios u"
  by (simp_all add: after_close_def)

lemma loop_create_frame: "okM (event_loop_create be n) s (\<lambda>p s'. loop_frame s s' \<and> (\<forall>a. p = Some a \<longrightarrow> next_addr s \<le> a \<and> a < next_addr s'))"
  if "loops s (next_addr s) = None"
  using that
  by (cases be) (auto simp: event_loop_create_def epoll_create_impl_def kqueue_create_impl_def wp loop_frame_def split: list.split bool.split)

lemma loop_create_ok:
  assumes "loops s (next_addr s) = None"
  shows "okM (event_loop_create be n) s (\<lambda>p s'. loop_created be n s p s' \<and> loop_frame s s' \<and> (\<forall>a. p = Some a \<longrightarrow> next_addr s \<le> a \<and> a < next_addr s'))"
proof (rule okM_conj)
  show "okM (event_loop_create be n) s (loop_created be n s)"
    using loop_create_epoll [OF assms] loop_create_kqueue [OF assms] by (cases be) auto
qed (rule loop_create_frame [OF assms])

lemma loop_destroy_ok:
  fixes s s1 s2 :: "'a io_store_scheme"
  assumes "loop_created be n s (Some a) s1" and "loops s a = None" and "loops s2 = loops s1" and "fd_open s2 = fd_open s1"
  shows "okM (event_loop_destroy (Some a)) s2 (\<lambda>_ s'. fd_open s' = fd_open s \<and> loops s' = loops s \<and> loop_frame s2 s')"
proof -
  have c: "loop_created be n s (Some a) s2" using assms(1,3,4) by (simp add: loop_created_def)
  have "okM (event_loop_destroy (Some a)) s2 (\<lambda>_ s'. loop_frame s2 s')"
    using c by (cases be) (auto simp: loop_created_def event_loop_destroy_def epoll_destroy_impl_def kqueue_destroy_impl_def wp loop_frame_def)
  with loop_destroy_created [OF c assms(2)] show ?thesis by (auto simp: okM_iff)
qed

lemma okM_loop_add:
  assumes "loops s a \<noteq> None" and "\<And>r s'. interest_frame s s' \<Longrightarrow> Q r s'"
  shows "okM (event_loop_add (Some a) fd ev d) s Q"
proof -
  obtain l where "loops s a = Some l" using assms(1) by blast
  then obtain r s' where "event_loop_add (Some a) fd ev d s = Inr (r, s')" "interest_frame s s'" using event_loop_ops_frame(1) by blast
  then show ?thesis using assms(2) by (auto simp: okM_iff)
qed

text \<open>
  The outcome of the start: a live thread, or nothing of it but, unless a registration failed, its message pipe.
\<close>

definition started :: "backend \<Rightarrow> bool \<Rightarrow> addr \<Rightarrow> io_thread \<Rightarrow> int \<times> int \<Rightarrow> int \<times> int \<Rightarrow> 'a io_store_scheme \<Rightarrow> ptr \<Rightarrow> 'a io_store_scheme \<Rightarrow> bool" where
  "started be spawn i I pfd mfd s p s' \<longleftrightarrow> heap_rest s' = heap_rest s \<and> next_addr s \<le> next_addr s' \<and>
     (case p of
        Some j \<Rightarrow> j = i \<and> spawn \<and> pipe_peer s' = pipe_peer s \<and> pipe_buf s' = pipe_buf s \<and>
          (\<exists>l. next_addr s \<le> l \<and> l < next_addr s' \<and> ios s' = (ios s)(i \<mapsto> I\<lparr>io_event_loop := Some l\<rparr>) \<and> loop_created be MAX_EVENTS s (Some l) s')
      | None \<Rightarrow> ios s' = (ios s)(i := None) \<and> loops s' = loops s \<and>
          (fd_open s' = fd_open s - {fst pfd, snd pfd} \<or> fd_open s' = fd_open s - {fst pfd, snd pfd, fst mfd, snd mfd}))"

lemma io_thread_start_ok:
  fixes s :: "'a io_store_scheme"
  assumes i: "ios s i = Some I" and fresh: "\<And>a. next_addr s \<le> a \<Longrightarrow> loops s a = None"
  shows "okM (io_thread_start be spawn i pfd mfd) s (started be spawn i I pfd mfd s)"
  unfolding io_thread_start_def okM_bind
proof (rule okM_mono [OF loop_create_ok])
  show "loops s (next_addr s) = None" by (rule fresh) simp
next
  fix p s1
  assume "loop_created be MAX_EVENTS s p s1 \<and> loop_frame s s1 \<and> (\<forall>a. p = Some a \<longrightarrow> next_addr s \<le> a \<and> a < next_addr s1)"
  then have c: "loop_created be MAX_EVENTS s p s1" and f: "loop_frame s s1" and p: "\<And>a. p = Some a \<Longrightarrow> next_addr s \<le> a \<and> a < next_addr s1" by auto
  note f1 = loop_frame_ios [OF f] heap_rest_frames(1) [OF f] f [unfolded loop_frame_def]
  show "okM (thenM (io_update i (\<lambda>I. I\<lparr>io_event_loop := p\<rparr>))
    (if p = None then thenM (close_pair pfd) (thenM (io_free i) (returnM None))
     else let undo = thenM (event_loop_destroy p) (thenM (close_pair pfd) (thenM (close_pair mfd) (thenM (io_free i) (returnM None)))) in
       bindM (event_loop_add p (fst pfd) (EVENT_READ OR EVENT_ET) (U_Pipe i)) (\<lambda>r.
       if r = - 1 then undo
       else bindM (event_loop_add p (fst mfd) (EVENT_READ OR EVENT_ET) (U_MsgPipe i)) (\<lambda>r.
       if r = - 1 then undo
       else if spawn then returnM (Some i)
       else thenM (event_loop_destroy p) (thenM (close_pair pfd) (thenM (io_free i) (returnM None))))))) s1
      (started be spawn i I pfd mfd s)"
  proof (cases p)
    case None
    with c f1 i show ?thesis by (auto simp: wp started_def loop_created_def)
  next
    case (Some l)
    let ?s1 = "s1\<lparr>ios := (ios s1)(i \<mapsto> I\<lparr>io_event_loop := Some l\<rparr>)\<rparr>"
    have l: "next_addr s \<le> l" "loops s l = None" "l < next_addr s1" using p fresh Some by auto
    have live: "loops s1 l \<noteq> None" using c Some by (auto simp: loop_created_def)
    have undo: "okM (thenM (event_loop_destroy (Some l)) (thenM (close_pair pfd) rest)) t (started be spawn i I pfd mfd s)"
      if t: "interest_frame ?s1 t" and rest: "rest = thenM (io_free i) (returnM None) \<or> rest = thenM (close_pair mfd) (thenM (io_free i) (returnM None))"
      for t rest
      unfolding okM_then
    proof (rule okM_mono [OF loop_destroy_ok])
      show "loop_created be MAX_EVENTS s (Some l) s1" using c Some by simp
      show "loops s l = None" by (rule l)
      show "loops t = loops s1" "fd_open t = fd_open s1" using interest_frame_loops [OF t] interest_frameD(1) [OF t] by simp_all
    next
      fix u :: unit and t' assume t': "fd_open t' = fd_open s \<and> loops t' = loops s \<and> loop_frame t t'"
      note f2 = loop_frame_ios [of t t'] heap_rest_frames(1) [of t t'] heap_rest_frames(2) [OF t] interest_frame_io(3) [OF t]
      have "next_addr s \<le> next_addr t'" using t' f1 interest_frameD(7) [OF t] by (simp add: loop_frame_def)
      then show "okM (close_pair pfd) t' (\<lambda>_ t'. okM rest t' (started be spawn i I pfd mfd s))"
        using rest t' f2 f1 by (auto simp: wp started_def)
    qed
    have "okM (bindM (event_loop_add (Some l) (fst pfd) (EVENT_READ OR EVENT_ET) (U_Pipe i)) (\<lambda>r.
       if r = - 1 then thenM (event_loop_destroy (Some l)) (thenM (close_pair pfd) (thenM (close_pair mfd) (thenM (io_free i) (returnM None))))
       else bindM (event_loop_add (Some l) (fst mfd) (EVENT_READ OR EVENT_ET) (U_MsgPipe i)) (\<lambda>r.
       if r = - 1 then thenM (event_loop_destroy (Some l)) (thenM (close_pair pfd) (thenM (close_pair mfd) (thenM (io_free i) (returnM None))))
       else if spawn then returnM (Some i)
       else thenM (event_loop_destroy (Some l)) (thenM (close_pair pfd) (thenM (io_free i) (returnM None)))))) ?s1 (started be spawn i I pfd mfd s)"
      unfolding okM_bind
    proof (rule okM_loop_add)
      show "loops ?s1 l \<noteq> None" using live by simp
    next
      fix r t assume t: "interest_frame ?s1 t"
      have live2: "loops t l \<noteq> None" using interest_frame_loops [OF t] live by simp
      have fin: "started be spawn i I pfd mfd s (Some i) t'" if "spawn" and t': "interest_frame ?s1 t'" for t'
        using that(1) c Some f1 l(1,3) heap_rest_frames(2) [OF t'] interest_frame_loops [OF t'] interest_frameD [OF t'] interest_frame_io(3) [OF t']
        by (auto simp: started_def loop_created_def)
      show "okM (if r = - 1 then thenM (event_loop_destroy (Some l)) (thenM (close_pair pfd) (thenM (close_pair mfd) (thenM (io_free i) (returnM None))))
       else bindM (event_loop_add (Some l) (fst mfd) (EVENT_READ OR EVENT_ET) (U_MsgPipe i)) (\<lambda>r.
       if r = - 1 then thenM (event_loop_destroy (Some l)) (thenM (close_pair pfd) (thenM (close_pair mfd) (thenM (io_free i) (returnM None))))
       else if spawn then returnM (Some i)
       else thenM (event_loop_destroy (Some l)) (thenM (close_pair pfd) (thenM (io_free i) (returnM None))))) t (started be spawn i I pfd mfd s)"
        unfolding okM_if okM_bind
        using undo [OF t] undo [OF interest_frame_trans [OF t]] fin [OF _ interest_frame_trans [OF t]]
        by (auto intro!: okM_loop_add [OF live2] simp: okM_basic)
    qed
    moreover have "okM (thenM (io_update i (\<lambda>I. I\<lparr>io_event_loop := Some l\<rparr>)) X) s1 Q = okM X ?s1 Q" for X :: "('a io_store_scheme, ptr) cmd" and Q
      using i f1 by (simp add: okM_then okM_io)
    ultimately show ?thesis unfolding Some Let_def by (simp only: option.distinct if_False)
  qed
qed

text \<open>The back end of a loop is the one its operations belong to.\<close>

definition loop_typed :: "event_loop \<Rightarrow> bool" where
  "loop_typed l \<longleftrightarrow> (case (l_ops l, l_impl l) of
     (Some epoll_ops, Some (Epoll fd cap)) \<Rightarrow> 0 \<le> fd
   | (Some kqueue_ops, Some (Kqueue fd cap cs maxc)) \<Rightarrow> 0 \<le> fd
   | _ \<Rightarrow> False)"

lemma loop_created_typed: "loop_created be n s (Some a) s' \<Longrightarrow> \<exists>L. loops s' = (loops s)(a \<mapsto> L) \<and> loop_typed L"
  by (cases be) (auto simp: loop_created_def loop_typed_def)

text \<open>A new thread as its creator leaves it, with two fresh pipes and an event loop of its own; the rest of the heap is untouched.\<close>

definition thread_created :: "int \<Rightarrow> ptr \<Rightarrow> 'a io_store_scheme \<Rightarrow> addr \<Rightarrow> 'a io_store_scheme \<Rightarrow> bool" where
  "thread_created index worker_pool s i s' \<longleftrightarrow> (\<exists>I l L pr pw mr mw. ios s i = None \<and> ios s' = (ios s)(i \<mapsto> I) \<and> io_live s' i \<and> msg_abs s' i [] \<and>
     io_event_loop I = Some l \<and> loops s l = None \<and> loops s' = (loops s)(l \<mapsto> L) \<and> loop_typed L \<and>
     io_thread_index I = index \<and> io_worker_pool I = worker_pool \<and> io_stats_mutex I = Unlocked \<and> \<not> io_shutdown I \<and>
     io_pipe_fd I = (pr, pw) \<and> io_msg_pipe_fd I = (mr, mw) \<and> distinct [pr, pw, mr, mw] \<and> {pr, pw, mr, mw} \<inter> fd_open s = {} \<and>
     fd_open s \<union> {pr, pw, mr, mw} \<subseteq> fd_open s' \<and> pipe_peer s' = (pipe_peer s)(pw := pr, mw := mr) \<and> pipe_buf s' = (pipe_buf s)(pr := [], mr := []) \<and>
     heap_rest s' = heap_rest s \<and> next_addr s \<le> next_addr s' \<and> i < next_addr s' \<and> l < next_addr s')"

definition thread_undone :: "'a io_store_scheme \<Rightarrow> 'a io_store_scheme \<Rightarrow> bool" where
  "thread_undone s s' \<longleftrightarrow> ios s' = ios s \<and> loops s' = loops s \<and> heap_rest s' = heap_rest s \<and>
     (fd_open s' = fd_open s \<or> (\<exists>mr mw. mr \<noteq> mw \<and> {mr, mw} \<inter> fd_open s = {} \<and> fd_open s' = fd_open s \<union> {mr, mw}))"

definition io_blank :: "int \<Rightarrow> ptr \<Rightarrow> io_thread" where
  "io_blank index worker_pool =
     \<lparr>io_thread_index = index, io_event_loop = None, io_worker_pool = worker_pool, io_pipe_fd = (- 1, - 1), io_shutdown = False,
      io_msg_queue_head = None, io_msg_queue_tail = None, io_msg_queue_mutex = Destroyed, io_msg_pipe_fd = (- 1, - 1),
      io_connections_handled = 0, io_bytes_read = 0, io_bytes_written = 0, io_stats_mutex = Destroyed\<rparr>"

lemma create_started:
  assumes t: "fd_open t = fd_open s \<union> {pr, pw, mr, mw}" "ios t = (ios s)(i \<mapsto> I)" "loops t = loops s" "pipe_peer t = (pipe_peer s)(pw := pr, mw := mr)"
      "pipe_buf t = (pipe_buf s)(pr := [], mr := [])" "heap_rest t = heap_rest s" "next_addr t = Suc i"
    and fresh: "i = next_addr s" "\<And>a. next_addr s \<le> a \<Longrightarrow> loops s a = None"
    and fds: "distinct [pr, pw, mr, mw]" "{pr, pw, mr, mw} \<inter> fd_open s = {}" and i: "ios s i = None"
    and I: "I = (io_blank index pool)\<lparr>io_pipe_fd := (pr, pw), io_msg_pipe_fd := (mr, mw), io_msg_queue_mutex := Unlocked, io_stats_mutex := Unlocked\<rparr>"
    and st: "started be spawn i I (pr, pw) (mr, mw) t p s'"
  shows "case p of Some j \<Rightarrow> spawn \<and> thread_created index pool s j s' | None \<Rightarrow> thread_undone s s'"
proof (cases p)
  case None
  then have "ios s' = ios s" "loops s' = loops s" "heap_rest s' = heap_rest s" "fd_open s' = fd_open t - {pr, pw} \<or> fd_open s' = fd_open t - {pr, pw, mr, mw}"
    using st t(2,3,6) i by (auto simp: started_def fun_upd_idem)
  moreover have "fd_open t - {pr, pw} = fd_open s \<union> {mr, mw}" "fd_open t - {pr, pw, mr, mw} = fd_open s" "mr \<noteq> mw" "{mr, mw} \<inter> fd_open s = {}"
    using t(1) fds by auto
  ultimately have "thread_undone s s'" unfolding thread_undone_def by (metis (no_types))
  then show ?thesis using None by simp
next
  case (Some j)
  then obtain l where l: "j = i" "spawn" "ios s' = (ios s)(i \<mapsto> I\<lparr>io_event_loop := Some l\<rparr>)" "loop_created be MAX_EVENTS t (Some l) s'"
    "pipe_peer s' = pipe_peer t" "pipe_buf s' = pipe_buf t" "heap_rest s' = heap_rest t" "next_addr t \<le> next_addr s'" "next_addr t \<le> l" "l < next_addr s'"
    using st t(2) by (auto simp: started_def)
  from loop_created_typed [OF l(4)] obtain L where L: "loops s' = (loops s)(l \<mapsto> L)" "loop_typed L" using t(3) by auto
  have none: "loops s l = None" using fresh l(9) t(7) by simp
  have live: "io_live s' i" "fd_open t \<subseteq> fd_open s'" using l(3,4) by (auto simp: io_live_def loop_created_def)
  have msg: "msg_abs s' i []" using l(3) I by (simp add: msg_abs_at_def io_blank_def)
  have up: "fd_open s \<union> {pr, pw, mr, mw} \<subseteq> fd_open s'" "i < next_addr s'" "next_addr s \<le> next_addr s'" using live(2) t(1,7) l(8) fresh(1) by simp_all
  have "thread_created index pool s i s'"
    unfolding thread_created_def
    by (rule exI [of _ "I\<lparr>io_event_loop := Some l\<rparr>"], rule exI [of _ l], rule exI [of _ L], rule exI [of _ pr], rule exI [of _ pw],
        rule exI [of _ mr], rule exI [of _ mw])
       (use none live msg up l(3,5-10) t(4-6) I L fds i in \<open>simp add: io_blank_def\<close>)
  then show ?thesis using Some l(1,2) by simp
qed

lemma io_thread_create_ok:
  assumes "\<forall>a. next_addr s \<le> a \<longrightarrow> loops s a = None \<and> ios s a = None"
  shows "okM (io_thread_create be spawn index pool) s (\<lambda>p s'.
    case p of Some i \<Rightarrow> spawn \<and> thread_created index pool s i s' | None \<Rightarrow> thread_undone s s')"
proof -
  let ?Q = "\<lambda>p s'. case p of Some i \<Rightarrow> spawn \<and> thread_created index pool s i s' | None \<Rightarrow> thread_undone s s'"
  let ?i = "next_addr s"
  let ?body = "bindM sys_pipe (\<lambda>(r, pfd).
         if r = - 1 then thenM (io_free ?i) (returnM None)
         else thenM (io_update ?i (\<lambda>I. I\<lparr>io_pipe_fd := pfd\<rparr>))
        (bindM sys_pipe (\<lambda>(r, mfd).
         if r = - 1 then thenM (close_pair pfd) (thenM (io_free ?i) (returnM None))
         else
           thenM (io_update ?i (\<lambda>I. I\<lparr>io_msg_pipe_fd := mfd, io_msg_queue_head := None, io_msg_queue_tail := None,
                                     io_msg_queue_mutex := Unlocked, io_stats_mutex := Unlocked\<rparr>))
                 (io_thread_start be spawn ?i pfd mfd))))"
  have none: "ios s ?i = None" using assms by simp
  have body: "okM ?body (s\<lparr>next_addr := Suc ?i, mem := m, ios := (ios s)(?i \<mapsto> io_blank index pool)\<rparr>) ?Q" (is "okM _ ?s ?Q") for m
    unfolding okM_bind
  proof (rule okM_pipe, goal_cases)
    case (3 pr pw fs)
    let ?s1 = "?s\<lparr>fd_open := insert pr (insert pw (fd_open ?s)), newfd := fs, pipe_peer := (pipe_peer ?s)(pw := pr), pipe_buf := (pipe_buf ?s)(pr := []),
      ios := (ios ?s)(?i \<mapsto> (io_blank index pool)\<lparr>io_pipe_fd := (pr, pw)\<rparr>)\<rparr>"
    have "okM sys_pipe ?s1 (\<lambda>x t. okM (case x of (r, mfd) \<Rightarrow>
         if r = - 1 then thenM (close_pair (pr, pw)) (thenM (io_free ?i) (returnM None))
         else
           thenM (io_update ?i (\<lambda>I. I\<lparr>io_msg_pipe_fd := mfd, io_msg_queue_head := None, io_msg_queue_tail := None,
                                     io_msg_queue_mutex := Unlocked, io_stats_mutex := Unlocked\<rparr>))
                 (io_thread_start be spawn ?i (pr, pw) mfd)) t ?Q)"
    proof (rule okM_pipe, goal_cases)
      case (3 mr mw fs')
      let ?I = "(io_blank index pool)\<lparr>io_pipe_fd := (pr, pw), io_msg_pipe_fd := (mr, mw), io_msg_queue_mutex := Unlocked, io_stats_mutex := Unlocked\<rparr>"
      let ?t = "?s1\<lparr>fd_open := insert mr (insert mw (fd_open ?s1)), newfd := fs', pipe_peer := (pipe_peer ?s1)(mw := mr), pipe_buf := (pipe_buf ?s1)(mr := []),
        ios := (ios ?s1)(?i \<mapsto> ?I)\<rparr>"
      have fresh: "loops ?t a = None" if "next_addr ?t \<le> a" for a using that assms by simp
      have "okM (io_thread_start be spawn ?i (pr, pw) (mr, mw)) ?t (started be spawn ?i ?I (pr, pw) (mr, mw) ?t)"
        by (rule io_thread_start_ok [OF _ fresh]) simp_all
      then have "okM (io_thread_start be spawn ?i (pr, pw) (mr, mw)) ?t ?Q"
        by (rule okM_mono) (rule create_started [where t = ?t and i = ?i and pr = pr and pw = pw and mr = mr and mw = mw and I = ?I];
            use assms \<open>0 \<le> pr\<close> \<open>pr \<noteq> pw\<close> \<open>pr \<notin> fd_open ?s\<close> \<open>pw \<notin> fd_open ?s\<close> 3 none in \<open>auto\<close>)
      then show ?case by (simp add: wp io_blank_def)
    qed (use 3 none in \<open>auto simp: wp thread_undone_def fun_upd_idem\<close>)
    then show ?case by (simp add: okM_then okM_io okM_bind)
  qed (use none in \<open>auto simp: wp thread_undone_def fun_upd_idem\<close>)
  show ?thesis
    unfolding io_thread_create_def okM_bind okM_malloc io_blank_def [symmetric]
    using body [of "mem s"] body none by (auto simp: wp thread_undone_def split: list.split bool.split)
qed

text \<open>
  C34. Creating an I/O thread: whatever allocation, pipe, registration or thread creation fails, \<open>io_thread_create\<close> returns without a fault. It returns
  a thread that is live, has an empty message queue, an event loop of its own and two fresh pipes, with all other pipes and objects as before, or \<open>NULL\<close>; then the heap is as before, and the open descriptors are as
  before except that the two ends of the message pipe may be left open, which no part of the server can close any more.
\<close>

theorem io_thread_create_outcome:
  assumes "\<forall>a. next_addr s \<le> a \<longrightarrow> loops s a = None \<and> ios s a = None"
  shows "okM (io_thread_create be spawn index pool) s (\<lambda>p s'.
    case p of Some i \<Rightarrow> spawn \<and> thread_created index pool s i s' | None \<Rightarrow> thread_undone s s')"
  by (rule io_thread_create_ok [OF assms])

theorem io_thread_create_outcome_witness:
  "okM (io_thread_create epoll_ops False 0 (Some 60)) (demo_idle_store\<lparr>newfd := [20, 21, 22, 23, 24]\<rparr>)
     (\<lambda>p s'. p = None \<and> thread_undone (demo_idle_store\<lparr>newfd := [20, 21, 22, 23, 24]\<rparr>) s')"
proof -
  let ?s = "demo_idle_store\<lparr>newfd := [20, 21, 22, 23, 24]\<rparr>"
  have "\<forall>a. next_addr ?s \<le> a \<longrightarrow> loops ?s a = None \<and> ios ?s a = None" by simp
  then have "okM (io_thread_create epoll_ops False 0 (Some 60)) ?s (\<lambda>p s'.
      case p of Some i \<Rightarrow> False \<and> thread_created 0 (Some 60) ?s i s' | None \<Rightarrow> thread_undone ?s s')" by (rule io_thread_create_outcome)
  then show ?thesis by (rule okM_mono) (simp split: option.splits)
qed

section \<open>Stopping a thread\<close>

fun impl_fd :: "impl option \<Rightarrow> int set" where
  "impl_fd None = {}"
| "impl_fd (Some (Epoll fd cap)) = {fd}"
| "impl_fd (Some (Kqueue fd cap cs maxc)) = {fd}"

lemma loop_destroy_typed:
  assumes "loops s a = Some l" and "loop_typed l"
  shows "okM (event_loop_destroy (Some a)) s (\<lambda>_ s'. loops s' = (loops s)(a := None) \<and> fd_open s' = fd_open s - impl_fd (l_impl l) \<and> loop_frame s s')"
  using assms
  by (auto simp: loop_typed_def event_loop_destroy_def epoll_destroy_impl_def kqueue_destroy_impl_def wp loop_frame_def
      split: option.splits backend.splits impl.splits)

lemma pipe_write_frame: "\<exists>n t. sys_pipe_write w cs s = Inr (n, t) \<and> kernel.more t = kernel.more s \<and> fd_open t = fd_open s"
  by (auto simp: sys_pipe_write_def Let_def)

lemma okM_destroy_thread:
  fixes s :: "'a io_store_scheme"
  assumes "ios s i = Some I" and "io_event_loop I = Some l" and "loops s l = Some L" and "loop_typed L"
    and join: "\<And>t. ios t = (ios s)(i \<mapsto> I\<lparr>io_shutdown := True\<rparr>) \<Longrightarrow> loops t = loops s \<Longrightarrow> fd_open t = fd_open s \<Longrightarrow> heap_rest t = heap_rest s \<Longrightarrow>
       okM (join i) t (\<lambda>_ t'. ios t' = ios t \<and> loops t' = loops t \<and> P t')"
    and fin: "\<And>t' s'. P t' \<Longrightarrow> ios s' = (ios s)(i := None) \<Longrightarrow> loops s' = (loops s)(l := None) \<Longrightarrow>
       fd_open s' = fd_open t' - impl_fd (l_impl L) - {fst (io_pipe_fd I), snd (io_pipe_fd I)} \<Longrightarrow> heap_rest s' = heap_rest t' \<Longrightarrow> Q s'"
  shows "okM (io_thread_destroy join (Some i)) s (\<lambda>_. Q)"
proof -
  let ?I = "I\<lparr>io_shutdown := True\<rparr>" and ?w = "snd (io_pipe_fd I)"
  let ?s = "s\<lparr>ios := (ios s)(i \<mapsto> ?I)\<rparr>"
  obtain n s1 where w: "sys_pipe_write ?w [PByte 1] ?s = Inr (n, s1)" "kernel.more s1 = kernel.more ?s" "fd_open s1 = fd_open ?s"
    using pipe_write_frame by blast
  then have s1: "sys_pipe_write ?w [PByte 1] ?s = Inr (n, s1)" "ios s1 = ios ?s" "loops s1 = loops s" "fd_open s1 = fd_open s" "heap_rest s1 = heap_rest s"
    by (cases s; cases s1; simp add: heap_rest_def)+
  obtain s2 where s2: "join i s1 = Inr ((), s2)" "ios s2 = ios s1" "loops s2 = loops s1" "P s2"
    using join [of s1] s1(2-5) by (auto simp: okM_iff)
  have i2: "ios s2 i = Some ?I" and l2: "loops s2 l = Some L" using s1 s2 assms(3) by simp_all
  let ?rest = "thenM (event_loop_destroy (Some l)) (thenM (close_pair (io_pipe_fd I)) (thenM (io_update i (\<lambda>I. I\<lparr>io_stats_mutex := Destroyed\<rparr>)) (io_free i)))"
  have run: "io_thread_destroy join (Some i) s = ?rest s2"
    using assms(1,2) i2 s1(1) s2(1) by (simp add: io_thread_destroy_def thenM_Inr bindM_Inr io_update_Some io_load_Some)
  have "okM ?rest s2 (\<lambda>_. Q)"
    unfolding okM_then
  proof (rule okM_mono [OF loop_destroy_typed [OF l2 assms(4)]])
    fix u :: unit and t
    assume t: "loops t = (loops s2)(l := None) \<and> fd_open t = fd_open s2 - impl_fd (l_impl L) \<and> loop_frame s2 t"
    then have "ios t = ios s2" "heap_rest t = heap_rest s2" using loop_frame_ios heap_rest_frames(1) by blast+
    with t s1 s2 show "okM (close_pair (io_pipe_fd I)) t (\<lambda>_ t. okM (io_update i (\<lambda>I. I\<lparr>io_stats_mutex := Destroyed\<rparr>)) t (\<lambda>_ t. okM (io_free i) t (\<lambda>_. Q)))"
      by (auto simp: okM_io intro!: fin [of s2])
  qed
  then show ?thesis using run by (simp add: okM_def)
qed

text \<open>
  C35. Destroying an I/O thread: if the thread ends once it is told to, \<open>io_thread_destroy\<close> returns without a fault, frees the thread and its event loop,
  and closes the descriptor of the loop and both ends of the connection pipe. Every other descriptor stays open, the message pipe
  of the thread among them, and messages that were still queued are never freed.
\<close>

theorem io_thread_destroy_outcome:
  fixes s :: "'a io_store_scheme"
  assumes "ios s i = Some I" and "io_event_loop I = Some l" and "loops s l = Some L" and "loop_typed L"
    and join: "\<And>t. ios t i = Some (I\<lparr>io_shutdown := True\<rparr>) \<Longrightarrow>
       okM (join i) t (\<lambda>_ t'. ios t' = ios t \<and> loops t' = loops t \<and> fd_open t' = fd_open t \<and> msgs t' = msgs t)"
  shows "okM (io_thread_destroy join (Some i)) s (\<lambda>_ s'. ios s' = (ios s)(i := None) \<and> loops s' = (loops s)(l := None) \<and>
     fd_open s' = fd_open s - impl_fd (l_impl L) - {fst (io_pipe_fd I), snd (io_pipe_fd I)} \<and> msgs s' = msgs s)"
proof (rule okM_destroy_thread [OF assms(1-4), where P = "\<lambda>t'. fd_open t' = fd_open s \<and> msgs t' = msgs s"], goal_cases)
  case (1 t)
  then have "ios t i = Some (I\<lparr>io_shutdown := True\<rparr>)" "msgs t = msgs s" by (simp_all add: heap_rest_def)
  with 1 show ?case by (auto intro: okM_mono [OF join])
qed (simp add: heap_rest_def)

theorem io_thread_destroy_outcome_witness:
  "okM (io_thread_destroy (\<lambda>_. returnM ()) (Some 80)) demo_io_store
     (\<lambda>_ s'. ios s' 80 = None \<and> fd_open s' = {5, 12, 13} \<and> msgs s' 90 \<noteq> None)"
proof -
  have 1: "ios demo_io_store 80 = Some demo_io_thread" "io_event_loop demo_io_thread = Some 70" "loops demo_io_store 70 = Some demo_loop" "loop_typed demo_loop"
    by (simp_all add: demo_io_thread_def loop_typed_def demo_loop_def)
  have 2: "okM (returnM ()) t (\<lambda>_ t'. ios t' = ios t \<and> loops t' = loops t \<and> fd_open t' = fd_open t \<and> msgs t' = msgs t)" for t :: io_store
    by (simp add: okM_basic)
  have fds: "{3, 5, 10, 11, 12, 13} - {3} - {10, 11} = {5, 12, 13 :: int}" by auto
  note T = io_thread_destroy_outcome [OF 1, of "\<lambda>_. returnM ()", OF 2]
  have 3: "impl_fd (l_impl demo_loop) = {3}" "fst (io_pipe_fd demo_io_thread) = 10" "snd (io_pipe_fd demo_io_thread) = 11"
    by (simp_all add: demo_loop_def demo_io_thread_def)
  show ?thesis
    using T [unfolded 3 demo_io_fields fds] by (rule okM_mono) simp
qed

end
