(* ===== verification/Pipe_Frames.thy ===== *)
theory Pipe_Frames
  imports Worker Io_Thread
begin

text \<open>
  What the handlers leave alone. The pipes through which connections are handed over carry pointers, and only the acceptor and the pipe
  event touch them. A small calculus of frame rules, \<open>keepsM\<close>, shows this for the workers, the messages and the connection events by
  following the structure of the commands.
\<close>

section \<open>The calculus\<close>

definition keepsM :: "('s \<Rightarrow> 'v) \<Rightarrow> ('s, 'a) cmd \<Rightarrow> bool" where
  "keepsM v f \<longleftrightarrow> (\<forall>s x s'. f s = Inr (x, s') \<longrightarrow> v s' = v s)"

named_theorems keeps

lemma keepsD: "keepsM v f \<Longrightarrow> f s = Inr (x, s') \<Longrightarrow> v s' = v s"
  unfolding keepsM_def by blast

lemma keeps_mono: "keepsM v f \<Longrightarrow> (\<And>s s'. v s' = v s \<Longrightarrow> u s' = u s) \<Longrightarrow> keepsM u f"
  unfolding keepsM_def by blast

lemma keeps_bind [keeps]: "keepsM v f \<Longrightarrow> (\<And>x. keepsM v (g x)) \<Longrightarrow> keepsM v (bindM f g)"
  unfolding keepsM_def bindM_def by (fastforce split: sum.splits)

lemma keeps_then [keeps]: "keepsM v f \<Longrightarrow> keepsM v g \<Longrightarrow> keepsM v (thenM f g)"
  unfolding thenM_def by (rule keeps_bind)

lemma keeps_basic [keeps]: "keepsM v (returnM x)" "keepsM v (failM e)" "keepsM v (getM h)" "keepsM v (derefM k p)"
  by (auto simp: keepsM_def c_defs derefM_def split: option.splits)

lemma keeps_mutex [keeps]: "keepsM v (mutex_lock m)" "keepsM v (mutex_unlock m)"
  by (auto simp: mutex_lock_def mutex_unlock_def split: mutex.split intro: keeps)

lemma keeps_modify: "(\<And>s. v (h s) = v s) \<Longrightarrow> keepsM v (modifyM h)"
  by (auto simp: keepsM_def modifyM_def)

lemma keeps_if [keeps]: "(b \<Longrightarrow> keepsM v f) \<Longrightarrow> (\<not> b \<Longrightarrow> keepsM v g) \<Longrightarrow> keepsM v (if b then f else g)"
  by simp

lemma keeps_when [keeps]: "(b \<Longrightarrow> keepsM v f) \<Longrightarrow> keepsM v (whenM b f)"
  by (cases b) (simp_all add: keeps)

lemma keeps_case [keeps]:
  "keepsM v f \<Longrightarrow> (\<And>x. keepsM v (g x)) \<Longrightarrow> keepsM v (case p of None \<Rightarrow> f | Some x \<Rightarrow> g x)"
  "(\<And>x y. keepsM v (h x y)) \<Longrightarrow> keepsM v (case z of (x, y) \<Rightarrow> h x y)"
  by (auto split: option.split prod.split)

lemma keeps_let [keeps]: "(\<And>x. keepsM v (f x)) \<Longrightarrow> keepsM v (let x = t in f x)"
  by simp

section \<open>Pipes and messages\<close>

text \<open>The descriptors of the threads, the pipes and the messages, and the part of the pipes that belongs to the hand-over of connections.\<close>

definition io_fds :: "'a io_store_scheme \<Rightarrow> addr \<Rightarrow> ((int \<times> int) \<times> int \<times> int) option" where
  "io_fds s i = map_option (\<lambda>I. (io_pipe_fd I, io_msg_pipe_fd I)) (ios s i)"

definition handler_view :: "'a io_store_scheme \<Rightarrow> _" where
  "handler_view s = (io_fds s, pipe_peer s, pipe_buf s, msgs s)"

definition msg_ends :: "'a io_store_scheme \<Rightarrow> int set" where
  "msg_ends s = {fd. \<exists>i e. io_fds s i = Some e \<and> (fd = fst (snd e) \<or> fd = pipe_peer s (snd (snd e)))}"

definition pipe_view :: "'a io_store_scheme \<Rightarrow> _" where
  "pipe_view s = (io_fds s, pipe_peer s, \<lambda>fd. if fd \<in> msg_ends s then [] else pipe_buf s fd)"

lemma handler_pipe_view:
  assumes "handler_view s' = handler_view s"
  shows "pipe_view s' = pipe_view s"
proof -
  have *: "io_fds s' = io_fds s" "pipe_peer s' = pipe_peer s" "pipe_buf s' = pipe_buf s" using assms by (simp_all add: handler_view_def)
  then have "msg_ends s' = msg_ends s" by (simp add: msg_ends_def)
  with * show ?thesis by (simp add: pipe_view_def cong: if_cong)
qed

lemma io_fds_frame [simp]:
  "io_fds (s\<lparr>fd_open := x1\<rparr>) = io_fds s" "io_fds (s\<lparr>errno := x2\<rparr>) = io_fds s" "io_fds (s\<lparr>rx := x3\<rparr>) = io_fds s"
  "io_fds (s\<lparr>tx := x4\<rparr>) = io_fds s" "io_fds (s\<lparr>sent := x5\<rparr>) = io_fds s" "io_fds (s\<lparr>pipe_buf := x6\<rparr>) = io_fds s"
  "io_fds (s\<lparr>ep_interest := x7\<rparr>) = io_fds s" "io_fds (s\<lparr>kq_filters := x8\<rparr>) = io_fds s" "io_fds (s\<lparr>mem := x9\<rparr>) = io_fds s"
  "io_fds (s\<lparr>next_addr := y1\<rparr>) = io_fds s" "io_fds (s\<lparr>closes := y2\<rparr>) = io_fds s" "io_fds (s\<lparr>conns := y3\<rparr>) = io_fds s"
  "io_fds (s\<lparr>tasks := y4\<rparr>) = io_fds s" "io_fds (s\<lparr>queues := y5\<rparr>) = io_fds s" "io_fds (s\<lparr>pools := y6\<rparr>) = io_fds s"
  "io_fds (s\<lparr>msgs := y7\<rparr>) = io_fds s"
  by (simp_all add: io_fds_def fun_eq_iff)

lemma msg_endsI:
  assumes "ios s i = Some I"
  shows "fst (io_msg_pipe_fd I) \<in> msg_ends s" "pipe_peer s (snd (io_msg_pipe_fd I)) \<in> msg_ends s"
  unfolding msg_ends_def using assms
  by (auto simp: io_fds_def simp del: split_paired_Ex intro!: exI [of _ i] exI [of _ "(io_pipe_fd I, io_msg_pipe_fd I)"])

lemma msg_ends_frame [simp]: "msg_ends (s\<lparr>msgs := M\<rparr>) = msg_ends s" "msg_ends (s\<lparr>pipe_buf := B\<rparr>) = msg_ends s" "msg_ends (s\<lparr>errno := e\<rparr>) = msg_ends s"
  by (simp_all add: msg_ends_def)

subsection \<open>System calls and heap cells\<close>

lemma keeps_malloc [keeps]: "keepsM handler_view mallocM"
  by (auto simp: keepsM_def mallocM_def handler_view_def split: list.splits if_splits)

lemma keeps_close [keeps]: "keepsM handler_view (sys_close fd)"
  by (auto simp: keepsM_def sys_close_def after_close_def handler_view_def)

lemma keeps_read [keeps]: "keepsM handler_view (sys_read fd n)"
  by (auto simp: keepsM_def sys_read_def handler_view_def Let_def split: list.splits if_splits rx_item.splits)

lemma keeps_write [keeps]: "keepsM handler_view (sys_write fd bs)"
  by (auto simp: keepsM_def sys_write_def handler_view_def Let_def split: list.splits if_splits tx_item.splits)

lemma interest_frame_view: "interest_frame s s' \<Longrightarrow> handler_view s' = handler_view s"
  using interest_frameD(5,6) [of s s'] interest_frame_io(2,3) [of s s'] by (simp add: handler_view_def io_fds_def fun_eq_iff)

lemma loop_op_interest:
  fixes f :: "ptr \<Rightarrow> ('a io_store_scheme, int) cmd"
  assumes "f None = returnM (- 1)" and "\<And>a s. loops s a = None \<Longrightarrow> f (Some a) s = Inl Dangling"
    and "\<And>a s L. loops s a = Some L \<Longrightarrow> \<exists>r s'. f (Some a) s = Inr (r, s') \<and> interest_frame s s'" and "f l s = Inr (x, s')"
  shows "interest_frame s s'"
proof (cases l)
  case None
  then show ?thesis using assms(1,4) by (simp add: returnM_def)
next
  case (Some a)
  then show ?thesis using assms(4) assms(2) [of s a] assms(3) [of s a] by (cases "loops s a") auto
qed

lemma loop_op_frame:
  fixes s s' :: "'a io_store_scheme"
  shows "event_loop_add l fd ev d s = Inr (x, s') \<Longrightarrow> interest_frame s s'"
    and "event_loop_mod l fd ev d s = Inr (x, s') \<Longrightarrow> interest_frame s s'"
    and "event_loop_del l fd s = Inr (x, s') \<Longrightarrow> interest_frame s s'"
proof -
  show "event_loop_add l fd ev d s = Inr (x, s') \<Longrightarrow> interest_frame s s'"
    by (rule loop_op_interest [of "\<lambda>l. event_loop_add l fd ev d"])
       (simp_all add: event_loop_ops_frame, simp_all add: event_loop_add_def bindM_def loop_load_def derefM_def)
  show "event_loop_mod l fd ev d s = Inr (x, s') \<Longrightarrow> interest_frame s s'"
    by (rule loop_op_interest [of "\<lambda>l. event_loop_mod l fd ev d"])
       (simp_all add: event_loop_ops_frame, simp_all add: event_loop_mod_def bindM_def loop_load_def derefM_def)
  show "event_loop_del l fd s = Inr (x, s') \<Longrightarrow> interest_frame s s'"
    by (rule loop_op_interest [of "\<lambda>l. event_loop_del l fd"])
       (simp_all add: event_loop_ops_frame, simp_all add: event_loop_del_def bindM_def loop_load_def derefM_def)
qed

lemma keeps_interest:
  "(\<And>s x s'. f s = Inr (x, s') \<Longrightarrow> interest_frame s s') \<Longrightarrow> (\<And>s s'. interest_frame s s' \<Longrightarrow> v s' = v s) \<Longrightarrow> keepsM v f"
  unfolding keepsM_def by blast

lemma keeps_loop_ops [keeps]:
  "keepsM handler_view (event_loop_add l fd ev d)" "keepsM handler_view (event_loop_mod l fd ev d)" "keepsM handler_view (event_loop_del l fd)"
  by (rule keeps_interest, erule loop_op_frame, erule interest_frame_view)+

lemma keeps_conn_cell [keeps]: "keepsM handler_view (conn_load a)" "keepsM handler_view (conn_update a f)"
  unfolding conn_load_def conn_update_def by (intro keeps keeps_modify; simp add: handler_view_def)+

lemma keeps_task_cell [keeps]: "keepsM handler_view (task_load t)" "keepsM handler_view (task_update t f)"
  "keepsM handler_view (queue_load q)" "keepsM handler_view (queue_update q g)"
  unfolding task_load_def task_update_def queue_load_def queue_update_def by (intro keeps keeps_modify; simp add: handler_view_def)+

lemma keeps_pool_cell [keeps]: "keepsM handler_view (pool_load w)" "keepsM handler_view (pool_update w f)"
  unfolding pool_load_def pool_update_def by (intro keeps keeps_modify; simp add: handler_view_def)+

lemma keeps_io_load [keeps]: "keepsM v (io_load i)" "keepsM v (msg_load m)"
  unfolding io_load_def msg_load_def by (intro keeps)+

lemma keeps_io_update [keeps]:
  assumes "\<And>I. io_pipe_fd (f I) = io_pipe_fd I" and "\<And>I. io_msg_pipe_fd (f I) = io_msg_pipe_fd I"
  shows "keepsM handler_view (io_update i f)"
  unfolding keepsM_def io_update_def
  using assms by (auto simp: bindM_def io_load_def derefM_def modifyM_def handler_view_def io_fds_def fun_eq_iff split: option.splits)

subsection \<open>Connections, tasks and counters\<close>

lemma keeps_conn_lock [keeps]: "keepsM handler_view (conn_lock a)" "keepsM handler_view (conn_unlock a)"
  unfolding conn_lock_def conn_unlock_def by (intro keeps)+

lemma keeps_conn_close_fd [keeps]: "keepsM handler_view (conn_close_fd a)"
  unfolding conn_close_fd_def by (intro keeps)

lemma keeps_conn_free [keeps]: "keepsM handler_view (modifyM (\<lambda>s. s\<lparr>conns := (conns s)(a := v)\<rparr>))"
  "keepsM handler_view (modifyM (\<lambda>s. s\<lparr>tasks := (tasks s)(t := x)\<rparr>))"
  by (intro keeps_modify; simp add: handler_view_def)+

lemma keeps_conn [keeps]: "keepsM handler_view (conn_acquire p)" "keepsM handler_view (conn_release p)"
  "keepsM handler_view (conn_is_valid p)" "keepsM handler_view (conn_mark_closing p)"
  unfolding conn_acquire_def conn_release_def conn_is_valid_def conn_mark_closing_def by (intro keeps)+

lemma keeps_queue_lock [keeps]: "keepsM handler_view (queue_lock q)" "keepsM handler_view (queue_unlock q)"
  unfolding queue_lock_def queue_unlock_def by (intro keeps)+

lemma keeps_task [keeps]: "keepsM handler_view (task_create ty p d n)" "keepsM handler_view (task_destroy p)"
  unfolding task_create_def task_destroy_def by (intro keeps)+

lemma keeps_queue [keeps]: "keepsM handler_view (task_queue_push p t)" "keepsM handler_view (task_queue_pop p)"
  unfolding task_queue_push_def task_queue_pop_def by (intro keeps)+

lemma keeps_pool [keeps]: "keepsM handler_view (thread_pool_submit p t)" "keepsM handler_view (pool_stats w)"
  unfolding thread_pool_submit_def pool_stats_def by (intro keeps)+

lemma keeps_io_stats [keeps]:
  assumes "\<And>I. io_pipe_fd (f I) = io_pipe_fd I" and "\<And>I. io_msg_pipe_fd (f I) = io_msg_pipe_fd I"
  shows "keepsM handler_view (io_stats i f)"
  unfolding io_stats_def by (intro keeps; simp add: assms)

subsection \<open>The handlers of a connection\<close>

lemma keeps_close_conn [keeps]: "keepsM handler_view (close_conn i a)"
  unfolding close_conn_def by (intro keeps)

lemma keeps_dispatch [keeps]: "keepsM handler_view (dispatch_read i a d n)"
  unfolding dispatch_read_def by (intro keeps; simp)

lemma keeps_handle_read [keeps]: "keepsM handler_view (handle_read fuel i a)"
proof (induction fuel)
  case 0
  show ?case by (subst handle_read.simps; simp only: nat.case; intro keeps)
next
  case (Suc fuel)
  show ?case by (subst handle_read.simps; simp only: nat.case; intro keeps Suc)
qed

lemma keeps_wrote [keeps]: "keepsM handler_view (wrote i a n)" "keepsM handler_view (back_to_read i a)"
  unfolding wrote_def back_to_read_def by (intro keeps; simp)+

lemma keeps_write_loop [keeps]: "keepsM handler_view (write_loop fuel i a)"
proof (induction fuel)
  case 0
  show ?case by (subst write_loop.simps; simp only: nat.case; intro keeps)
next
  case (Suc fuel)
  show ?case by (subst write_loop.simps; simp only: nat.case; intro keeps Suc)
qed

lemma keeps_handle_write [keeps]: "keepsM handler_view (handle_write fuel i a)" "keepsM handler_view (handle_hangup i a fd)"
  unfolding handle_write_def handle_hangup_def by (intro keeps)+

lemma keeps_conn_event: "keepsM handler_view (handle_conn_event fuel i d ev)"
  unfolding handle_conn_event_def by (cases d; simp only: udata.case; intro keeps)

lemma keeps_register: "keepsM handler_view (register_conn i a)"
  unfolding register_conn_def by (intro keeps; simp)

subsection \<open>Messages and workers\<close>

lemma keeps_pipe: "keepsM handler_view f \<Longrightarrow> keepsM pipe_view f"
  by (erule keeps_mono) (rule handler_pipe_view)

lemmas keeps_pipe_ops = keeps_malloc [THEN keeps_pipe] keeps_conn [THEN keeps_pipe] keeps_conn_cell [THEN keeps_pipe] keeps_loop_ops [THEN keeps_pipe]
  keeps_task_cell(1) [THEN keeps_pipe] keeps_task(2) [THEN keeps_pipe] keeps_queue(2) [THEN keeps_pipe] keeps_pool_cell(1) [THEN keeps_pipe]
  keeps_pool(2) [THEN keeps_pipe]

lemma keeps_pipe_io_update:
  assumes "\<And>I. io_pipe_fd (f I) = io_pipe_fd I" and "\<And>I. io_msg_pipe_fd (f I) = io_msg_pipe_fd I"
  shows "keepsM pipe_view (io_update i f)"
  by (rule keeps_pipe, rule keeps_io_update) (simp_all add: assms)

lemma keeps_msg_store: "keepsM pipe_view (modifyM (\<lambda>s. s\<lparr>msgs := (msgs s)(m := x)\<rparr>))"
  by (rule keeps_modify) (simp add: pipe_view_def cong: if_cong)

lemma keeps_msg_update: "keepsM pipe_view (msg_update m f)"
  unfolding msg_update_def by (intro keeps keeps_msg_store [of m "Some y" for y])

lemma keeps_msgq_lock: "keepsM pipe_view (msgq_lock i)" "keepsM pipe_view (msgq_unlock i)"
  unfolding msgq_lock_def msgq_unlock_def by (intro keeps keeps_pipe_io_update; simp)+

lemma keeps_msg_queue: "keepsM pipe_view (msg_enqueue i m)" "keepsM pipe_view (msg_dequeue i)"
  unfolding msg_enqueue_def msg_dequeue_def by (intro keeps keeps_pipe_io_update keeps_msg_update; simp)+

text \<open>The pipe of the messages itself is outside the view.\<close>

lemma keeps_msg_write: "keepsM pipe_view (bindM (io_load i) (\<lambda>I. bindM (sys_pipe_write (snd (io_msg_pipe_fd I)) cs) (\<lambda>_. returnM ())))"
  by (auto simp: keepsM_def bindM_def io_load_def derefM_def sys_pipe_write_def Let_def returnM_def pipe_view_def fun_eq_iff
      dest: msg_endsI(2) split: option.splits if_splits)

lemma keeps_msg_read:
  assumes "keepsM pipe_view g"
  shows "keepsM pipe_view (bindM (io_load i) (\<lambda>I. bindM (sys_pipe_read (fst (io_msg_pipe_fd I)) n) (\<lambda>_. g)))"
proof -
  have view: "pipe_view t = pipe_view s" if "ios s i = Some I" "sys_pipe_read (fst (io_msg_pipe_fd I)) n s = Inr (x, t)" for s t :: "'a io_store_scheme" and I x
    using that msg_endsI(1) [OF that(1)] by (auto simp: sys_pipe_read_def pipe_view_def fun_eq_iff split: list.splits if_splits)
  show ?thesis
    unfolding keepsM_def
  proof (intro allI impI)
    fix s t :: "'a io_store_scheme" and x
    assume run: "bindM (io_load i) (\<lambda>I. bindM (sys_pipe_read (fst (io_msg_pipe_fd I)) n) (\<lambda>_. g)) s = Inr (x, t)"
    then obtain I y u where "ios s i = Some I" "sys_pipe_read (fst (io_msg_pipe_fd I)) n s = Inr (y, u)" "g u = Inr (x, t)"
      by (auto simp: bindM_def io_load_def derefM_def split: option.splits sum.splits)
    then show "pipe_view t = pipe_view s" using view keepsD [OF assms] by metis
  qed
qed

lemma keeps_send_message: "keepsM pipe_view (io_thread_send_message p ty c)"
proof (cases p; cases c)
  fix i a
  assume "p = Some i" "c = Some a"
  then show ?thesis
    unfolding io_thread_send_message_def
    by (simp only: prod.case option.case)
       (rule keeps_bind [OF keeps_malloc [THEN keeps_pipe]],
        intro keeps_case(1) keeps_basic(1) keeps_then keeps_msg_write keeps_msg_store keeps_msgq_lock keeps_msg_queue keeps_pipe_ops)
qed (simp_all add: io_thread_send_message_def keeps)

lemma keeps_handle_message: "keepsM pipe_view (handle_message i m)"
  unfolding handle_message_def by (intro keeps keeps_pipe_ops keeps_msg_store [of m None])

lemma keeps_drain: "keepsM pipe_view (drain_loop fuel i)"
proof (induction fuel)
  case 0
  show ?case by (subst drain_loop.simps; simp only: nat.case; intro keeps keeps_msg_queue keeps_msgq_lock keeps_handle_message)
next
  case (Suc fuel)
  show ?case by (subst drain_loop.simps; simp only: nat.case; intro keeps keeps_msg_queue keeps_msgq_lock keeps_handle_message Suc)
qed

lemma keeps_msg_event: "keepsM pipe_view (handle_msg_event fuel i)"
  unfolding handle_msg_event_def by (intro keeps_msg_read keeps_then keeps_msgq_lock keeps_drain)

lemma keeps_process: "keepsM pipe_view (process_request p d n)"
  unfolding process_request_def by (intro keeps keeps_send_message keeps_pipe_ops)

lemma keeps_run_task: "keepsM pipe_view (run_task t)"
proof -
  have "keepsM pipe_view (case t_type x of
       TASK_TYPE_PROCESS \<Rightarrow>
         bindM (conn_is_valid (t_conn x)) (\<lambda>valid.
           whenM valid (process_request (t_conn x) (t_data x) (t_data_len x)))
     | TASK_TYPE_CLOSE \<Rightarrow>
         whenM (t_conn x \<noteq> None) (thenM (conn_mark_closing (t_conn x)) (conn_release (t_conn x)))
     | _ \<Rightarrow> returnM ())" for x
    by (cases "t_type x"; simp only: task_type_t.case; intro keeps keeps_process keeps_pipe_ops)
  then show ?thesis unfolding run_task_def by (intro keeps_bind keeps_pipe_ops)
qed

lemma keeps_worker: "keepsM pipe_view (worker_step w)"
  unfolding worker_step_def by (intro keeps keeps_run_task keeps_pipe_ops)

end
