(* ===== verification/Reactor.thy ===== *)
theory Reactor
  imports Pipe_Frames
begin

text \<open>
  The running server of \<open>advanced-reactor-server\<close> as a whole: the acceptor, the I/O threads and the workers take turns, in any order, on the
  shared heap. An action is one run of the code between two waits: a new client is handed to an I/O thread, an I/O thread
  handles one event that its loop reports, or a worker makes one iteration. The invariant of the server, extended by the contents of the pipes
  between the acceptor and the I/O threads, holds in every state the actions can reach, and the only fault an action can meet is
  the use after free that \<open>conn_event_use_after_free\<close> states.
\<close>

section \<open>Systems of actions\<close>

inductive reaches :: "('s \<Rightarrow> 'x \<Rightarrow> bool) \<Rightarrow> ('x \<Rightarrow> ('s, unit) cmd) \<Rightarrow> 's \<Rightarrow> 's \<Rightarrow> bool"
  for enabled :: "'s \<Rightarrow> 'x \<Rightarrow> bool" and act :: "'x \<Rightarrow> ('s, unit) cmd" and s0 :: 's where
  start: "reaches enabled act s0 s0"
| step: "reaches enabled act s0 s \<Longrightarrow> enabled s x \<Longrightarrow> act x s = Inr ((), s') \<Longrightarrow> reaches enabled act s0 s'"

locale action_system =
  fixes enabled :: "'s \<Rightarrow> 'x \<Rightarrow> bool" and act :: "'x \<Rightarrow> ('s, unit) cmd" and inv :: "'s \<Rightarrow> bool" and waits :: "'s \<Rightarrow> 'x \<Rightarrow> bool"
    and known :: "'s \<Rightarrow> 'x \<Rightarrow> bool"
  assumes progress: "inv s \<Longrightarrow> enabled s x \<Longrightarrow>
      (\<exists>s'. act x s = Inr ((), s') \<and> inv s') \<or> act x s = Inl Would_Block \<and> waits s x \<or> act x s = Inl Dangling \<and> known s x"
begin

lemma reaches_inv: "reaches enabled act s0 s \<Longrightarrow> inv s0 \<Longrightarrow> inv s"
proof (induction rule: reaches.induct)
  case (step s x s')
  then show ?case using progress [of s x] by auto
qed simp

lemma reaches_progress:
  assumes "reaches enabled act s0 s" and "inv s0" and "enabled s x"
  shows "(\<exists>s'. act x s = Inr ((), s') \<and> inv s') \<or> act x s = Inl Would_Block \<and> waits s x \<or> act x s = Inl Dangling \<and> known s x"
  using progress [OF reaches_inv [OF assms(1,2)] assms(3)] .

end

section \<open>The actions of the server\<close>

text \<open>
  \<open>Environment\<close> is not an action of the server: the clients send and accept other data, and the allocator behaves differently, than the scripts said so far.
\<close>

datatype action =
    Hand_Over addr int "sockaddr_in option" bool
  | Io_Event addr event
  | Work
  | Environment "int \<Rightarrow> rx_item list" "int \<Rightarrow> tx_item list" "bool list"

text \<open>Fuel for the loops of one event: the queued messages are fewer than the addresses handed out, a read takes a script item or more.\<close>

definition event_fuel :: "'a io_store_scheme \<Rightarrow> event \<Rightarrow> nat" where
  "event_fuel s ev = (case ev_data ev of
     U_Conn a \<Rightarrow> (case conns s a of None \<Rightarrow> 0 | Some c \<Rightarrow> max BUFFER_SIZE (rx_size (rx s (c_fd c))))
   | _ \<Rightarrow> next_addr s)"

fun reactor_act :: "addr \<Rightarrow> action \<Rightarrow> ('a io_store_scheme, unit) cmd" where
  "reactor_act w (Hand_Over i fd addr ok) s = bindM (io_thread_add_connection ok (Some i) fd addr) (\<lambda>_. returnM ()) s"
| "reactor_act w (Io_Event i ev) s = handle_event (event_fuel s ev) i ev s"
| "reactor_act w Work s = bindM (worker_step w) (\<lambda>_. returnM ()) s"
| "reactor_act w (Environment r t m) s = Inr ((), s\<lparr>rx := r, tx := t, mem := m\<rparr>)"

text \<open>
  A connection is registered when it has a holder that is neither a task nor a message nor a pipe: its count exceeds the
  references of the tasks and messages, and its address is not on the way through a pipe. Threads get events of registered
  connections and of their own pipes only.
\<close>

definition on_the_way :: "'a io_store_scheme \<Rightarrow> addr \<Rightarrow> bool" where
  "on_the_way s a \<longleftrightarrow> (\<exists>i e. io_fds s i = Some e \<and> PPtr a 0 \<in> set (pipe_buf s (fst (fst e))))"

definition registered :: "'a io_store_scheme \<Rightarrow> addr \<Rightarrow> bool" where
  "registered s a \<longleftrightarrow> \<not> on_the_way s a \<and>
     (case conns s a of None \<Rightarrow> False | Some c \<Rightarrow> int (task_refs (tasks s) a + msg_refs (msgs s) a) < c_ref_count c)"

fun reactor_enabled :: "'a io_store_scheme \<Rightarrow> action \<Rightarrow> bool" where
  "reactor_enabled s (Hand_Over i fd addr ok) \<longleftrightarrow> ios s i \<noteq> None"
| "reactor_enabled s (Io_Event i ev) \<longleftrightarrow> ios s i \<noteq> None \<and> (case ev_data ev of
     U_Pipe j \<Rightarrow> j = i | U_MsgPipe j \<Rightarrow> j = i | U_Conn a \<Rightarrow> registered s a | U_Null \<Rightarrow> True | U_Fd _ \<Rightarrow> False)"
| "reactor_enabled s Work \<longleftrightarrow> True"
| "reactor_enabled s (Environment r t m) \<longleftrightarrow> True"

section \<open>The invariant\<close>

text \<open>
  \<open>pq i\<close> are the connections whose pointers are in the pipe of thread \<open>i\<close>: the pipe holds whole pointers, each to a connection that is
  alive because the pipe accounts for one of its references, and no connection is in two places.
\<close>

definition pipes_ok :: "(addr \<Rightarrow> nat) \<Rightarrow> (addr \<Rightarrow> addr list) \<Rightarrow> 'a io_store_scheme \<Rightarrow> bool" where
  "pipes_ok ext pq s \<longleftrightarrow>
     (\<forall>i e. io_fds s i = Some e \<longrightarrow> pipe_peer s (snd (fst e)) = fst (fst e) \<and> fst (fst e) \<notin> msg_ends s \<and>
        pipe_buf s (fst (fst e)) = concat (map ptr_cells (pq i)) \<and> distinct (pq i) \<and> (\<forall>a\<in>set (pq i). ext a \<noteq> 0)) \<and>
     (\<forall>i j e f. io_fds s i = Some e \<longrightarrow> io_fds s j = Some f \<longrightarrow> i \<noteq> j \<longrightarrow> fst (fst e) \<noteq> fst (fst f) \<and> set (pq i) \<inter> set (pq j) = {})"

definition reactor_inv :: "addr \<Rightarrow> addr \<Rightarrow> 'a io_store_scheme \<Rightarrow> bool" where
  "reactor_inv w q s \<longleftrightarrow> (\<exists>ext mq pq. sys_inv w q ext mq s \<and> pipes_ok ext pq s)"

lemma pipes_okD:
  assumes "pipes_ok ext pq s" and "io_fds s i = Some e"
  shows "pipe_peer s (snd (fst e)) = fst (fst e)" "fst (fst e) \<notin> msg_ends s" "pipe_buf s (fst (fst e)) = concat (map ptr_cells (pq i))"
    "distinct (pq i)" "a \<in> set (pq i) \<Longrightarrow> ext a \<noteq> 0"
  using assms unfolding pipes_ok_def by blast+

lemma pipes_ok_disjoint:
  assumes "pipes_ok ext pq s" and "io_fds s i = Some e" and "io_fds s j = Some f" and "i \<noteq> j"
  shows "fst (fst e) \<noteq> fst (fst f)" "set (pq i) \<inter> set (pq j) = {}"
  using assms unfolding pipes_ok_def by blast+

text \<open>The pipes depend on the view only, and tolerate changes of the accounting elsewhere.\<close>

lemma pipes_ok_view:
  assumes "pipes_ok ext pq s" and "pipe_view s' = pipe_view s"
    and "\<And>i e a. io_fds s i = Some e \<Longrightarrow> a \<in> set (pq i) \<Longrightarrow> ext' a = ext a"
  shows "pipes_ok ext' pq s'"
proof -
  have v: "io_fds s' = io_fds s" "pipe_peer s' = pipe_peer s" using assms(2) by (simp_all add: pipe_view_def)
  then have ends: "msg_ends s' = msg_ends s" by (simp add: msg_ends_def)
  have buf: "pipe_buf s' fd = pipe_buf s fd" if "fd \<notin> msg_ends s" for fd
    using assms(2) that unfolding pipe_view_def ends by (auto simp: fun_eq_iff dest!: spec [of _ fd])
  have ext: "ext' a \<noteq> 0" if "io_fds s i = Some e" "a \<in> set (pq i)" for i e a
    using pipes_okD(5) [OF assms(1) that] assms(3) [OF that] by simp
  show ?thesis
    unfolding pipes_ok_def v ends
    using pipes_okD(1-4) [OF assms(1)] pipes_ok_disjoint [OF assms(1)] buf ext by (intro conjI allI impI ballI) simp_all
qed

lemma ptr_cells_head: "PPtr a 0 \<in> set (ptr_cells b) \<longleftrightarrow> a = b"
  by (auto simp: ptr_cells_def POINTER_SIZE_def)

lemma on_the_way_iff:
  assumes "pipes_ok ext pq s"
  shows "on_the_way s a \<longleftrightarrow> (\<exists>i. io_fds s i \<noteq> None \<and> a \<in> set (pq i))"
  unfolding on_the_way_def using pipes_okD(3) [OF assms] by (fastforce simp: ptr_cells_head simp del: split_paired_Ex)

section \<open>Events of a connection\<close>

text \<open>
  One handler of an event, without the assumption of \<open>conn_event_safe\<close> that somebody else holds the connection: it may be gone afterwards.
\<close>

definition handled :: "addr \<Rightarrow> addr \<Rightarrow> (addr \<Rightarrow> nat) \<Rightarrow> (addr \<Rightarrow> addr list) \<Rightarrow> addr \<Rightarrow> addr \<Rightarrow> connection \<Rightarrow> 'a io_store_scheme \<Rightarrow>
    nat \<Rightarrow> 'a io_store_scheme \<Rightarrow> bool" where
  "handled w q ext mq i a c s k s' \<longleftrightarrow>
     sys_inv w q (ext(a := k)) mq s' \<and> ios s' i \<noteq> None \<and> (\<forall>u. task_core s u \<noteq> None \<longrightarrow> task_core s' u = task_core s u) \<and>
     handler_view s' = handler_view s \<and> ext a - 1 \<le> k \<and> (\<forall>c'. conns s' a = Some c' \<longrightarrow> \<not> c_closing c' \<longrightarrow> ext a \<le> k \<and> c_fd c' = c_fd c)"

lemma handled_refl: "sys_inv w q ext mq s \<Longrightarrow> ios s i = Some I \<Longrightarrow> conns s a = Some c \<Longrightarrow> handled w q ext mq i a c s (ext a) s"
  by (simp add: handled_def)

lemma handled_trans:
  assumes "handled w q ext mq i a c s k s1" and "handled w q (ext(a := k)) mq i a c1 s1 k' s'" and "conns s1 a = Some c1" and "\<not> c_closing c1"
  shows "handled w q ext mq i a c s k' s'"
proof -
  have 1: "handler_view s1 = handler_view s" "\<forall>u. task_core s u \<noteq> None \<longrightarrow> task_core s1 u = task_core s u" "ext a \<le> k" "c_fd c1 = c_fd c"
    using assms(1,3,4) unfolding handled_def by blast+
  have 2: "sys_inv w q (ext(a := k, a := k')) mq s'" "ios s' i \<noteq> None" "\<forall>u. task_core s1 u \<noteq> None \<longrightarrow> task_core s' u = task_core s1 u"
    "handler_view s' = handler_view s1" "k - 1 \<le> k'" "\<forall>c'. conns s' a = Some c' \<longrightarrow> \<not> c_closing c' \<longrightarrow> k \<le> k' \<and> c_fd c' = c_fd c1"
    using assms(2) unfolding handled_def fun_upd_same by blast+
  have "\<forall>u. task_core s u \<noteq> None \<longrightarrow> task_core s' u = task_core s u" using 1(2) 2(3) by (metis option.distinct(1))
  moreover have "ext a - 1 \<le> k'" using 1(3) 2(5) by linarith
  moreover have "\<forall>c'. conns s' a = Some c' \<longrightarrow> \<not> c_closing c' \<longrightarrow> ext a \<le> k' \<and> c_fd c' = c_fd c"
    using 1(3,4) 2(6) order_trans by metis
  ultimately show ?thesis using 1(1) 2(1,2,4) unfolding handled_def fun_upd_upd by metis
qed

lemma refs_zero_count:
  assumes "sys_inv w q ext mq s" and "conns s a = Some c"
  shows "c_ref_count c = int (task_refs (tasks s) a + (msg_refs (msgs s) a + ext a))"
proof -
  have "conn_count s a = counts_to (\<lambda>a. task_refs (tasks s) a + (msg_refs (msgs s) a + ext a)) a"
    using task_ownedD(3) [OF io_ownedD(1) [OF sys_invD(1) [OF assms(1)]]] by simp
  then show ?thesis using assms(2) by (simp add: conn_count_def counts_to_def split: if_splits)
qed

text \<open>A connection that a handler has freed was held by its registration alone.\<close>

lemma handled_gone:
  assumes inv: "sys_inv w q ext mq s" and c: "conns s a = Some c" and ext: "ext a \<noteq> 0" and h: "handled w q ext mq i a c s k s'" and gone: "conns s' a = None"
  shows "c_ref_count c = 1"
proof -
  have own: "io_owned (ext(a := k)) s'" and core: "\<forall>u. task_core s u \<noteq> None \<longrightarrow> task_core s' u = task_core s u"
    and msgs: "msgs s' = msgs s" and k: "ext a - 1 \<le> k"
    using h sys_invD(1) unfolding handled_def handler_view_def by blast+
  have "k = 0" using io_owned_ext_live [OF own, of a] gone by auto
  then have "ext a = 1" using k ext by linarith
  moreover have "task_refs (tasks s) a = 0"
  proof -
    have none: "map_option t_conn (tasks s t) \<noteq> Some (Some a)" for t
    proof
      assume "map_option t_conn (tasks s t) = Some (Some a)"
      then obtain ty d n where "task_core s t = Some (ty, Some a, d, n)" by (auto simp: task_core_def)
      then show False using core shared_task_live [OF own] gone by (metis option.distinct(1))
    qed
    have "{t. map_option t_conn (tasks s t) = Some (Some a)} = {}" using none by blast
    then show ?thesis unfolding refs_by_def by (simp only: card.empty)
  qed
  moreover have "msg_refs (msgs s) a = 0"
    using task_owned_live [OF io_ownedD(1) [OF own], of a] gone msgs by simp
  ultimately show ?thesis using refs_zero_count [OF inv c] by simp
qed

text \<open>The check behind a handler: it finds the connection, or the connection was freed by its only holder.\<close>

lemma handled_check:
  assumes inv: "sys_inv w q ext mq s" and c: "conns s a = Some c" and ext: "ext a \<noteq> 0"
    and run: "f s = Inr ((), s')" and h: "handled w q ext mq i a c s k s'"
  shows "thenM f (conn_is_valid (Some a)) s = Inl Dangling \<and> c_ref_count c = 1 \<or>
     (\<exists>c'. thenM f (conn_is_valid (Some a)) s = Inr (\<not> c_closing c', s') \<and> conns s' a = Some c')"
proof (cases "conns s' a")
  case None
  then have "c_ref_count c = 1" by (rule handled_gone [OF inv c ext h])
  then show ?thesis using None run by (simp add: thenM_Inr conn_is_valid_dangling)
next
  case (Some c')
  have "sys_inv w q (ext(a := k)) mq s'" using h unfolding handled_def by blast
  from conn_is_valid_wf [OF this Some] show ?thesis using Some run by (simp add: thenM_Inr)
qed

lemma read_handled:
  assumes "sys_inv w q ext mq s" and "ios s i = Some I" and "conns s a = Some c" and "pool_abs s w q b" and "ext a \<noteq> 0"
    and "rx_size (rx s (c_fd c)) \<le> fuel"
  shows "handle_read fuel i a s = Inl Would_Block \<and> \<not> b_shutdown b \<and> b_max b < int (length (b_items b) + rx_size (rx s (c_fd c))) \<or>
    (\<exists>s' k. handle_read fuel i a s = Inr ((), s') \<and> handled w q ext mq i a c s k s')"
  using handle_read_sys [OF assms]
proof (elim disjE exE conjE)
  fix s' k b'
  assume r: "handle_read fuel i a s = Inr ((), s')" "sys_inv w q (ext(a := k)) mq s'" "ios s' i \<noteq> None" "read_done ext a c b s k b' s'"
  have "handler_view s' = handler_view s" by (rule keepsD [OF keeps_handle_read r(1)])
  then have "handled w q ext mq i a c s k s'" using r(2-4) by (auto simp: handled_def read_done_def)
  with r(1) show ?thesis by blast
qed simp

lemma write_handled:
  assumes "sys_inv w q ext mq s" and "ios s i = Some I" and "conns s a = Some c" and "ext a \<noteq> 0" and "BUFFER_SIZE \<le> fuel"
  shows "\<exists>s' k. handle_write fuel i a s = Inr ((), s') \<and> handled w q ext mq i a c s k s'"
proof -
  have "nat (c_write_size c - c_write_pos c) \<le> fuel"
    using io_owned_wf [OF sys_invD(1) [OF assms(1)] assms(3)] assms(5) by (auto simp: conn_wf_def)
  from handle_write_sys [OF assms(1-4) this] obtain s' where
      r: "handle_write fuel i a s = Inr ((), s')" "tasks s' = tasks s" "ios s' i \<noteq> None"
    and cases: "(\<exists>c'. conns s' a = Some c' \<and> sys_inv w q ext mq s' \<and> c_fd c' = c_fd c) \<or>
      sys_inv w q (ext(a := ext a - 1)) mq s' \<and> (\<forall>c'. conns s' a = Some c' \<longrightarrow> c_closing c')" by blast
  have view: "handler_view s' = handler_view s" by (rule keepsD [OF keeps_handle_write(1) r(1)])
  have core: "\<forall>u. task_core s u \<noteq> None \<longrightarrow> task_core s' u = task_core s u" using r(2) by (simp add: task_core_def)
  have "handled w q ext mq i a c s (ext a) s' \<or> handled w q ext mq i a c s (ext a - 1) s'"
    using cases view core r(3) unfolding handled_def by auto
  with r(1) show ?thesis by blast
qed

lemma hangup_handled:
  assumes inv: "sys_inv w q ext mq s" and i: "ios s i = Some I" and c: "conns s a = Some c" and ext: "ext a \<noteq> 0"
  shows "\<exists>s' k. whenM b (handle_hangup i a (c_fd c)) s = Inr ((), s') \<and> handled w q ext mq i a c s k s'"
proof (cases b)
  case True
  obtain b' where "pool_abs s w q b'" using sys_invD(2) [OF inv] by blast
  from close_conn_sys [OF inv i c this ext] obtain s' where s': "close_conn i a s = Inr ((), s')" "sys_inv w q (ext(a := ext a - 1)) mq s'"
    "tasks s' = tasks s" "ios s' = ios s" "\<forall>c'. conns s' a = Some c' \<longrightarrow> c_closing c'" by blast
  have "handler_view s' = handler_view s" by (rule keepsD [OF keeps_close_conn s'(1)])
  then have "handled w q ext mq i a c s (ext a - 1) s'" using s' i by (auto simp: handled_def task_core_def)
  then show ?thesis using True handle_hangup_close [OF c] s'(1) by (auto simp: whenM_def)
next
  case False
  then show ?thesis using handled_refl [OF inv i c] by (auto simp: whenM_def returnM_def)
qed

lemma handledD:
  assumes "handled w q ext mq i a c s k s'" and "conns s' a = Some c'" and "\<not> c_closing c'" and "ext a \<noteq> 0"
  obtains I' where "sys_inv w q (ext(a := k)) mq s'" "ios s' i = Some I'" "(ext(a := k)) a \<noteq> 0" "c_fd c' = c_fd c"
  using assms by (auto simp: handled_def)

text \<open>A stage of an event is a handler and its check, or nothing. It goes on with the connection, or stops.\<close>

definition stage_ok :: "addr \<Rightarrow> addr \<Rightarrow> (addr \<Rightarrow> nat) \<Rightarrow> (addr \<Rightarrow> addr list) \<Rightarrow> addr \<Rightarrow> addr \<Rightarrow> connection \<Rightarrow> 'a io_store_scheme \<Rightarrow>
    ('a io_store_scheme, bool) cmd \<Rightarrow> bool" where
  "stage_ok w q ext mq i a c s f \<longleftrightarrow> f s = Inl Dangling \<and> c_ref_count c = 1 \<or>
     (\<exists>s' k c'. f s = Inr (\<not> c_closing c', s') \<and> conns s' a = Some c' \<and> handled w q ext mq i a c s k s')"

lemma stage_skip:
  assumes "sys_inv w q ext mq s" and "ios s i = Some I" and "conns s a = Some c" and "\<not> c_closing c"
  shows "stage_ok w q ext mq i a c s (returnM True)"
  using handled_refl [OF assms(1-3)] assms(3,4) unfolding stage_ok_def returnM_def by auto

lemma stage_check:
  assumes "sys_inv w q ext mq s" and "conns s a = Some c" and "ext a \<noteq> 0" and "f s = Inr ((), s')" and "handled w q ext mq i a c s k s'"
  shows "stage_ok w q ext mq i a c s (thenM f (conn_is_valid (Some a)))"
  using handled_check [where f = f, OF assms] assms(5) unfolding stage_ok_def by blast

text \<open>A count of 1 before a later stage is a count of 1 at the start, unless the connection changed hands in between.\<close>

lemma handled_count:
  assumes inv: "sys_inv w q ext mq s" and c: "conns s a = Some c" and ext: "ext a \<noteq> 0"
    and h: "handled w q ext mq i a c s k s'" and c': "conns s' a = Some c'" "\<not> c_closing c'" "c_ref_count c' = 1"
  shows "c_ref_count c = 1"
proof -
  have inv': "sys_inv w q (ext(a := k)) mq s'" and core: "\<forall>u. task_core s u \<noteq> None \<longrightarrow> task_core s' u = task_core s u"
    and msgs: "msgs s' = msgs s" and k: "ext a \<le> k"
    using h c' unfolding handled_def handler_view_def by blast+
  have one: "task_refs (tasks s') a + (msg_refs (msgs s') a + k) = 1" using refs_zero_count [OF inv' c'(1)] c'(3) by simp
  then have z: "task_refs (tasks s') a = 0" "msg_refs (msgs s) a = 0" "ext a = 1" using k ext msgs by auto
  have fin: "finite {t. map_option t_conn (tasks s' t) = Some (Some a)}"
    using task_ownedD(4) [OF io_ownedD(1) [OF sys_invD(1) [OF inv']]] by (rule rev_finite_subset) (auto simp: dom_def)
  have "{t. map_option t_conn (tasks s t) = Some (Some a)} \<subseteq> {t. map_option t_conn (tasks s' t) = Some (Some a)}"
  proof
    fix t assume "t \<in> {t. map_option t_conn (tasks s t) = Some (Some a)}"
    then obtain ty d n where "task_core s t = Some (ty, Some a, d, n)" by (auto simp: task_core_def)
    then have "task_core s' t = Some (ty, Some a, d, n)" using core by simp
    then show "t \<in> {t. map_option t_conn (tasks s' t) = Some (Some a)}" by (auto simp: task_core_def)
  qed
  with fin z(1) have "task_refs (tasks s) a = 0" unfolding refs_by_def by (metis card_0_eq card.empty subset_empty)
  then show ?thesis using refs_zero_count [OF inv c] z by simp
qed

lemma write_stage_ok:
  assumes "sys_inv w q ext mq s" and "ios s i = Some I" and "conns s a = Some c" and "\<not> c_closing c" and "ext a \<noteq> 0" and "BUFFER_SIZE \<le> fuel"
  shows "stage_ok w q ext mq i a c s (if p then thenM (handle_write fuel i a) (conn_is_valid (Some a)) else returnM True)"
  using write_handled [OF assms(1-3,5,6)] stage_check [OF assms(1,3,5), of "handle_write fuel i a"] stage_skip [OF assms(1-4)] by auto

lemma write_hangup_cases:
  assumes inv: "sys_inv w q ext mq s" and i: "ios s i = Some I" and c: "conns s a = Some c" and op: "\<not> c_closing c" and ext: "ext a \<noteq> 0"
    and fuel: "BUFFER_SIZE \<le> fuel" and f: "f = (if p then thenM (handle_write fuel i a) (conn_is_valid (Some a)) else returnM True)"
    and g: "g = whenM h (handle_hangup i a (c_fd c))"
  shows "bindM f (\<lambda>v. if \<not> v then returnM () else g) s = Inl Dangling \<and> c_ref_count c = 1 \<or>
    (\<exists>s' k. bindM f (\<lambda>v. if \<not> v then returnM () else g) s = Inr ((), s') \<and> handled w q ext mq i a c s k s')"
proof -
  have "stage_ok w q ext mq i a c s f" unfolding f by (rule write_stage_ok [OF inv i c op ext fuel])
  then consider (gone) "f s = Inl Dangling" "c_ref_count c = 1"
    | (ok) s1 k1 c1 where "f s = Inr (\<not> c_closing c1, s1)" "conns s1 a = Some c1" "handled w q ext mq i a c s k1 s1"
    unfolding stage_ok_def by blast
  then show ?thesis
  proof cases
    case gone
    then show ?thesis by (simp add: bindM_Inl)
  next
    case ok
    show ?thesis
    proof (cases "c_closing c1")
      case True
      then show ?thesis using ok by (auto simp: bindM_Inr returnM_def)
    next
      case op1: False
      obtain I1 where s1: "sys_inv w q (ext(a := k1)) mq s1" "ios s1 i = Some I1" "(ext(a := k1)) a \<noteq> 0" "c_fd c1 = c_fd c"
        using handledD [OF ok(3,2) op1 ext] .
      obtain s2 k2 where s2: "g s1 = Inr ((), s2)" "handled w q (ext(a := k1)) mq i a c1 s1 k2 s2"
        using hangup_handled [OF s1(1,2) ok(2) s1(3)] unfolding g s1(4) by blast
      have "bindM f (\<lambda>v. if \<not> v then returnM () else g) s = Inr ((), s2)" using ok(1) op1 s2(1) by (simp add: bindM_Inr)
      with handled_trans [OF ok(3) s2(2) ok(2) op1] show ?thesis by blast
    qed
  qed
qed

lemma conn_event_cases:
  assumes inv: "sys_inv w q ext mq s" and i: "ios s i = Some I" and c: "conns s a = Some c" and pool: "pool_abs s w q b" and ext: "ext a \<noteq> 0"
    and fuel: "rx_size (rx s (c_fd c)) \<le> fuel" "BUFFER_SIZE \<le> fuel"
  shows "handle_conn_event fuel i (U_Conn a) ev s = Inl Would_Block \<and>
      \<not> b_shutdown b \<and> b_max b < int (length (b_items b) + rx_size (rx s (c_fd c))) \<or>
    handle_conn_event fuel i (U_Conn a) ev s = Inl Dangling \<and> c_ref_count c = 1 \<or>
    (\<exists>s' k. handle_conn_event fuel i (U_Conn a) ev s = Inr ((), s') \<and> handled w q ext mq i a c s k s')"
proof (cases "c_closing c")
  case True
  then show ?thesis using handle_conn_event_run [OF inv c] handled_refl [OF inv i c] by auto
next
  case op: False
  let ?read = "if ev AND EVENT_READ \<noteq> 0 then thenM (handle_read fuel i a) (conn_is_valid (Some a)) else returnM True"
  define f where "f = (if ev AND EVENT_WRITE \<noteq> 0 then thenM (handle_write fuel i a) (conn_is_valid (Some a)) else (returnM True :: ('a io_store_scheme, bool) cmd))"
  define g :: "('a io_store_scheme, unit) cmd" where "g = whenM (ev AND (EVENT_ERROR OR EVENT_HUP) \<noteq> 0) (handle_hangup i a (c_fd c))"
  have run: "handle_conn_event fuel i (U_Conn a) ev s =
      bindM ?read (\<lambda>v. if \<not> v then returnM () else bindM f (\<lambda>v. if \<not> v then returnM () else g)) s"
    using handle_conn_event_run [OF inv c] op unfolding f_def g_def by simp
  have "?read s = Inl Would_Block \<and> \<not> b_shutdown b \<and> b_max b < int (length (b_items b) + rx_size (rx s (c_fd c))) \<or>
      stage_ok w q ext mq i a c s ?read"
    using read_handled [OF inv i c pool ext fuel(1)] stage_check [OF inv c ext] stage_skip [OF inv i c op] thenM_Inl by auto
  then consider (wait) "?read s = Inl Would_Block" "\<not> b_shutdown b" "b_max b < int (length (b_items b) + rx_size (rx s (c_fd c)))"
    | (gone) "?read s = Inl Dangling" "c_ref_count c = 1"
    | (ok) s1 k1 c1 where "?read s = Inr (\<not> c_closing c1, s1)" "conns s1 a = Some c1" "handled w q ext mq i a c s k1 s1"
    unfolding stage_ok_def by blast
  then show ?thesis
  proof cases
    case ok
    show ?thesis
    proof (cases "c_closing c1")
      case True
      then show ?thesis using run ok by (auto simp: bindM_Inr returnM_def)
    next
      case op1: False
      obtain I1 where s1: "sys_inv w q (ext(a := k1)) mq s1" "ios s1 i = Some I1" "(ext(a := k1)) a \<noteq> 0" "c_fd c1 = c_fd c"
        using handledD [OF ok(3,2) op1 ext] .
      have run1: "handle_conn_event fuel i (U_Conn a) ev s = bindM f (\<lambda>v. if \<not> v then returnM () else g) s1"
        using run ok(1) op1 by (simp add: bindM_Inr)
      show ?thesis
        unfolding run1
        using write_hangup_cases [OF s1(1,2) ok(2) op1 s1(3) fuel(2) f_def, unfolded s1(4), OF g_def]
          handled_count [OF inv c ext ok(3,2) op1] handled_trans [OF ok(3) _ ok(2) op1] by blast
    qed
  qed (use run in \<open>simp_all add: bindM_Inl\<close>)
qed

section \<open>Every action keeps the invariant\<close>

text \<open>
  When an action sleeps: a worker for a task, an I/O thread for room in the queue of the workers. \<open>sole_holder\<close>: the event of a connection that nothing
  but its registration keeps alive.
\<close>

definition reactor_waits :: "addr \<Rightarrow> addr \<Rightarrow> 'a io_store_scheme \<Rightarrow> action \<Rightarrow> bool" where
  "reactor_waits w q s x \<longleftrightarrow> (\<exists>b. pool_abs s w q b \<and> \<not> b_shutdown b \<and> (case x of
     Work \<Rightarrow> b_items b = []
   | Io_Event i ev \<Rightarrow> (\<exists>a c. ev_data ev = U_Conn a \<and> conns s a = Some c \<and> b_max b < int (length (b_items b) + rx_size (rx s (c_fd c))))
   | _ \<Rightarrow> False))"

definition sole_holder :: "'a io_store_scheme \<Rightarrow> action \<Rightarrow> bool" where
  "sole_holder s x \<longleftrightarrow> (\<exists>i ev a c. x = Io_Event i ev \<and> ev_data ev = U_Conn a \<and> conns s a = Some c \<and> c_ref_count c = 1)"

lemma registered_ext:
  assumes "sys_inv w q ext mq s" and "pipes_ok ext pq s" and "registered s a"
  obtains c where "conns s a = Some c" "ext a \<noteq> 0" "\<And>i e. io_fds s i = Some e \<Longrightarrow> a \<notin> set (pq i)"
proof -
  obtain c where c: "conns s a = Some c" "int (task_refs (tasks s) a + msg_refs (msgs s) a) < c_ref_count c" and way: "\<not> on_the_way s a"
    using assms(3) by (auto simp: registered_def split: option.splits)
  have "ext a \<noteq> 0" using refs_zero_count [OF assms(1) c(1)] c(2) by auto
  moreover have "a \<notin> set (pq i)" if "io_fds s i = Some e" for i e using way that on_the_way_iff [OF assms(2), of a] by (metis option.distinct(1))
  ultimately show ?thesis using that c(1) by blast
qed

lemma message_below:
  assumes "sys_inv w q ext mq s" and "msgs s m \<noteq> None"
  shows "m < next_addr s"
proof -
  have "\<forall>a \<ge> next_addr s. msgs s a = None" using sys_invD(1) [OF assms(1)] by (simp add: io_owned_def)
  then show ?thesis using assms(2) by (metis not_le)
qed

lemma message_count:
  assumes "sys_inv w q ext mq s" and "ios s i = Some I"
  shows "length (mq i) \<le> next_addr s"
proof -
  have abs: "msg_abs s i (mq i)" using threads_okD(1) [OF sys_invD(5) [OF assms(1)] assms(2)] .
  then have "distinct (mq i)" by (rule msg_absD) (rule chain_distinct)
  have "set (mq i) \<subseteq> {..<next_addr s}"
  proof
    fix m assume "m \<in> set (mq i)"
    then have "msgs s m \<noteq> None" using msg_abs_msgs [OF abs, of m] by auto
    then show "m \<in> {..<next_addr s}" using message_below [OF assms(1)] by simp
  qed
  then have "card (set (mq i)) \<le> next_addr s" using card_mono [of "{..<next_addr s}"] by simp
  then show ?thesis using distinct_card [OF \<open>distinct (mq i)\<close>] by simp
qed

lemma work_inv:
  assumes inv: "sys_inv w q ext mq s" and pipes: "pipes_ok ext pq s"
  shows "(\<exists>s'. reactor_act w Work s = Inr ((), s') \<and> reactor_inv w q s') \<or> reactor_act w Work s = Inl Would_Block \<and> reactor_waits w q s Work"
proof -
  obtain b where b: "pool_abs s w q b" using sys_invD(2) [OF inv] by blast
  then obtain W where W: "pools s w = Some W" by (auto elim!: pool_absD)
  have same: ?thesis if r: "worker_step w s = Inr (v, s')" "sys_inv w q ext mq' s'" for v s' mq'
  proof -
    have "pipes_ok ext pq s'" by (rule pipes_ok_view [OF pipes keepsD [OF keeps_worker r(1)]]) (rule refl)
    with r show ?thesis by (auto simp: reactor_inv_def bindM_Inr returnM_def)
  qed
  have pq: "p_task_queue W = Some q" "p_shutdown W = b_shutdown b" "queue_abs s q b" using b W by (auto elim!: pool_absD)
  consider "b_shutdown b" | "\<not> b_shutdown b" "b_items b = []" | t ts where "\<not> b_shutdown b" "b_items b = t # ts"
    by (cases "b_items b") auto
  then show ?thesis
  proof cases
    case 1
    then have "worker_step w s = Inr (False, s)" using W pq by (simp add: worker_step_def bindM_def pool_load_Some returnM_def)
    then show ?thesis using inv by (rule same)
  next
    case 2
    then have "task_queue_pop (Some q) s = Inl Would_Block" by (intro pop_waits [OF pq(3)]) (simp add: bq_pop_def)
    then have "worker_step w s = Inl Would_Block" using 2 W pq by (simp add: worker_step_def bindM_def pool_load_Some)
    then show ?thesis using 2 b by (auto simp: bindM_Inl reactor_waits_def)
  next
    case 3
    then show ?thesis using worker_step_task [OF inv b 3 W] same by blast
  qed
qed

lemma message_inv:
  assumes inv: "sys_inv w q ext mq s" and pipes: "pipes_ok ext pq s" and i: "ios s i = Some I"
  shows "\<exists>s'. handle_msg_event (next_addr s) i s = Inr ((), s') \<and> reactor_inv w q s'"
proof -
  obtain s' where s': "handle_msg_event (next_addr s) i s = Inr ((), s')" "sys_inv w q ext (mq(i := [])) s'"
    using msg_event_sys [OF inv i message_count [OF inv i]] by blast
  have "pipes_ok ext pq s'" by (rule pipes_ok_view [OF pipes keepsD [OF keeps_msg_event s'(1)]]) (rule refl)
  with s' show ?thesis unfolding reactor_inv_def by blast
qed

text \<open>One pipe gets new contents.\<close>

lemma pipes_ok_set:
  assumes pipes: "pipes_ok ext pq s" and e: "io_fds s i = Some e"
    and same: "io_fds s' = io_fds s" "pipe_peer s' = pipe_peer s" and buf: "pipe_buf s' = (pipe_buf s)(fst (fst e) := concat (map ptr_cells bs))"
    and bs: "distinct bs" "\<And>a. a \<in> set bs \<Longrightarrow> ext' a \<noteq> 0"
    and others: "\<And>j f a. j \<noteq> i \<Longrightarrow> io_fds s j = Some f \<Longrightarrow> a \<in> set (pq j) \<Longrightarrow> a \<notin> set bs \<and> ext' a = ext a"
  shows "pipes_ok ext' (pq(i := bs)) s'"
proof -
  have ends: "msg_ends s' = msg_ends s" using same by (simp add: msg_ends_def)
  have one: "pipe_peer s (snd (fst f)) = fst (fst f) \<and> fst (fst f) \<notin> msg_ends s \<and> pipe_buf s' (fst (fst f)) = concat (map ptr_cells ((pq(i := bs)) j)) \<and>
      distinct ((pq(i := bs)) j) \<and> (\<forall>a\<in>set ((pq(i := bs)) j). ext' a \<noteq> 0)" if f: "io_fds s j = Some f" for j f
  proof (cases "j = i")
    case True
    then have "f = e" using e f by simp
    then show ?thesis using True pipes_okD(1,2) [OF pipes e] buf bs by simp
  next
    case False
    then have "fst (fst f) \<noteq> fst (fst e)" using pipes_ok_disjoint(1) [OF pipes f e] by blast
    then show ?thesis using False pipes_okD [OF pipes f] buf others [OF False f] by simp
  qed
  have two: "fst (fst f) \<noteq> fst (fst g) \<and> set ((pq(i := bs)) j) \<inter> set ((pq(i := bs)) k) = {}"
    if fg: "io_fds s j = Some f" "io_fds s k = Some g" "j \<noteq> k" for j k f g
  proof -
    have "set ((pq(i := bs)) j) \<inter> set ((pq(i := bs)) k) = {}"
      using pipes_ok_disjoint(2) [OF pipes fg] others [of j f] others [of k g] fg by auto
    then show ?thesis using pipes_ok_disjoint(1) [OF pipes fg] by blast
  qed
  show ?thesis unfolding pipes_ok_def same ends using one two by blast
qed

lemma pipe_inv:
  assumes inv: "sys_inv w q ext mq s" and pipes: "pipes_ok ext pq s" and i: "ios s i = Some I"
  shows "\<exists>s'. handle_pipe_event i s = Inr ((), s') \<and> reactor_inv w q s'"
proof -
  let ?e = "(io_pipe_fd I, io_msg_pipe_fd I)" and ?r = "fst (io_pipe_fd I)"
  have e: "io_fds s i = Some ?e" using i by (simp add: io_fds_def)
  have buf: "pipe_buf s ?r = concat (map ptr_cells (pq i))" using pipes_okD(3) [OF pipes e] by simp
  consider (idle) "?r \<notin> fd_open s \<or> pq i = []" | (ptr) b bs where "?r \<in> fd_open s" "pq i = b # bs" by (cases "pq i") auto
  then show ?thesis
  proof cases
    case idle
    let ?s = "s\<lparr>errno := (if ?r \<in> fd_open s then EAGAIN else EBADF)\<rparr>"
    have "handle_pipe_event i s = Inr ((), ?s)"
      using idle i buf by (auto simp: handle_pipe_event_def bindM_def io_load_Some sys_pipe_read_def returnM_def)
    moreover have "sys_inv w q ext mq ?s" using inv by (rule sys_inv_kernel) simp_all
    moreover have "pipe_view ?s = pipe_view s" by (simp add: pipe_view_def cong: if_cong)
    then have "pipes_ok ext pq ?s" by (rule pipes_ok_view [OF pipes]) (rule refl)
    ultimately show ?thesis unfolding reactor_inv_def by blast
  next
    case ptr
    let ?s = "s\<lparr>pipe_buf := (pipe_buf s)(?r := concat (map ptr_cells bs))\<rparr>"
    have run: "handle_pipe_event i s = register_conn i b ?s" using ptr buf by (intro pipe_event_pointer [OF i]) simp_all
    have d: "distinct (b # bs)" "ext b \<noteq> 0" using pipes_okD(4,5) [OF pipes e] ptr(2) by auto
    have inv1: "sys_inv w q ext mq ?s" using inv by (rule sys_inv_kernel) simp_all
    have pipes1: "pipes_ok ext (pq(i := bs)) ?s"
    proof (rule pipes_ok_set [OF pipes e])
      fix j f a assume "j \<noteq> i" "io_fds s j = Some f" "a \<in> set (pq j)"
      then show "a \<notin> set bs \<and> ext a = ext a" using pipes_ok_disjoint(2) [OF pipes _ e, of j f] ptr(2) by auto
    qed (use d pipes_okD(5) [OF pipes e] ptr(2) in auto)
    have away: "b \<notin> set ((pq(i := bs)) j)" if "io_fds ?s j = Some f" for j f
      using that pipes_ok_disjoint(2) [OF pipes _ e, of j f] ptr(2) d(1) by auto
    obtain c where c: "conns ?s b = Some c" using io_owned_ext_live [OF sys_invD(1) [OF inv1] d(2)] by auto
    have "ios ?s i = Some I" using i by simp
    from register_conn_sys [OF inv1 this c d(2)] obtain s' k where s': "register_conn i b ?s = Inr ((), s')" "sys_inv w q (ext(b := k)) mq s'"
      by (metis fun_upd_triv)
    have "pipe_view s' = pipe_view ?s" by (rule handler_pipe_view [OF keepsD [OF keeps_register s'(1)]])
    then have "pipes_ok (ext(b := k)) (pq(i := bs)) s'" by (rule pipes_ok_view [OF pipes1]) (use away in auto)
    with run s' show ?thesis unfolding reactor_inv_def by auto
  qed
qed

text \<open>Handing over a connection that fails leaves the pipes as they are.\<close>

lemma keeps_add_peer: "keepsM (\<lambda>s. (io_fds s, pipe_peer s)) (io_thread_add_connection ok (Some i) fd addr)"
proof -
  have view: "keepsM (\<lambda>s. (io_fds s, pipe_peer s)) f" if "keepsM handler_view f" for f :: "('a io_store_scheme, 'b) cmd"
    using that by (rule keeps_mono) (simp add: handler_view_def)
  have create: "keepsM handler_view (conn_create fd None addr (Some i) ok)" unfolding conn_create_def by (intro keeps)
  have pipe: "keepsM (\<lambda>s. (io_fds s, pipe_peer s)) (sys_pipe_write wfd cs)" for wfd cs
    by (auto simp: keepsM_def sys_pipe_write_def Let_def split: if_splits)
  show ?thesis
    unfolding io_thread_add_connection_def option.case
    by (intro keeps pipe view [OF create] view [OF keeps_conn(2)] keeps_io_load)
qed

lemma hand_over_inv:
  assumes inv: "sys_inv w q ext mq s" and pipes: "pipes_ok ext pq s" and i: "ios s i = Some I"
  shows "\<exists>r s'. io_thread_add_connection ok (Some i) fd addr s = Inr (r, s') \<and> reactor_inv w q s'"
proof (cases "fd < 0")
  case True
  then have "io_thread_add_connection ok (Some i) fd addr s = Inr (- 1, s)" by (simp add: io_thread_add_connection_def returnM_def)
  with inv pipes show ?thesis unfolding reactor_inv_def by blast
next
  case False
  then have fd: "0 \<le> fd" by simp
  let ?e = "(io_pipe_fd I, io_msg_pipe_fd I)" and ?a = "next_addr s"
  have e: "io_fds s i = Some ?e" using i by (simp add: io_fds_def)
  have peer: "pipe_peer s (snd (io_pipe_fd I)) = fst (io_pipe_fd I)" using pipes_okD(1) [OF pipes e] by simp
  show ?thesis
  proof (cases "ok \<and> False \<notin> set (take 1 (mem s)) \<and> snd (io_pipe_fd I) \<in> fd_open s \<and>
      length (pipe_buf s (pipe_peer s (snd (io_pipe_fd I)))) + POINTER_SIZE \<le> PIPE_CAPACITY")
    case True
    let ?s = "s\<lparr>pipe_buf := (pipe_buf s)(fst (io_pipe_fd I) := pipe_buf s (fst (io_pipe_fd I)) @ ptr_cells ?a),
             next_addr := Suc ?a, mem := drop 1 (mem s), conns := (conns s)(?a \<mapsto> fresh_conn fd addr i (now s))\<rparr>"
    have run: "io_thread_add_connection ok (Some i) fd addr s = Inr (0, ?s)" "sys_inv w q (ext(?a := 1)) mq ?s"
      using add_connection_sys(2) [OF inv i fd True] unfolding peer by blast+
    have zero: "ext ?a = 0" by (rule add_connection_sys(1) [OF inv i fd])
    then have new: "?a \<notin> set (pq j)" if "io_fds s j = Some f" for j f using pipes_okD(5) [OF pipes that] by metis
    have "pipes_ok (ext(?a := 1)) (pq(i := pq i @ [?a])) ?s"
    proof (rule pipes_ok_set [OF pipes e])
      fix j f b assume j: "j \<noteq> i" "io_fds s j = Some f" "b \<in> set (pq j)"
      then have "b \<noteq> ?a" using new by blast
      then show "b \<notin> set (pq i @ [?a]) \<and> (ext(?a := 1)) b = ext b" using pipes_ok_disjoint(2) [OF pipes j(2) e j(1)] j(3) by auto
    qed (use new [OF e] pipes_okD(3-5) [OF pipes e] in auto)
    with run show ?thesis unfolding reactor_inv_def by blast
  next
    case False
    from add_connection_sys(3) [OF inv i fd this] obtain s' where s': "io_thread_add_connection ok (Some i) fd addr s = Inr (- 1, s')"
      "sys_inv w q ext mq s'" "pipe_buf s' = pipe_buf s" by blast
    have same: "io_fds s' = io_fds s" "pipe_peer s' = pipe_peer s" using keepsD [OF keeps_add_peer s'(1)] by simp_all
    then have "msg_ends s' = msg_ends s" by (simp add: msg_ends_def)
    then have "pipe_view s' = pipe_view s" using same s'(3) by (simp add: pipe_view_def cong: if_cong)
    then have "pipes_ok ext pq s'" by (rule pipes_ok_view [OF pipes]) (rule refl)
    with s' show ?thesis unfolding reactor_inv_def by blast
  qed
qed

lemma conn_event_inv:
  assumes inv: "sys_inv w q ext mq s" and pipes: "pipes_ok ext pq s" and i: "ios s i = Some I" and reg: "registered s a" and ev: "ev_data ev = U_Conn a"
  shows "(\<exists>s'. reactor_act w (Io_Event i ev) s = Inr ((), s') \<and> reactor_inv w q s') \<or>
     reactor_act w (Io_Event i ev) s = Inl Would_Block \<and> reactor_waits w q s (Io_Event i ev) \<or>
     reactor_act w (Io_Event i ev) s = Inl Dangling \<and> sole_holder s (Io_Event i ev)"
proof -
  obtain c where c: "conns s a = Some c" "ext a \<noteq> 0" and away: "\<And>i e. io_fds s i = Some e \<Longrightarrow> a \<notin> set (pq i)"
    by (rule registered_ext [OF inv pipes reg]) blast
  obtain b where b: "pool_abs s w q b" using sys_invD(2) [OF inv] by blast
  have run: "reactor_act w (Io_Event i ev) s = handle_conn_event (event_fuel s ev) i (U_Conn a) (ev_events ev) s"
    using ev by (simp add: handle_event_def)
  have fuel: "rx_size (rx s (c_fd c)) \<le> event_fuel s ev" "BUFFER_SIZE \<le> event_fuel s ev" using ev c(1) by (simp_all add: event_fuel_def)
  have next_inv: "reactor_inv w q s'" if h: "handled w q ext mq i a c s k s'" for k s'
  proof -
    have "pipe_view s' = pipe_view s" using h unfolding handled_def by (blast intro: handler_pipe_view)
    then have "pipes_ok (ext(a := k)) pq s'" by (rule pipes_ok_view [OF pipes]) (use away in auto)
    with h show ?thesis unfolding handled_def reactor_inv_def by blast
  qed
  show ?thesis
    using conn_event_cases [OF inv i c(1) b c(2) fuel, of "ev_events ev"] next_inv ev c(1) b
    unfolding run reactor_waits_def sole_holder_def by auto
qed

lemma reactor_progress:
  assumes "reactor_inv w q s" and "reactor_enabled s x"
  shows "(\<exists>s'. reactor_act w x s = Inr ((), s') \<and> reactor_inv w q s') \<or>
     reactor_act w x s = Inl Would_Block \<and> reactor_waits w q s x \<or> reactor_act w x s = Inl Dangling \<and> sole_holder s x"
proof -
  obtain ext mq pq where inv: "sys_inv w q ext mq s" and pipes: "pipes_ok ext pq s" using assms(1) unfolding reactor_inv_def by blast
  show ?thesis
  proof (cases x)
    case (Hand_Over i fd addr ok)
    then obtain I where "ios s i = Some I" using assms(2) by auto
    from hand_over_inv [OF inv pipes this, of ok fd addr] show ?thesis unfolding Hand_Over by (auto simp: bindM_Inr returnM_def)
  next
    case (Io_Event i ev)
    then obtain I where i: "ios s i = Some I" using assms(2) by auto
    show ?thesis
    proof (cases "ev_data ev")
      case U_Null
      then show ?thesis using Io_Event assms(1) by (simp add: handle_event_def handle_conn_event_def returnM_def)
    next
      case (U_Conn a)
      then show ?thesis using conn_event_inv [OF inv pipes i _ U_Conn] Io_Event assms(2) by simp
    next
      case (U_Pipe j)
      then show ?thesis using pipe_inv [OF inv pipes i] Io_Event assms(2) by (simp add: handle_event_def)
    next
      case (U_MsgPipe j)
      then show ?thesis using message_inv [OF inv pipes i] Io_Event assms(2) by (simp add: handle_event_def event_fuel_def)
    next
      case (U_Fd fd)
      then show ?thesis using Io_Event assms(2) by simp
    qed
  next
    case Work
    then show ?thesis using work_inv [OF inv pipes] by blast
  next
    case (Environment r t m)
    let ?s = "s\<lparr>rx := r, tx := t, mem := m\<rparr>"
    have "sys_inv w q ext mq ?s" using inv by (rule sys_inv_kernel) simp_all
    moreover have "pipe_view ?s = pipe_view s" by (rule handler_pipe_view) (simp add: handler_view_def)
    then have "pipes_ok ext pq ?s" by (rule pipes_ok_view [OF pipes]) (rule refl)
    ultimately show ?thesis unfolding Environment reactor_inv_def by auto
  qed
qed

section \<open>Safety of the running server\<close>

interpretation reactor: action_system reactor_enabled "reactor_act w" "reactor_inv w q" "reactor_waits w q" sole_holder for w q
  by unfold_locales (rule reactor_progress)

text \<open>The state a server starts in: threads as \<open>io_thread_create\<close> leaves them, an empty queue, no connection yet.\<close>

lemma reactor_inv_start:
  assumes pool: "pool_abs s w q b" and empty: "conns s = Map.empty" "tasks s = Map.empty" "msgs s = Map.empty"
    and fresh: "\<forall>a \<ge> next_addr s. queues s a = None \<and> ios s a = None \<and> pools s a = None"
    and threads: "\<And>i I. ios s i = Some I \<Longrightarrow> msg_abs s i [] \<and> io_live s i \<and> io_worker_pool I = Some w \<and> io_stats_mutex I = Unlocked \<and>
        pipe_peer s (snd (io_pipe_fd I)) = fst (io_pipe_fd I) \<and> pipe_buf s (fst (io_pipe_fd I)) = [] \<and> fst (io_pipe_fd I) \<notin> msg_ends s"
    and apart: "\<And>i j I J. ios s i = Some I \<Longrightarrow> ios s j = Some J \<Longrightarrow> i \<noteq> j \<Longrightarrow> fst (io_pipe_fd I) \<noteq> fst (io_pipe_fd J)"
  shows "reactor_inv w q s"
proof -
  have none: "refs_by f Map.empty a = 0" for f :: "'o \<Rightarrow> ptr" and a by (simp add: refs_by_def)
  have "conn_count s = counts_to (\<lambda>a. task_refs (tasks s) a + (msg_refs (msgs s) a + 0))"
    unfolding empty none by (simp add: conn_count_def empty counts_to_def fun_eq_iff)
  then have "io_owned (\<lambda>_. 0) s"
    using fresh empty by (simp add: io_owned_def task_owned_def conns_wf_def heap_fresh_def)
  moreover have "threads_ok w (\<lambda>_. []) s" using threads by (auto simp: threads_ok_def)
  ultimately have "sys_inv w q (\<lambda>_. 0) (\<lambda>_. []) s" using pool empty by (auto simp: sys_inv_def tasks_ok_def conns_ok_def)
  moreover have "pipes_ok (\<lambda>_. 0) (\<lambda>_. []) s"
    unfolding pipes_ok_def io_fds_def using threads apart by fastforce
  ultimately show ?thesis unfolding reactor_inv_def by blast
qed

text \<open>
  C1. The server as a whole is safe up to one known fault. Start from any state that satisfies the invariant, such as a server without clients, and let the acceptor,
  the I/O threads, the workers and the clients act in any order and any number of times, with any failures of memory, pipes and sockets.
  In every state that can arise, every action that can be due comes to an end, without any fault and with the invariant restored, or it sleeps for a good reason (no task
  to take, or no room for the requests just read); the only exception is an event of a connection whose registration holds the last
  reference, which may end in the use after free that \<open>conn_event_use_after_free\<close> states.
\<close>

theorem reactor_safe:
  assumes "reactor_inv w q s0" and "reaches reactor_enabled (reactor_act w) s0 s" and "reactor_enabled s x"
  shows "(\<exists>s'. reactor_act w x s = Inr ((), s') \<and> reactor_inv w q s') \<or>
     reactor_act w x s = Inl Would_Block \<and> reactor_waits w q s x \<or>
     reactor_act w x s = Inl Dangling \<and> sole_holder s x"
  by (rule reactor.reaches_progress [OF assms(2,1,3)])

lemma demo_idle_reactor: "reactor_inv 60 50 demo_idle_store"
proof -
  have fds: "io_fds demo_idle_store = [80 \<mapsto> ((10, 11), (12, 13))]"
    by (auto simp: io_fds_def fun_eq_iff demo_idle_io_def demo_io_thread_def)
  have "msg_ends demo_idle_store = {12}" unfolding msg_ends_def fds by (auto split: if_splits)
  then have "pipes_ok demo_ext (\<lambda>_. []) demo_idle_store" unfolding pipes_ok_def fds by (auto split: if_splits)
  then show ?thesis using demo_idle_inv unfolding reactor_inv_def by blast
qed

theorem reactor_safe_witness:
  "\<exists>s' :: io_store. reactor_act 60 (Io_Event 80 \<lparr>ev_data = U_Pipe 80, ev_events = EVENT_READ, ev_fd = - 1\<rparr>)
       (demo_idle_store\<lparr>rx := (\<lambda>_. []), tx := (\<lambda>_. []), mem := []\<rparr>) = Inr ((), s') \<and> reactor_inv 60 50 s'"
proof -
  let ?x = "Io_Event 80 \<lparr>ev_data = U_Pipe 80, ev_events = EVENT_READ, ev_fd = - 1\<rparr>" and ?s = "demo_idle_store\<lparr>rx := (\<lambda>_. []), tx := (\<lambda>_. []), mem := []\<rparr>"
  have 1: "reaches reactor_enabled (reactor_act 60) demo_idle_store ?s"
    by (rule reaches.step [OF reaches.start, of _ _ "Environment (\<lambda>_. []) (\<lambda>_. []) []"]) simp_all
  have 2: "reactor_enabled ?s ?x" by simp
  have 3: "\<not> reactor_waits 60 50 ?s ?x" "\<not> sole_holder ?s ?x" by (simp_all add: reactor_waits_def sole_holder_def)
  show ?thesis using reactor_safe [OF demo_idle_reactor 1 2] 3 by blast
qed

end
