(* ===== verification/Echo.thy ===== *)
theory Echo
  imports Reactor
begin

text \<open>
  One request through the whole server: the bytes a client sends are read by an I/O thread, answered by a worker, announced by a message and
  written back by the I/O thread. The handlers of \<open>io_thread.c\<close> and \<open>thread_pool.c\<close> are run one after the other on the shared heap, and what
  arrives at the client is the response of \<open>process_request\<close> to exactly these bytes.
\<close>

section \<open>What the stages have in common\<close>

text \<open>
  The view of one conversation: the sockets, what was sent, the event loops and what they watch, and who owns the connection \<open>a\<close>.
\<close>

definition net_view :: "addr \<Rightarrow> 'a io_store_scheme \<Rightarrow> _" where
  "net_view a s = (fd_open s, tx s, sent s, loops s, ep_interest s, kq_filters s,
     map_option (\<lambda>c. (c_fd c, c_io_thread c, c_closing c)) (conns s a), (\<lambda>i. map_option io_event_loop (ios s i)))"

lemma net_malloc [keeps]: "keepsM (net_view a) mallocM"
  by (auto simp: keepsM_def mallocM_def net_view_def split: list.splits if_splits)

lemma net_conn_cell [keeps]:
  "(\<And>c. c_fd (f c) = c_fd c \<and> c_io_thread (f c) = c_io_thread c \<and> c_closing (f c) = c_closing c) \<Longrightarrow> keepsM (net_view a) (conn_update b f)"
  by (auto simp: keepsM_def conn_update_def conn_load_def bindM_def derefM_def modifyM_def net_view_def split: option.splits)

lemma net_conn_load [keeps]: "keepsM (net_view a) (conn_load b)"
  unfolding conn_load_def by (intro keeps)

lemma net_task_cell [keeps]: "keepsM (net_view a) (task_load t)" "keepsM (net_view a) (task_update t f)"
  "keepsM (net_view a) (queue_load q)" "keepsM (net_view a) (queue_update q g)" "keepsM (net_view a) (pool_load w)" "keepsM (net_view a) (pool_update w h)"
  "keepsM (net_view a) (msg_update m k)"
  unfolding task_load_def task_update_def queue_load_def queue_update_def pool_load_def pool_update_def msg_update_def
  by (intro keeps keeps_modify; simp add: net_view_def)+

lemma net_store [keeps]: "keepsM (net_view a) (modifyM (\<lambda>s. s\<lparr>tasks := (tasks s)(t := x)\<rparr>))" "keepsM (net_view a) (modifyM (\<lambda>s. s\<lparr>msgs := (msgs s)(m := y)\<rparr>))"
  by (intro keeps_modify; simp add: net_view_def)+

lemma net_io_update [keeps]: "(\<And>I. io_event_loop (f I) = io_event_loop I) \<Longrightarrow> keepsM (net_view a) (io_update i f)"
  by (auto simp: keepsM_def io_update_def io_load_def bindM_def derefM_def modifyM_def net_view_def fun_eq_iff split: option.splits)

lemma net_pipe_write [keeps]: "keepsM (net_view a) (sys_pipe_write fd cs)"
  by (auto simp: keepsM_def sys_pipe_write_def Let_def net_view_def split: if_splits)

lemma net_conn [keeps]: "keepsM (net_view a) (conn_lock b)" "keepsM (net_view a) (conn_unlock b)"
  unfolding conn_lock_def conn_unlock_def by (intro keeps; simp)+

lemma net_conn_ops [keeps]: "keepsM (net_view a) (conn_acquire p)" "keepsM (net_view a) (conn_is_valid p)"
  unfolding conn_acquire_def conn_is_valid_def by (intro keeps; simp)+

lemma net_queue [keeps]: "keepsM (net_view a) (queue_lock q)" "keepsM (net_view a) (queue_unlock q)"
  unfolding queue_lock_def queue_unlock_def by (intro keeps)+

lemma net_queue_ops [keeps]: "keepsM (net_view a) (task_create ty p d n)" "keepsM (net_view a) (task_queue_push p t)" "keepsM (net_view a) (task_queue_pop p)"
  "keepsM (net_view a) (pool_stats w)"
  unfolding task_create_def task_queue_push_def task_queue_pop_def pool_stats_def by (intro keeps)+

lemma net_submit [keeps]: "keepsM (net_view a) (thread_pool_submit p t)"
  unfolding thread_pool_submit_def by (intro keeps)

lemma net_io_stats [keeps]: "(\<And>I. io_event_loop (f I) = io_event_loop I) \<Longrightarrow> keepsM (net_view a) (io_stats i f)"
  unfolding io_stats_def by (intro keeps; simp)

lemma net_dispatch: "keepsM (net_view a) (dispatch_read i b d n)"
  unfolding dispatch_read_def by (intro keeps; simp)

lemma net_messages [keeps]: "keepsM (net_view a) (msgq_lock i)" "keepsM (net_view a) (msgq_unlock i)" "keepsM (net_view a) (msg_enqueue i m)"
  unfolding msgq_lock_def msgq_unlock_def msg_enqueue_def by (intro keeps; simp)+

lemma net_send_message [keeps]: "keepsM (net_view a) (io_thread_send_message p ty c)"
  unfolding io_thread_send_message_def by (cases p; cases c; simp only: prod.case option.case; intro keeps)

lemma net_process: "keepsM (net_view a) (process_request p d n)"
  unfolding process_request_def by (intro keeps) (simp_all add: store_response_def)

text \<open>
  Connection \<open>a\<close> on descriptor \<open>fd\<close> is open and registered with loop \<open>l\<close> of thread \<open>i\<close>, which owns it.
\<close>

definition conversation :: "backend \<Rightarrow> addr \<Rightarrow> addr \<Rightarrow> (addr \<Rightarrow> nat) \<Rightarrow> (addr \<Rightarrow> addr list) \<Rightarrow> addr \<Rightarrow> addr \<Rightarrow> addr \<Rightarrow> int \<Rightarrow> 'a io_store_scheme \<Rightarrow> bool" where
  "conversation be w q ext mq i l a fd s \<longleftrightarrow> sys_inv w q ext mq s \<and> ext a \<noteq> 0 \<and>
     map_option io_event_loop (ios s i) = Some (Some l) \<and>
     map_option (\<lambda>c. (c_fd c, c_io_thread c, c_closing c)) (conns s a) = Some (fd, Some i, False) \<and>
     loop_ready be l s fd \<and> loop_registered l s fd"

lemma conversationD:
  assumes "conversation be w q ext mq i l a fd s"
  obtains I c where "sys_inv w q ext mq s" "ext a \<noteq> 0" "ios s i = Some I" "io_event_loop I = Some l"
    "conns s a = Some c" "c_fd c = fd" "c_io_thread c = Some i" "\<not> c_closing c" "loop_ready be l s fd" "loop_registered l s fd" "fd \<in> fd_open s"
  using assms unfolding conversation_def by (auto simp: loop_ready_def)

lemma net_viewD:
  assumes "net_view a s' = net_view a s"
  shows "tx s' = tx s" "sent s' = sent s" "fd_open s' = fd_open s"
  using assms by (simp_all add: net_view_def)

lemma conversation_net:
  assumes "conversation be w q ext mq i l a fd s" and "net_view a s' = net_view a s" and "sys_inv w q ext mq' s'"
  shows "conversation be w q ext mq' i l a fd s'"
proof -
  have v: "loops s' = loops s" "fd_open s' = fd_open s" "ep_interest s' = ep_interest s" "kq_filters s' = kq_filters s"
    "map_option (\<lambda>c. (c_fd c, c_io_thread c, c_closing c)) (conns s' a) = map_option (\<lambda>c. (c_fd c, c_io_thread c, c_closing c)) (conns s a)"
    "map_option io_event_loop (ios s' i) = map_option io_event_loop (ios s i)"
    using assms(2) by (simp_all add: net_view_def fun_eq_iff)
  show ?thesis using assms(1,3) unfolding conversation_def v(5,6) loop_cong [OF v(1-4)] by blast
qed

section \<open>The request is read\<close>

lemma echo_read:
  assumes conv: "conversation be w q ext mq i l a fd s" and pool: "pool_abs s w q b" and b: "\<not> b_shutdown b" "b_items b = []" "0 < b_max b"
    and mem: "mem s = []" and rx: "rx s fd = [Chunk x xs]" and d: "length (x # xs) \<le> BUFFER_SIZE" and fuel: "0 < fuel"
  shows "\<exists>s' b' t. handle_read fuel i a s = Inr ((), s') \<and> conversation be w q ext mq i l a fd s' \<and> pool_abs s' w q b' \<and> \<not> b_shutdown b' \<and>
     b_items b' = [t] \<and> b_max b' = b_max b \<and> task_core s' t = Some (TASK_TYPE_PROCESS, Some a, Some (x # xs), int (length (x # xs))) \<and>
     mem s' = [] \<and> tx s' = tx s \<and> sent s' = sent s"
proof -
  let ?d = "x # xs" and ?s = "s\<lparr>rx := (rx s)(fd := [])\<rparr>"
  obtain I c where c: "sys_inv w q ext mq s" "ext a \<noteq> 0" "ios s i = Some I" "conns s a = Some c" "c_fd c = fd" "fd \<in> fd_open s"
    using conversationD [OF conv] by metis
  obtain f where f: "fuel = Suc f" using fuel by (cases fuel) auto
  have inv1: "sys_inv w q ext mq ?s" using c(1) by (rule sys_inv_kernel) simp_all
  have pool1: "pool_abs ?s w q b" using pool pool_abs_cong [of ?s w s q b] by simp
  have 1: "ios ?s i = Some I" "conns ?s a = Some c" "mem ?s = []" "?d \<noteq> []" using c mem by simp_all
  from dispatch_read_sys [OF inv1 1(1,2) pool1 1(4) d] obtain s1 k b1 c1 I1 where s1: "dispatch_read i a ?d (int (length ?d)) ?s = Inr ((), s1)"
      "sys_inv w q (ext(a := k)) mq s1" "pool_abs s1 w q b1" "rx s1 = rx ?s" "fd_open s1 = fd_open ?s" "conns s1 a = Some c1" "c_fd c1 = c_fd c"
      "b_shutdown b1 = b_shutdown b" "b_max b1 = b_max b" "mem s1 = []" "k = ext a"
    and t: "\<exists>t. b_items b1 = b_items b @ [t] \<and> task_core s1 t = Some (TASK_TYPE_PROCESS, Some a, Some ?d, int (length ?d))"
    using b 1(3) by auto
  have "sys_read fd BUFFER_SIZE s = Inr ((int (length ?d), ?d), ?s)" using c(6) rx d by (simp add: sys_read_def)
  then have "handle_read fuel i a s = handle_read f i a s1"
    using c(4,5) s1(1) f by (subst handle_read.simps) (simp add: bindM_def conn_load_Some thenM_Inr)
  moreover have "sys_read fd BUFFER_SIZE s1 = Inr ((- 1, []), s1\<lparr>errno := EAGAIN\<rparr>)" using s1(4,5) c(6) by (simp add: sys_read_def)
  then have "handle_read f i a s1 = Inr ((), s1\<lparr>errno := EAGAIN\<rparr>)"
    using s1(6,7) c(5) by (subst handle_read.simps) (simp add: bindM_def conn_load_Some getM_def returnM_def)
  ultimately have run: "handle_read fuel i a s = Inr ((), s1\<lparr>errno := EAGAIN\<rparr>)" by simp
  have "net_view a (s1\<lparr>errno := EAGAIN\<rparr>) = net_view a s1" by (simp add: net_view_def)
  also have "\<dots> = net_view a ?s" by (rule keepsD [OF net_dispatch s1(1)])
  also have "\<dots> = net_view a s" by (simp add: net_view_def)
  finally have view: "net_view a (s1\<lparr>errno := EAGAIN\<rparr>) = net_view a s" .
  have "sys_inv w q ext mq s1" using s1(2,11) by simp
  then have inv2: "sys_inv w q ext mq (s1\<lparr>errno := EAGAIN\<rparr>)" by (rule sys_inv_kernel) simp_all
  have conv': "conversation be w q ext mq i l a fd (s1\<lparr>errno := EAGAIN\<rparr>)" by (rule conversation_net [OF conv view inv2])
  have pool': "pool_abs (s1\<lparr>errno := EAGAIN\<rparr>) w q b1" using s1(3) pool_abs_cong [of "s1\<lparr>errno := EAGAIN\<rparr>" w s1 q b1] by simp
  have core: "task_core (s1\<lparr>errno := EAGAIN\<rparr>) = task_core s1" by (simp add: task_core_def fun_eq_iff)
  show ?thesis
    using run conv' pool' s1(8-10) t b net_viewD(1,2) [OF view] unfolding core [symmetric]
    by (intro exI [of _ "s1\<lparr>errno := EAGAIN\<rparr>"] exI [of _ b1]) auto
qed

section \<open>A worker answers it\<close>

lemma pending_stored: "pending (store_response r (int (length r)) c) = r"
  by (simp add: pending_def write_cells_def store_response_def comp_def)

lemma conn_body_output:
  assumes "c'\<lparr>c_ref_count := 0\<rparr> = c\<lparr>c_ref_count := 0\<rparr>"
  shows "pending c' = pending c" "c_write_pos c' = c_write_pos c" "c_write_size c' = c_write_size c" "c_mutex c' = c_mutex c"
proof -
  show eq: "c_write_pos c' = c_write_pos c" "c_write_size c' = c_write_size c" "c_mutex c' = c_mutex c" using assms by (cases c; cases c'; simp)+
  moreover have "c_write_buf c' = c_write_buf c" using assms by (cases c; cases c'; simp)
  ultimately show "pending c' = pending c" by (simp add: pending_def write_cells_def)
qed

lemma task_refs_pos:
  assumes "sys_inv w q ext mq s" and "tasks s t = Some x" and "t_conn x = Some a"
  shows "task_refs (tasks s) a \<noteq> 0"
proof -
  have "finite (dom (tasks s))" using task_ownedD(4) [OF io_ownedD(1) [OF sys_invD(1) [OF assms(1)]]] .
  then show ?thesis
    using refs_by_del [where f = t_conn and T = "tasks s" and t = t and x = x and a = a] assms(2,3) by (metis fun_upd_same nat.distinct(1))
qed

text \<open>Destroying a task about a connection that is also registered only lowers the count.\<close>

lemma destroy_registered:
  assumes inv: "sys_inv w q ext mq s" and ext: "ext a \<noteq> 0" and t: "tasks s t = Some x" "t_conn x = Some a" and c: "conns s a = Some c"
  shows "task_destroy (Some t) s = Inr ((), s\<lparr>conns := (conns s)(a \<mapsto> c\<lparr>c_ref_count := c_ref_count c - 1\<rparr>), tasks := (tasks s)(t := None)\<rparr>)"
proof -
  have "1 < c_ref_count c" using refs_zero_count [OF inv c] task_refs_pos [OF inv t] ext by simp
  moreover have "c_mutex c = Unlocked" using io_owned_wf [OF sys_invD(1) [OF inv] c] by (simp add: conn_wf_def)
  ultimately show ?thesis using t c by (simp add: task_destroy_def bindM_Inr task_load_Some thenM_Inr conn_release_shared modifyM_def)
qed

text \<open>A connection whose response is ready, with the response \<open>r\<close>.\<close>

definition answered :: "string \<Rightarrow> connection \<Rightarrow> bool" where
  "answered r c \<longleftrightarrow> pending c = r \<and> c_write_pos c = 0 \<and> c_write_size c = int (length r)"

lemma answered_body: "c'\<lparr>c_ref_count := 0\<rparr> = c\<lparr>c_ref_count := 0\<rparr> \<Longrightarrow> answered r c' = answered r c"
  using conn_body_output [of c' c] by (simp add: answered_def)

abbreviation ready_message :: "'a io_store_scheme \<Rightarrow> addr \<Rightarrow> addr \<Rightarrow> bool" where
  "ready_message s m a \<equiv> map_option (\<lambda>x. (m_type x, m_conn x)) (msgs s m) = Some (IO_MSG_RESPONSE_READY, Some a)"

lemma echo_run_task:
  assumes conv: "conversation be w q ext mq i l a fd s" and d: "length d \<le> BUFFER_SIZE" and mem: "mem s = []"
    and x: "tasks s t = Some x" "t_type x = TASK_TYPE_PROCESS" "t_conn x = Some a" "t_data x = Some d" "t_data_len x = int (length d)"
  shows "\<exists>s' m c' r. run_task t s = Inr ((), s') \<and> sys_inv w q ext (mq(i := mq i @ [m])) s' \<and> net_view a s' = net_view a s \<and>
     build_response d (int (length d)) = (r, int (length r)) \<and> conns s' a = Some c' \<and> answered r c' \<and> ready_message s' m a \<and>
     tasks s' = tasks s \<and> queues s' = queues s \<and> pools s' = pools s"
proof -
  obtain c where c: "sys_inv w q ext mq s" "conns s a = Some c" "\<not> c_closing c" "c_io_thread c = Some i" using conversationD [OF conv] by metis
  have valid: "conn_is_valid (Some a) s = Inr (True, s)" using conn_is_valid_wf [OF c(1,2)] c(3) by simp
  show ?thesis
  proof (rule process_request_sys [OF c(1-3) d])
    fix j s' mq' r
    let ?c = "store_response r (int (length r)) c"
    assume 1: "c_io_thread c = Some j" "process_request (Some a) (Some d) (int (length d)) s = Inr ((), s')" "sys_inv w q ext mq' s'"
      "build_response d (int (length d)) = (r, int (length r))" "conn_body s' = (conn_body s)(a \<mapsto> ?c\<lparr>c_ref_count := 0\<rparr>)"
      "tasks s' = tasks s" "queues s' = queues s" "pools s' = pools s"
      and "False \<notin> set (take 1 (mem s)) \<Longrightarrow> mq' = mq(j := mq j @ [next_addr s]) \<and> ready_message s' (next_addr s) a"
    then have msg: "mq' = mq(i := mq i @ [next_addr s])" "ready_message s' (next_addr s) a" using mem c(4) by auto
    have run: "run_task t s = Inr ((), s')" using x valid 1(2) by (simp add: run_task_def bindM_Inr task_load_Some)
    obtain c' where c': "conns s' a = Some c'" "c'\<lparr>c_ref_count := 0\<rparr> = ?c\<lparr>c_ref_count := 0\<rparr>"
      using fun_cong [OF 1(5), of a] by (auto simp: conn_body_def)
    have "answered r ?c" using pending_stored [of r c] by (simp add: answered_def store_response_def)
    then have "answered r c'" using answered_body [OF c'(2)] by simp
    then show ?thesis
      using run 1(3,4,6-8) msg c'(1) keepsD [OF net_process 1(2)] by blast
  qed
qed

lemma echo_work:
  assumes conv: "conversation be w q ext mq i l a fd s" and pool: "pool_abs s w q b" and b: "\<not> b_shutdown b" "b_items b = [t]"
    and core: "task_core s t = Some (TASK_TYPE_PROCESS, Some a, Some d, int (length d))" and d: "length d \<le> BUFFER_SIZE" and mem: "mem s = []"
  shows "\<exists>s' m c' r. worker_step w s = Inr (True, s') \<and> conversation be w q ext (mq(i := mq i @ [m])) i l a fd s' \<and>
     pool_abs s' w q (b\<lparr>b_items := []\<rparr>) \<and> build_response d (int (length d)) = (r, int (length r)) \<and>
     conns s' a = Some c' \<and> answered r c' \<and> ready_message s' m a \<and> tx s' = tx s \<and> sent s' = sent s"
proof -
  obtain W where W: "pools s w = Some W" "p_task_queue W = Some q" "\<not> p_shutdown W" "p_stats_mutex W = Unlocked"
    using pool b(1) by (auto elim!: pool_absD)
  have inv: "sys_inv w q ext mq s" and ext: "ext a \<noteq> 0" using conv by (auto elim: conversationD)
  obtain s1 where s1: "task_queue_pop (Some q) s = Inr (Some t, s1)" "sys_inv w q ext mq s1" "pool_abs s1 w q (b\<lparr>b_items := []\<rparr>)" "queue_frame q s s1"
    using pop_sys [OF inv pool, of t "[]"] b(2) by blast
  note f1 = queue_frame_kernel(5,6) [OF s1(4)] queue_frame_pools [OF s1(4)]
  have view1: "net_view a s1 = net_view a s" by (rule keepsD [OF net_queue_ops(3) s1(1)])
  obtain x where x: "tasks s1 t = Some x" "t_type x = TASK_TYPE_PROCESS" "t_conn x = Some a" "t_data x = Some d" "t_data_len x = int (length d)"
    using core unfolding f1(2) [symmetric] by (auto simp: task_core_def)
  have mem1: "mem s1 = []" using f1(1) mem by simp
  obtain s2 m c2 r where s2: "run_task t s1 = Inr ((), s2)" "sys_inv w q ext (mq(i := mq i @ [m])) s2" "net_view a s2 = net_view a s1"
      "build_response d (int (length d)) = (r, int (length r))" "conns s2 a = Some c2" "answered r c2" "ready_message s2 m a"
      "tasks s2 = tasks s1" "queues s2 = queues s1" "pools s2 = pools s1"
    using echo_run_task [OF conversation_net [OF conv view1 s1(2)] d mem1 x] by blast
  let ?mq = "mq(i := mq i @ [m])" and ?W = "W\<lparr>p_tasks_completed := p_tasks_completed W + 1\<rparr>"
  let ?s3 = "s2\<lparr>pools := (pools s2)(w \<mapsto> ?W)\<rparr>" and ?c4 = "c2\<lparr>c_ref_count := c_ref_count c2 - 1\<rparr>"
  let ?s4 = "?s3\<lparr>conns := (conns ?s3)(a \<mapsto> ?c4), tasks := (tasks ?s3)(t := None)\<rparr>"
  have W2: "pools s2 w = Some W" using W(1) s2(10) f1(3) by simp
  have stats: "pool_stats w s2 = Inr ((), ?s3)" using W2 W(4) by (rule pool_stats_exec)
  have inv3: "sys_inv w q ext ?mq ?s3" using s2(2) W2 by (rule sys_inv_pool_upd) simp_all
  have pool3: "pool_abs ?s3 w q (b\<lparr>b_items := []\<rparr>)"
    using s1(3) W f1(3) s2(8,9) queue_abs_cong [of s2 s1 q "b\<lparr>b_items := []\<rparr>"] by (simp add: pool_abs_def)
  have t3: "tasks ?s3 t = Some x" "conns ?s3 a = Some c2" using x(1) s2(5,8) by simp_all
  have destroy: "task_destroy (Some t) ?s3 = Inr ((), ?s4)" by (rule destroy_registered [OF inv3 ext t3(1) x(3) t3(2)])
  have inv4: "sys_inv w q ext ?mq ?s4" "pool_abs ?s4 w q (b\<lparr>b_items := []\<rparr>)" using task_destroy_sys [OF inv3 pool3 t3(1)] destroy by auto
  have step: "worker_step w s = Inr (True, ?s4)"
    using W s1(1) s2(1) stats destroy by (simp add: worker_step_def bindM_Inr thenM_Inr pool_load_Some returnM_def)
  have "net_view a ?s4 = net_view a s2" using s2(5) by (simp add: net_view_def)
  then have view: "net_view a ?s4 = net_view a s" using s2(3) view1 by simp
  have "answered r ?c4" using answered_body [of ?c4 c2 r] s2(6) by simp
  then show ?thesis
    using step conversation_net [OF conv view inv4(1)] inv4(2) s2(4,7) net_viewD(1,2) [OF view]
    by (intro exI [of _ ?s4] exI [of _ m] exI [of _ ?c4] exI [of _ r] conjI) simp_all
qed

section \<open>The I/O thread is told\<close>

lemma mod_to_write:
  assumes "loop_ready be l s fd" and "loop_registered l s fd"
  shows "\<exists>s'. event_loop_mod (Some l) fd (EVENT_WRITE OR EVENT_ET) d s = Inr (0, s') \<and> interest_frame s s' \<and>
     loop_ready be l s' fd \<and> loop_registered l s' fd \<and> loop_wants l s' fd AND EVENT_WRITE = EVENT_WRITE"
proof -
  have mask: "(EVENT_WRITE OR EVENT_ET) AND RW = EVENT_WRITE" "EVENT_WRITE \<noteq> 0" by (simp_all add: RW_def event_flags)
  obtain L where "loops s l = Some L" using assms(1) by (auto simp: loop_ready_def split: option.splits)
  from event_loop_ops_frame(2) [OF this] have frame: "event_loop_mod (Some l) fd (EVENT_WRITE OR EVENT_ET) d s = Inr (r, s') \<Longrightarrow> interest_frame s s'" for r s'
    by (metis Pair_inject sum.inject(2))
  show ?thesis
  proof (cases be)
    case epoll_ops
    obtain s' where s': "event_loop_mod (Some l) fd (EVENT_WRITE OR EVENT_ET) d s = Inr (0, s')" "loops s' = loops s" "fd_open s' = fd_open s"
        "loop_registered l s' fd" "loop_wants l s' fd = EVENT_WRITE"
      using epoll_mod_exec [of l s fd "EVENT_WRITE OR EVENT_ET" d] assms epoll_ops mask by auto
    moreover have "loop_ready be l s' fd" using assms(1) loop_ready_cong [OF s'(2,3)] by simp
    ultimately show ?thesis using frame [OF s'(1)] by simp
  next
    case kqueue_ops
    have rd: "loop_ready kqueue_ops l s fd" using assms(1) kqueue_ops by simp
    obtain s' where s': "event_loop_mod (Some l) fd (EVENT_WRITE OR EVENT_ET) d s = Inr (0, s')" "loops s' = loops s" "fd_open s' = fd_open s"
        "loop_wants l s' fd = loop_wants l s fd OR EVENT_WRITE"
      using kqueue_add_exec [OF rd, of "EVENT_WRITE OR EVENT_ET" d] kqueue_mod_exec [OF rd] mask by auto
    have rd': "loop_ready kqueue_ops l s' fd" using rd loop_ready_cong [OF s'(2,3)] by simp
    have wants: "loop_wants l s' fd AND EVENT_WRITE = EVENT_WRITE" unfolding s'(4) by (simp add: bit.conj_disj_distrib2)
    then have "loop_wants l s' fd \<noteq> 0" using mask(2) by auto
    then have "loop_registered l s' fd" using kqueue_registered [OF rd'] by simp
    then show ?thesis using frame [OF s'(1)] s'(1) rd' wants kqueue_ops by auto
  qed
qed

lemma pipe_read_any: "\<exists>r e p. sys_pipe_read fd n s = Inr (r, s\<lparr>errno := e, pipe_buf := p\<rparr>)"
proof (cases "fd \<in> fd_open s \<and> pipe_buf s fd \<noteq> []")
  case True
  then have "sys_pipe_read fd n s = Inr ((int (length (take n (pipe_buf s fd))), take n (pipe_buf s fd)),
      s\<lparr>errno := errno s, pipe_buf := (pipe_buf s)(fd := drop n (pipe_buf s fd))\<rparr>)" by (auto simp: sys_pipe_read_def split: list.split)
  then show ?thesis by blast
next
  case False
  then have "sys_pipe_read fd n s = Inr ((- 1, []), s\<lparr>errno := (if fd \<in> fd_open s then EAGAIN else EBADF), pipe_buf := pipe_buf s\<rparr>)"
    by (auto simp: sys_pipe_read_def)
  then show ?thesis by blast
qed

text \<open>The one message of a thread is taken out of its queue: the connection is watched for writing, and the message and its reference are gone.\<close>

lemma message_exec:
  assumes inv: "sys_inv w q ext mq s" and ext: "ext a \<noteq> 0" and i: "ios s i = Some I" "io_event_loop I = Some l" and m: "mq i = [m]" "ready_message s m a"
    and c: "conns s a = Some c" "\<not> c_closing c" and loop: "loop_ready be l s (c_fd c)" "loop_registered l s (c_fd c)"
  obtains s4 I' where "handle_msg_event (Suc f) i s = Inr ((), s4\<lparr>conns := (conns s)(a \<mapsto> c\<lparr>c_ref_count := c_ref_count c - 1\<rparr>), msgs := (msgs s)(m := None), ios := (ios s)(i \<mapsto> I')\<rparr>)"
    "io_event_loop I' = Some l" "loop_ready be l s4 (c_fd c)" "loop_registered l s4 (c_fd c)" "loop_wants l s4 (c_fd c) AND EVENT_WRITE = EVENT_WRITE"
proof -
  have th: "msg_abs s i [m]" using threads_okD(1) [OF sys_invD(5) [OF inv] i(1)] m(1) by simp
  obtain x where x: "msgs s m = Some x" "m_type x = IO_MSG_RESPONSE_READY" "m_conn x = Some a" using m(2) by auto
  have I: "io_msg_queue_head I = Some m" "io_msg_queue_mutex I = Unlocked" "m_next x = None"
    using th i(1) x(1) by (auto simp: msg_abs_at_def msg_next_def)
  obtain y e p where s0: "sys_pipe_read (fst (io_msg_pipe_fd I)) 1 s = Inr (y, s\<lparr>errno := e, pipe_buf := p\<rparr>)" using pipe_read_any by blast
  let ?s0 = "s\<lparr>errno := e, pipe_buf := p\<rparr>"
  define I1 where "I1 = I\<lparr>io_msg_queue_head := None, io_msg_queue_tail := None, io_msg_queue_mutex := Unlocked\<rparr>"
  let ?s3 = "?s0\<lparr>ios := (ios s)(i \<mapsto> I1)\<rparr>"
  have frame: "loops ?s3 = loops s" "fd_open ?s3 = fd_open s" "ep_interest ?s3 = ep_interest s" "kq_filters ?s3 = kq_filters s" by simp_all
  obtain s4 where s4: "event_loop_mod (Some l) (c_fd c) (EVENT_WRITE OR EVENT_ET) (U_Conn a) ?s3 = Inr (0, s4)" "interest_frame ?s3 s4"
      "loop_ready be l s4 (c_fd c)" "loop_registered l s4 (c_fd c)" "loop_wants l s4 (c_fd c) AND EVENT_WRITE = EVENT_WRITE"
    using mod_to_write [of be l ?s3 "c_fd c" "U_Conn a"] loop unfolding loop_cong [OF frame] by blast
  note f4 = interest_frame_io(2-4) [OF s4(2)]
  have wf: "conn_wf c" by (rule io_owned_wf [OF sys_invD(1) [OF inv] c(1)])
  have cnt: "1 < c_ref_count c" using refs_zero_count [OF inv c(1)] io_owned_msg_live(2) [OF sys_invD(1) [OF inv] x(1,3)] ext by simp
  let ?c = "c\<lparr>c_ref_count := c_ref_count c - 1\<rparr>"
  let ?s6 = "s4\<lparr>conns := (conns s)(a \<mapsto> ?c), msgs := (msgs s)(m := None)\<rparr>"
  have valid: "conn_is_valid (Some a) ?s3 = Inr (True, ?s3)" using c wf by (simp add: conn_is_valid_Some conn_wf_def)
  have rel: "conn_release (Some a) s4 = Inr ((), s4\<lparr>conns := (conns s)(a \<mapsto> ?c)\<rparr>)"
    using conn_release_shared [of s4 a c] f4(3) c(1) wf cnt by (simp add: conn_wf_def)
  have msg: "handle_message i m ?s3 = Inr ((), ?s6)"
    using x valid s4(1) rel c(1) f4 i(2)
    by (simp add: handle_message_def bindM_Inr thenM_Inr msg_load_Some io_load_Some derefM_def whenM_def modifyM_def I1_def returnM_def)
  have io6: "ios ?s6 i = Some I1" using f4 by simp
  have run: "handle_msg_event (Suc f) i s = Inr ((), ?s6\<lparr>ios := (ios ?s6)(i \<mapsto> I1)\<rparr>)"
    using i s0 I x(1) msg io6
    by (simp add: handle_msg_event_def drain_loop.simps [of "Suc f"] drain_loop.simps [of f] msg_dequeue_def I1_def
        bindM_Inr thenM_Inr io_load_Some io_update_Some msg_load_Some msgq_lock_Some msgq_unlock_Some whenM_def returnM_def)
  moreover have "ios ?s6 = (ios s)(i \<mapsto> I1)" using f4(2) by simp
  ultimately show ?thesis using s4(3-5) i(2) by (intro that [of I1 s4]) (simp_all add: I1_def)
qed

lemma echo_message:
  assumes conv: "conversation be w q ext mq i l a fd s" and pool: "pool_abs s w q b" and m: "mq i = [m]" "ready_message s m a"
    and c: "conns s a = Some c" "answered r c"
  shows "\<exists>s' c'. handle_msg_event (Suc f) i s = Inr ((), s') \<and> conversation be w q ext (mq(i := [])) i l a fd s' \<and> pool_abs s' w q b \<and>
     conns s' a = Some c' \<and> answered r c' \<and> loop_wants l s' fd AND EVENT_WRITE = EVENT_WRITE \<and> tx s' = tx s \<and> sent s' = sent s"
proof -
  obtain I where I: "sys_inv w q ext mq s" "ext a \<noteq> 0" "ios s i = Some I" "io_event_loop I = Some l"
    and c': "\<not> c_closing c" "loop_ready be l s (c_fd c)" "loop_registered l s (c_fd c)" "c_fd c = fd" "c_io_thread c = Some i"
    by (rule conversationD [OF conv]) (use c(1) in auto)
  let ?c = "c\<lparr>c_ref_count := c_ref_count c - 1\<rparr>"
  obtain s4 I' where run: "handle_msg_event (Suc f) i s = Inr ((), s4\<lparr>conns := (conns s)(a \<mapsto> ?c), msgs := (msgs s)(m := None), ios := (ios s)(i \<mapsto> I')\<rparr>)"
      (is "_ = Inr ((), ?s)")
    and s4: "io_event_loop I' = Some l" "loop_ready be l s4 fd" "loop_registered l s4 fd" "loop_wants l s4 fd AND EVENT_WRITE = EVENT_WRITE"
    using message_exec [OF I m c(1) c'(1-3), where f = f] unfolding c'(4) by blast
  have sys: "sys_inv w q ext (mq(i := [])) ?s" "io_frame i s ?s"
    using msg_event_sys [OF I(1,3), of "Suc f"] m(1) run by auto
  have same: "loop_ready be l ?s fd = loop_ready be l s4 fd" "loop_registered l ?s fd = loop_registered l s4 fd" "loop_wants l ?s fd = loop_wants l s4 fd"
    by (rule loop_cong; simp)+
  have "conversation be w q ext (mq(i := [])) i l a fd ?s"
    unfolding conversation_def same using sys(1) I(2) s4 c' by simp
  moreover have "pool_abs ?s w q b" using pool io_frameD(1-3) [OF sys(2)] pool_abs_cong [of ?s w s q b] by simp
  moreover have "tx ?s = tx s" "sent ?s = sent s" using sys(2) unfolding io_frame_def by blast+
  moreover have "answered r ?c" using answered_body [of ?c c r] c(2) by simp
  moreover have "conns ?s a = Some ?c" by simp
  ultimately show ?thesis using run s4(4) unfolding same(3) [symmetric] by blast
qed

section \<open>The answer is written\<close>

text \<open>What the write handler leaves of the queue of the workers: everything.\<close>

definition pool_view :: "'a io_store_scheme \<Rightarrow> _" where
  "pool_view s = (tasks s, queues s, pools s)"

lemma view_close [keeps]: "keepsM pool_view (sys_close fd)"
  by (auto simp: keepsM_def sys_close_def after_close_def pool_view_def)

lemma view_write [keeps]: "keepsM pool_view (sys_write fd bs)"
  by (auto simp: keepsM_def sys_write_def pool_view_def Let_def split: list.splits if_splits tx_item.splits)

lemma view_cells [keeps]: "keepsM pool_view (conn_load a)" "keepsM pool_view (conn_update a f)" "keepsM pool_view (io_update i g)"
  "keepsM pool_view (modifyM (\<lambda>s. s\<lparr>conns := (conns s)(a := v)\<rparr>))"
  unfolding conn_load_def conn_update_def io_update_def by (intro keeps keeps_modify; simp add: pool_view_def)+

lemma interest_frame_pool: "interest_frame s s' \<Longrightarrow> pool_view s' = pool_view s"
  using io_frameD(1-3) [OF interest_frame_io(1), of s s'] by (simp add: pool_view_def)

lemma view_loop_ops [keeps]: "keepsM pool_view (event_loop_mod l fd ev d)" "keepsM pool_view (event_loop_del l fd)"
  by (rule keeps_interest, erule loop_op_frame, erule interest_frame_pool)+

lemma view_conn [keeps]: "keepsM pool_view (conn_lock a)" "keepsM pool_view (conn_unlock a)" "keepsM pool_view (conn_close_fd a)"
  unfolding conn_lock_def conn_unlock_def conn_close_fd_def by (intro keeps)+

lemma view_conn_ops [keeps]: "keepsM pool_view (conn_release p)" "keepsM pool_view (conn_mark_closing p)" "keepsM pool_view (io_stats i f)"
  unfolding conn_release_def conn_mark_closing_def io_stats_def by (intro keeps)+

lemma view_close_conn [keeps]: "keepsM pool_view (close_conn i a)" "keepsM pool_view (wrote i a n)" "keepsM pool_view (back_to_read i a)"
  unfolding close_conn_def wrote_def back_to_read_def by (intro keeps)+

lemma view_write_loop [keeps]: "keepsM pool_view (write_loop fuel i a)"
proof (induction fuel)
  case 0
  show ?case by (subst write_loop.simps; simp only: nat.case; intro keeps)
next
  case (Suc fuel)
  show ?case by (subst write_loop.simps; simp only: nat.case; intro keeps Suc)
qed

lemma view_handle_write: "keepsM pool_view (handle_write fuel i a)"
  unfolding handle_write_def by (intro keeps)

lemma echo_write:
  assumes conv: "conversation be w q ext mq i l a fd s" and pool: "pool_abs s w q b" and c: "conns s a = Some c" "answered r c" "r \<noteq> []"
    and tx: "takes (tx s fd) (length r)" and fuel: "BUFFER_SIZE \<le> fuel"
  shows "\<exists>s'. handle_write fuel i a s = Inr ((), s') \<and> conversation be w q ext mq i l a fd s' \<and> pool_abs s' w q b \<and> sent s' fd = sent s fd @ r"
proof -
  obtain I where I: "sys_inv w q ext mq s" "ios s i = Some I" "ext a \<noteq> 0" "io_event_loop I = Some l"
    and c': "\<not> c_closing c" "loop_ready be l s (c_fd c)" "loop_registered l s (c_fd c)" "c_fd c = fd" "c_io_thread c = Some i"
    by (rule conversationD [OF conv]) (use c(1) in auto)
  have r: "pending c = r" "c_write_size c - c_write_pos c = int (length r)" "0 < c_write_size c" using c(2,3) by (auto simp: answered_def)
  have "nat (c_write_size c - c_write_pos c) \<le> fuel"
    using io_owned_wf [OF sys_invD(1) [OF I(1)] c(1)] fuel by (auto simp: conn_wf_def)
  moreover have "takes (tx s (c_fd c)) (nat (c_write_size c - c_write_pos c))" using tx c'(4) r(2) by simp
  ultimately obtain s' d where s': "handle_write fuel i a s = Inr ((), s')" "sys_inv w q ext mq s'" "conns s' a = Some d" "sent s' fd = sent s fd @ r"
      "c_fd d = fd" "\<not> c_closing d" "c_io_thread d = Some i" "map_option io_event_loop (ios s' i) = Some (Some l)" "loop_ready be l s' fd" "loop_registered l s' fd"
    using write_out_sys [OF I(1,2) c(1) I(3) _ r(3) _ I(4) c'(2,3), of fuel] c' r(1) by auto
  have "conversation be w q ext mq i l a fd s'" unfolding conversation_def using s' I(3) by simp
  moreover have "pool_abs s' w q b" using keepsD [OF view_handle_write s'(1)] pool pool_abs_cong [of s' w s q b] by (simp add: pool_view_def)
  ultimately show ?thesis using s'(1,4) by blast
qed

section \<open>A session\<close>

text \<open>An event with a single handler, after which the connection is still valid.\<close>

lemma single_event:
  assumes conv: "conversation be w q ext mq i l a fd s" "conversation be w q ext mq i l a fd s'"
    and ev: "ev = EVENT_READ \<and> handle_read fuel i a s = Inr ((), s') \<or> ev = EVENT_WRITE \<and> handle_write fuel i a s = Inr ((), s')"
  shows "handle_conn_event fuel i (U_Conn a) ev s = Inr ((), s')"
proof -
  obtain c where c: "sys_inv w q ext mq s" "conns s a = Some c" "\<not> c_closing c" using conversationD [OF conv(1)] by metis
  obtain c' where c': "sys_inv w q ext mq s'" "conns s' a = Some c'" "\<not> c_closing c'" using conversationD [OF conv(2)] by metis
  have valid: "conn_is_valid (Some a) s' = Inr (True, s')" using conn_is_valid_wf [OF c'(1,2)] c'(3) by simp
  have run: "handle_conn_event fuel i (U_Conn a) ev s =
      bindM (if ev AND EVENT_READ \<noteq> 0 then thenM (handle_read fuel i a) (conn_is_valid (Some a)) else returnM True) (\<lambda>valid.
       if \<not> valid then returnM ()
       else bindM (if ev AND EVENT_WRITE \<noteq> 0 then thenM (handle_write fuel i a) (conn_is_valid (Some a)) else returnM True) (\<lambda>valid.
       if \<not> valid then returnM ()
       else whenM (ev AND (EVENT_ERROR OR EVENT_HUP) \<noteq> 0) (handle_hangup i a (c_fd c)))) s"
    using handle_conn_event_run [OF c(1,2)] c(3) by simp
  have mask: "EVENT_READ AND EVENT_READ \<noteq> 0" "EVENT_READ AND EVENT_WRITE = 0" "EVENT_READ AND (EVENT_ERROR OR EVENT_HUP) = 0"
    "EVENT_WRITE AND EVENT_READ = 0" "EVENT_WRITE AND EVENT_WRITE \<noteq> 0" "EVENT_WRITE AND (EVENT_ERROR OR EVENT_HUP) = 0"
    by (simp_all add: event_flags)
  from ev show ?thesis
  proof (elim disjE conjE)
    assume r: "ev = EVENT_READ" "handle_read fuel i a s = Inr ((), s')"
    then have "thenM (handle_read fuel i a) (conn_is_valid (Some a)) s = Inr (True, s')" using valid by (simp add: thenM_Inr)
    then show ?thesis unfolding run unfolding r(1) using mask(1-3) by (simp add: bindM_Inr returnM_def)
  next
    assume r: "ev = EVENT_WRITE" "handle_write fuel i a s = Inr ((), s')"
    then have "thenM (handle_write fuel i a) (conn_is_valid (Some a)) s = Inr (True, s')" using valid by (simp add: thenM_Inr)
    then show ?thesis unfolding run unfolding r(1) using mask(4-6) by (simp add: bindM_Inr returnM_def)
  qed
qed

text \<open>
  Actions in sequence, and the actions that one request \<open>d\<close> on connection \<open>a\<close> of thread \<open>i\<close> sets off: its bytes arrive, \<open>r\<close> and \<open>t\<close>
  being the scripts of the sockets from then on; the socket becomes readable; a worker runs; the message pipe becomes
  readable; the socket is writable.
\<close>

fun run_actions :: "addr \<Rightarrow> action list \<Rightarrow> ('a io_store_scheme, unit) cmd" where
  "run_actions w [] = returnM ()"
| "run_actions w (x # xs) = thenM (reactor_act w x) (run_actions w xs)"

type_synonym request = "(int \<Rightarrow> rx_item list) \<times> (int \<Rightarrow> tx_item list) \<times> string"

definition request_actions :: "addr \<Rightarrow> addr \<Rightarrow> request \<Rightarrow> action list" where
  "request_actions i a = (\<lambda>(r, t, d).
     [Environment r t [],
      Io_Event i \<lparr>ev_data = U_Conn a, ev_events = EVENT_READ, ev_fd = - 1\<rparr>,
      Work,
      Io_Event i \<lparr>ev_data = U_MsgPipe i, ev_events = EVENT_READ, ev_fd = - 1\<rparr>,
      Io_Event i \<lparr>ev_data = U_Conn a, ev_events = EVENT_WRITE, ev_fd = - 1\<rparr>])"

definition response :: "string \<Rightarrow> string" where
  "response d = fst (build_response d (int (length d)))"

text \<open>The request arrives in one piece, and the socket takes the response.\<close>

definition request_ok :: "int \<Rightarrow> request \<Rightarrow> bool" where
  "request_ok fd = (\<lambda>(r, t, d). d \<noteq> [] \<and> length d \<le> BUFFER_SIZE \<and> r fd = [Chunk (hd d) (tl d)] \<and> takes (t fd) (length (response d)))"

lemma run_actions_append: "run_actions w (xs @ ys) s = (case run_actions w xs s of Inl e \<Rightarrow> Inl e | Inr (_, s') \<Rightarrow> run_actions w ys s')"
proof (induction xs arbitrary: s)
  case Nil
  then show ?case by (simp add: returnM_def)
next
  case (Cons x xs)
  then show ?case by (cases "reactor_act w x s") (auto simp: thenM_def bindM_def)
qed

lemma conn_fuel:
  assumes "conversation be w q ext mq i l a fd s" and "ev_data e = U_Conn a"
  shows "0 < event_fuel s e" "BUFFER_SIZE \<le> event_fuel s e"
  using assms by (auto simp: event_fuel_def BUFFER_SIZE_def elim!: conversationD)

text \<open>The first half: from the arrival of the request to the message for the I/O thread.\<close>

lemma echo_request:
  assumes conv: "conversation be w q ext mq i l a fd s" and mq: "mq i = []" and pool: "pool_abs s w q b" and b: "\<not> b_shutdown b" "b_items b = []" "0 < b_max b"
    and d: "d \<noteq> []" "length d \<le> BUFFER_SIZE" "r fd = [Chunk (hd d) (tl d)]" and e: "e = \<lparr>ev_data = U_Conn a, ev_events = EVENT_READ, ev_fd = n\<rparr>"
  shows "\<exists>s' m c. run_actions w [Environment r t [], Io_Event i e, Work] s = Inr ((), s') \<and> conversation be w q ext (mq(i := [m])) i l a fd s' \<and>
     pool_abs s' w q b \<and> conns s' a = Some c \<and> answered (response d) c \<and> ready_message s' m a \<and> tx s' = t \<and> sent s' = sent s"
proof -
  let ?s = "s\<lparr>rx := r, tx := t, mem := []\<rparr>"
  obtain x xs where xs: "d = x # xs" using d(1) by (cases d) auto
  have inv: "sys_inv w q ext mq s" using conv by (rule conversationD)
  have "sys_inv w q ext mq ?s" using inv by (rule sys_inv_kernel) simp_all
  then have conv0: "conversation be w q ext mq i l a fd ?s" using conv loop_cong [of ?s s] by (simp add: conversation_def)
  have pool0: "pool_abs ?s w q b" using pool pool_abs_cong [of ?s w s q b] by simp
  obtain s1 b1 u where s1: "handle_read (event_fuel ?s e) i a ?s = Inr ((), s1)" "conversation be w q ext mq i l a fd s1" "pool_abs s1 w q b1" "\<not> b_shutdown b1"
      "b_items b1 = [u]" "b_max b1 = b_max b" "task_core s1 u = Some (TASK_TYPE_PROCESS, Some a, Some d, int (length d))" "mem s1 = []" "tx s1 = t" "sent s1 = sent s"
    using echo_read [OF conv0 pool0 b _ _ _ conn_fuel(1) [OF conv0, of e], of x xs] d xs e by auto
  have 1: "reactor_act w (Io_Event i e) ?s = Inr ((), s1)" using single_event [OF conv0 s1(2)] s1(1) e by (simp add: handle_event_def)
  have b1: "b1\<lparr>b_items := []\<rparr> = b" using s1(4,6) b by (cases b; cases b1) simp
  obtain s2 m c rr where s2: "worker_step w s1 = Inr (True, s2)" "conversation be w q ext (mq(i := [m])) i l a fd s2" "pool_abs s2 w q b"
      "build_response d (int (length d)) = (rr, int (length rr))" "conns s2 a = Some c" "answered rr c" "ready_message s2 m a" "tx s2 = t" "sent s2 = sent s"
    using echo_work [OF s1(2-5,7) d(2) s1(8)] b1 mq s1(9,10) by auto
  have "reactor_act w Work s1 = Inr ((), s2)" using s2(1) by (simp add: bindM_Inr returnM_def)
  with 1 have "run_actions w [Environment r t [], Io_Event i e, Work] s = Inr ((), s2)"
    unfolding run_actions.simps by (simp add: thenM_Inr returnM_def del: reactor_act.simps(2,3))
  moreover have "rr = response d" using s2(4) by (simp add: response_def)
  ultimately show ?thesis using s2 by blast
qed

text \<open>The second half: from the message to the last byte of the response.\<close>

lemma echo_answer:
  assumes conv: "conversation be w q ext (mq(i := [m])) i l a fd s" and mq: "mq i = []" and pool: "pool_abs s w q b"
    and c: "conns s a = Some c" "answered r c" "r \<noteq> []" and m: "ready_message s m a" and tx: "takes (tx s fd) (length r)"
    and e: "e = \<lparr>ev_data = U_MsgPipe i, ev_events = EVENT_READ, ev_fd = n\<rparr>" "e' = \<lparr>ev_data = U_Conn a, ev_events = EVENT_WRITE, ev_fd = n'\<rparr>"
  shows "\<exists>s'. run_actions w [Io_Event i e, Io_Event i e'] s = Inr ((), s') \<and> conversation be w q ext mq i l a fd s' \<and> pool_abs s' w q b \<and>
     sent s' fd = sent s fd @ r"
proof -
  have inv: "sys_inv w q ext (mq(i := [m])) s" using conv by (rule conversationD)
  have "m < next_addr s" using message_below [OF inv] m by auto
  then obtain f where f: "next_addr s = Suc f" by (cases "next_addr s") auto
  have clear: "(mq(i := [m]))(i := []) = mq" using mq by (auto simp: fun_eq_iff)
  have head: "(mq(i := [m])) i = [m]" by simp
  obtain s1 c1 where s1: "handle_msg_event (Suc f) i s = Inr ((), s1)" "conversation be w q ext mq i l a fd s1" "pool_abs s1 w q b"
      "conns s1 a = Some c1" "answered r c1" "tx s1 = tx s" "sent s1 = sent s"
    using echo_message [OF conv pool head m c(1,2), of f] unfolding clear by blast
  have 1: "reactor_act w (Io_Event i e) s = Inr ((), s1)" using s1(1) f e(1) by (simp add: handle_event_def event_fuel_def)
  have "takes (tx s1 fd) (length r)" "ev_data e' = U_Conn a" using tx s1(6) e(2) by simp_all
  then obtain s2 where s2: "handle_write (event_fuel s1 e') i a s1 = Inr ((), s2)" "conversation be w q ext mq i l a fd s2" "pool_abs s2 w q b"
      "sent s2 fd = sent s1 fd @ r"
    using echo_write [OF s1(2-5) c(3) _ conn_fuel(2) [OF s1(2), of e']] by blast
  have "reactor_act w (Io_Event i e') s1 = Inr ((), s2)" using single_event [OF s1(2) s2(2)] s2(1) e(2) by (simp add: handle_event_def)
  with 1 have "run_actions w [Io_Event i e, Io_Event i e'] s = Inr ((), s2)" by (simp add: thenM_Inr returnM_def del: reactor_act.simps)
  then show ?thesis using s2(2-4) s1(7) by auto
qed

lemma echo_round:
  assumes conv: "conversation be w q ext mq i l a fd s" and mq: "mq i = []" and pool: "pool_abs s w q b" and b: "\<not> b_shutdown b" "b_items b = []" "0 < b_max b"
    and req: "request_ok fd (r, t, d)"
  shows "\<exists>s'. run_actions w (request_actions i a (r, t, d)) s = Inr ((), s') \<and> conversation be w q ext mq i l a fd s' \<and> pool_abs s' w q b \<and>
     sent s' fd = sent s fd @ response d"
proof -
  have rq: "d \<noteq> []" "length d \<le> BUFFER_SIZE" "r fd = [Chunk (hd d) (tl d)]" "takes (t fd) (length (response d))" using req by (simp_all add: request_ok_def)
  define e1 where "e1 = \<lparr>ev_data = U_Conn a, ev_events = EVENT_READ, ev_fd = - 1\<rparr>"
  define e2 where "e2 = \<lparr>ev_data = U_MsgPipe i, ev_events = EVENT_READ, ev_fd = - 1\<rparr>"
  define e3 where "e3 = \<lparr>ev_data = U_Conn a, ev_events = EVENT_WRITE, ev_fd = - 1\<rparr>"
  obtain s1 m c where s1: "run_actions w [Environment r t [], Io_Event i e1, Work] s = Inr ((), s1)"
      "conversation be w q ext (mq(i := [m])) i l a fd s1" "pool_abs s1 w q b" "conns s1 a = Some c" "answered (response d) c" "ready_message s1 m a" "tx s1 = t" "sent s1 = sent s"
    using echo_request [where r = r and t = t, OF conv mq pool b rq(1-3) e1_def] by (elim exE conjE) (rule that)
  have "int (length d) \<le> int BUFFER_SIZE" using rq(2) by (simp only: of_nat_le_iff)
  then obtain v where "build_response d (int (length d)) = (v, int (length v))" "0 < length v"
    by (rule build_response_len [OF of_nat_0_le_iff])
  then have "response d \<noteq> []" by (simp add: response_def)
  moreover have "takes (tx s1 fd) (length (response d))" using s1(7) rq(4) by simp
  ultimately obtain s2 where s2: "run_actions w [Io_Event i e2, Io_Event i e3] s1 = Inr ((), s2)"
      "conversation be w q ext mq i l a fd s2" "pool_abs s2 w q b" "sent s2 fd = sent s1 fd @ response d"
    using echo_answer [OF s1(2) mq s1(3-5) _ s1(6) _ e2_def e3_def] by blast
  have "request_actions i a (r, t, d) = [Environment r t [], Io_Event i e1, Work] @ [Io_Event i e2, Io_Event i e3]"
    by (simp add: request_actions_def e1_def e2_def e3_def)
  then have "run_actions w (request_actions i a (r, t, d)) s = Inr ((), s2)"
    using s1(1) s2(1) by (simp only: run_actions_append sum.case prod.case)
  then show ?thesis using s2(2-4) s1(8) by auto
qed


text \<open>The idle server with its connection registered for reading; a client that sends two requests.\<close>

definition demo_echo_store :: io_store where
  "demo_echo_store = demo_idle_store\<lparr>ep_interest := (\<lambda>_ fd. if fd = 5 then Some (to_epoll_events (EVENT_READ OR EVENT_ET), U_Conn 0) else None)\<rparr>"

definition demo_request :: "string \<Rightarrow> request" where
  "demo_request d = ((\<lambda>_. [Chunk (hd d) (tl d)]), (\<lambda>_. [Accept (Suc BUFFER_SIZE)]), d)"

lemma takes_one: "n \<le> Suc k \<Longrightarrow> takes [Accept (Suc k)] n"
  by (cases n) simp_all

lemma demo_request_ok:
  assumes "d \<noteq> []" and "length d \<le> BUFFER_SIZE"
  shows "request_ok 5 (demo_request d)"
proof -
  have "int (length d) \<le> int BUFFER_SIZE" using assms(2) by (simp only: of_nat_le_iff)
  then obtain v where v: "build_response d (int (length d)) = (v, int (length v))" "length v < BUFFER_SIZE"
    by (rule build_response_len [OF of_nat_0_le_iff])
  then have "takes [Accept (Suc BUFFER_SIZE)] (length (response d))" by (intro takes_one) (simp add: response_def)
  then show ?thesis using assms by (simp add: request_ok_def demo_request_def)
qed

lemma demo_echo_conversation: "conversation epoll_ops 60 50 demo_ext (\<lambda>_. []) 80 70 0 5 demo_echo_store"
proof -
  have "sys_inv 60 50 demo_ext (\<lambda>_. []) demo_echo_store" using demo_idle_inv by (rule sys_inv_kernel) (simp_all add: demo_echo_store_def)
  then show ?thesis
    by (simp add: conversation_def demo_echo_store_def demo_ext_def demo_idle_io_def demo_io_thread_def demo_idle_conn_def demo_conn_def
        loop_ready_def loop_registered_def demo_loop_def)
qed

lemma demo_echo_pool: "pool_abs demo_echo_store 60 50 \<lparr>b_items = [], b_max = 4, b_shutdown = False\<rparr>"
  by (simp add: pool_abs_def demo_echo_store_def demo_pool_store_def task_store.extend_def queue_abs_def empty_queue_def)


end
