(* ===== verification/Server.thy ===== *)
theory Server
  imports Io_Thread "HOL-Library.Sublist"
begin

text \<open>
  \<open>advanced-reactor-server/server.c\<close> and \<open>main.c\<close>: the listening socket, the loop that accepts connections and hands them to the I/O threads, the life of
  the server and the command line. The state gains the heap \<open>servers\<close>, the flag \<open>g_shutdown\<close> and the script \<open>signals\<close> of the signals that
  arrive before each test of the loop condition.
\<close>

section \<open>Data\<close>

record reactor_server =
  sv_listen_fd :: int
  sv_port :: int
  sv_worker_pool :: ptr
  sv_io_pool :: ptr
  sv_main_event_loop :: ptr
  sv_running :: bool
  sv_total_connections :: int
  sv_stats_mutex :: mutex

datatype signal = SIGINT | SIGTERM | SIGPIPE

record srv_store = iop_store +
  servers :: "addr \<Rightarrow> reactor_server option"
  g_shutdown :: bool
  signals :: "signal list list"

definition server_load :: "addr \<Rightarrow> ('a srv_store_scheme, reactor_server) cmd" where
  "server_load v = derefM servers (Some v)"

definition server_update :: "addr \<Rightarrow> (reactor_server \<Rightarrow> reactor_server) \<Rightarrow> ('a srv_store_scheme, unit) cmd" where
  "server_update v f = bindM (server_load v) (\<lambda>S. modifyM (\<lambda>s. s\<lparr>servers := (servers s)(v \<mapsto> f S)\<rparr>))"

definition server_free :: "addr \<Rightarrow> ('a srv_store_scheme, unit) cmd" where
  "server_free v = bindM (server_load v) (\<lambda>_. modifyM (\<lambda>s. s\<lparr>servers := (servers s)(v := None)\<rparr>))"

section \<open>Signals\<close>

definition signal_handler :: "signal \<Rightarrow> ('a srv_store_scheme, unit) cmd" where
  "signal_handler sig = whenM (sig = SIGINT \<or> sig = SIGTERM) (modifyM (\<lambda>s. s\<lparr>g_shutdown := True\<rparr>))"

text \<open>\<open>server_start\<close> installs the handler for \<open>SIGINT\<close> and \<open>SIGTERM\<close> and ignores \<open>SIGPIPE\<close>.\<close>

fun run_handlers :: "signal list \<Rightarrow> ('a srv_store_scheme, unit) cmd" where
  "run_handlers [] = returnM ()"
| "run_handlers (sig # sigs) = thenM (if sig = SIGPIPE then returnM () else signal_handler sig) (run_handlers sigs)"

definition deliver_signals :: "('a srv_store_scheme, unit) cmd" where
  "deliver_signals = bindM (getM signals) (\<lambda>ss. case ss of
     [] \<Rightarrow> returnM ()
   | sigs # r \<Rightarrow> thenM (modifyM (\<lambda>s. s\<lparr>signals := r\<rparr>)) (run_handlers sigs))"

section \<open>The listening socket\<close>

text \<open>The outcomes of the three calls that end the process when they fail.\<close>

definition handle_error :: "('s, 'a) cmd" where
  "handle_error = failM Exit_Failure"

definition create_listen_socket :: "bool \<Rightarrow> bool \<Rightarrow> bool \<Rightarrow> int \<Rightarrow> ('a kernel_scheme, int) cmd" where
  "create_listen_socket reuse_ok bind_ok listen_ok port =
     bindM sys_newfd (\<lambda>listen_fd.
       if listen_fd = - 1 then handle_error
       else if \<not> reuse_ok then handle_error
       else if \<not> bind_ok then handle_error
       else if \<not> listen_ok then handle_error
       else returnM listen_fd)"

section \<open>Accepting connections\<close>

definition count_connection :: "addr \<Rightarrow> ('a srv_store_scheme, unit) cmd" where
  "count_connection v =
     bindM (server_load v) (\<lambda>S.
     bindM (mutex_lock (sv_stats_mutex S)) (\<lambda>m.
     thenM (server_update v (\<lambda>S. S\<lparr>sv_stats_mutex := m, sv_total_connections := sv_total_connections S + 1\<rparr>))
    (bindM (mutex_unlock m) (\<lambda>m. server_update v (\<lambda>S. S\<lparr>sv_stats_mutex := m\<rparr>)))))"

text \<open>
  The loop over \<open>accept\<close>, one unit of fuel per iteration that continues; \<open>ok fuel\<close> is the outcome of \<open>pthread_mutex_init\<close> for the connection made then.
\<close>

fun accept_connections :: "(nat \<Rightarrow> bool) \<Rightarrow> nat \<Rightarrow> addr \<Rightarrow> ('a srv_store_scheme, unit) cmd" where
  "accept_connections ok fuel v =
     bindM (server_load v) (\<lambda>S.
     bindM (sys_accept (sv_listen_fd S)) (\<lambda>(client_fd, client_addr).
       let loop = (case fuel of 0 \<Rightarrow> failM Out_Of_Fuel | Suc f \<Rightarrow> accept_connections ok f v) in
       if client_fd = - 1 then
         bindM (getM errno) (\<lambda>e. if e = EAGAIN then returnM () else if e = EINTR then loop else returnM ())
       else
         bindM (io_thread_pool_get_thread (sv_io_pool S)) (\<lambda>io_thread.
           if io_thread = None then bindM (sys_close client_fd) (\<lambda>_. loop)
           else bindM (io_thread_add_connection (ok fuel) io_thread client_fd (Some client_addr)) (\<lambda>r.
             thenM (if r = 0 then count_connection v else bindM (sys_close client_fd) (\<lambda>_. returnM ())) loop))))"

declare accept_connections.simps [simp del]

section \<open>The life of the server\<close>

text \<open>The outcomes of the calls that create threads, what the threads do until they are joined, and the fuel of the clean-up of the task queue.\<close>

record 's server_env =
  se_backend :: backend
  se_reuse_ok :: bool
  se_bind_ok :: bool
  se_listen_ok :: bool
  se_wspawn :: "nat \<Rightarrow> bool"
  se_wjoin :: "nat \<Rightarrow> ('s, unit) cmd"
  se_ispawn :: "nat \<Rightarrow> bool"
  se_ijoin :: "addr \<Rightarrow> ('s, unit) cmd"
  se_fuel :: nat

definition server_close_free :: "addr \<Rightarrow> ('a srv_store_scheme, ptr) cmd" where
  "server_close_free v =
     bindM (server_load v) (\<lambda>S. bindM (sys_close (sv_listen_fd S)) (\<lambda>_. thenM (server_free v) (returnM None)))"

definition server_create :: "'a srv_store_scheme server_env \<Rightarrow> int \<Rightarrow> int \<Rightarrow> int \<Rightarrow> ('a srv_store_scheme, ptr) cmd" where
  "server_create e port io_threads worker_threads =
     bindM mallocM (\<lambda>server. case server of
       None \<Rightarrow> returnM None
     | Some v \<Rightarrow>
         thenM (modifyM (\<lambda>s. s\<lparr>servers := (servers s)(v \<mapsto>
           \<lparr>sv_listen_fd = - 1, sv_port = port, sv_worker_pool = None, sv_io_pool = None, sv_main_event_loop = None, sv_running = False,
            sv_total_connections = 0, sv_stats_mutex = Unlocked\<rparr>)\<rparr>))
        (bindM (create_listen_socket (se_reuse_ok e) (se_bind_ok e) (se_listen_ok e) port) (\<lambda>listen_fd.
         thenM (server_update v (\<lambda>S. S\<lparr>sv_listen_fd := listen_fd\<rparr>))
        (bindM (thread_pool_create (se_wspawn e) (se_wjoin e) (se_fuel e) worker_threads 2000) (\<lambda>worker_pool.
         thenM (server_update v (\<lambda>S. S\<lparr>sv_worker_pool := worker_pool\<rparr>))
        (if worker_pool = None then server_close_free v
         else bindM (io_thread_pool_create (se_backend e) (se_ispawn e) (se_ijoin e) io_threads worker_pool) (\<lambda>io_pool.
         thenM (server_update v (\<lambda>S. S\<lparr>sv_io_pool := io_pool\<rparr>))
        (if io_pool = None then thenM (thread_pool_destroy (se_wjoin e) (se_fuel e) worker_pool) (server_close_free v)
         else bindM (event_loop_create (se_backend e) 10) (\<lambda>main_event_loop.
         thenM (server_update v (\<lambda>S. S\<lparr>sv_main_event_loop := main_event_loop\<rparr>))
        (if main_event_loop = None then
           thenM (io_thread_pool_destroy (se_ijoin e) io_pool)
          (thenM (thread_pool_destroy (se_wjoin e) (se_fuel e) worker_pool) (server_close_free v))
         else bindM (event_loop_add main_event_loop listen_fd (EVENT_READ OR EVENT_ET) U_Null) (\<lambda>r.
         if r = - 1 then
           thenM (event_loop_destroy main_event_loop)
          (thenM (io_thread_pool_destroy (se_ijoin e) io_pool)
          (thenM (thread_pool_destroy (se_wjoin e) (se_fuel e) worker_pool) (server_close_free v)))
         else returnM (Some v))))))))))))"

text \<open>
  The events of one wait. \<open>ok k fuel\<close> is the outcome of \<open>pthread_mutex_init\<close> while \<open>k\<close> events remain.
\<close>

fun server_events :: "(nat \<Rightarrow> nat \<Rightarrow> bool) \<Rightarrow> nat \<Rightarrow> addr \<Rightarrow> event list \<Rightarrow> ('a srv_store_scheme, unit) cmd" where
  "server_events ok fuel v [] = returnM ()"
| "server_events ok fuel v (ev # evs) =
     thenM (whenM (ev_events ev AND EVENT_READ \<noteq> 0) (accept_connections (ok (length evs)) fuel v))
           (if ev_events ev AND (EVENT_ERROR OR EVENT_HUP) \<noteq> 0 then server_update v (\<lambda>S. S\<lparr>sv_running := False\<rparr>)
            else server_events ok fuel v evs)"

fun server_loop :: "nat \<Rightarrow> (nat \<Rightarrow> nat \<Rightarrow> nat \<Rightarrow> bool) \<Rightarrow> nat \<Rightarrow> addr \<Rightarrow> ('a srv_store_scheme, unit) cmd" where
  "server_loop 0 ok fuel v = failM Out_Of_Fuel"
| "server_loop (Suc rounds) ok fuel v =
     thenM deliver_signals
    (bindM (server_load v) (\<lambda>S.
     bindM (getM g_shutdown) (\<lambda>shut.
       if \<not> sv_running S \<or> shut then returnM ()
       else bindM (event_loop_wait (sv_main_event_loop S) 10 1) (\<lambda>(nfds, events).
         if nfds = - 1 then bindM (getM errno) (\<lambda>e. if e = EINTR then server_loop rounds ok fuel v else returnM ())
         else thenM (server_events (ok rounds) fuel v (take (nat nfds) events)) (server_loop rounds ok fuel v)))))"

definition server_start :: "nat \<Rightarrow> (nat \<Rightarrow> nat \<Rightarrow> nat \<Rightarrow> bool) \<Rightarrow> nat \<Rightarrow> ptr \<Rightarrow> ('a srv_store_scheme, int) cmd" where
  "server_start rounds ok fuel server = (case server of
     None \<Rightarrow> returnM (- 1)
   | Some v \<Rightarrow>
       thenM (server_update v (\<lambda>S. S\<lparr>sv_running := True\<rparr>))
      (thenM (server_loop rounds ok fuel v) (returnM 0)))"

definition server_stop :: "ptr \<Rightarrow> ('a srv_store_scheme, unit) cmd" where
  "server_stop server = (case server of
     None \<Rightarrow> returnM ()
   | Some v \<Rightarrow> server_update v (\<lambda>S. S\<lparr>sv_running := False\<rparr>))"

definition server_destroy :: "'a srv_store_scheme server_env \<Rightarrow> ptr \<Rightarrow> ('a srv_store_scheme, unit) cmd" where
  "server_destroy e server = (case server of
     None \<Rightarrow> returnM ()
   | Some v \<Rightarrow>
       bindM (server_load v) (\<lambda>S.
       thenM (whenM (sv_listen_fd S \<noteq> - 1) (bindM (sys_close (sv_listen_fd S)) (\<lambda>_. returnM ())))
      (thenM (event_loop_destroy (sv_main_event_loop S))
      (thenM (io_thread_pool_destroy (se_ijoin e) (sv_io_pool S))
      (thenM (thread_pool_destroy (se_wjoin e) (se_fuel e) (sv_worker_pool S))
      (thenM (server_update v (\<lambda>S. S\<lparr>sv_stats_mutex := Destroyed\<rparr>))
             (server_free v)))))))"

section \<open>Accepting, step by step\<close>

lemma server_load_Some: "servers s v = Some S \<Longrightarrow> server_load v s = Inr (S, s)"
  by (simp add: server_load_def derefM_def)

lemma server_update_Some: "servers s v = Some S \<Longrightarrow> server_update v f s = Inr ((), s\<lparr>servers := (servers s)(v \<mapsto> f S)\<rparr>)"
  by (simp add: server_update_def bindM_def server_load_Some modifyM_def)

lemma count_connection_exec:
  assumes "servers s v = Some S" and "sv_stats_mutex S = Unlocked"
  shows "count_connection v s = Inr ((), s\<lparr>servers := (servers s)(v \<mapsto> S\<lparr>sv_total_connections := sv_total_connections S + 1\<rparr>)\<rparr>)"
  using assms by (cases S) (simp add: count_connection_def bindM_def thenM_def server_load_Some server_update_Some mutex_lock_def mutex_unlock_def returnM_def)

text \<open>A server that can accept: its socket is open and every thread of its pool is live.\<close>

definition acceptor :: "addr \<Rightarrow> reactor_server \<Rightarrow> addr \<Rightarrow> io_thread_pool \<Rightarrow> 'a srv_store_scheme \<Rightarrow> bool" where
  "acceptor v S p P s \<longleftrightarrow> servers s v = Some S \<and> sv_stats_mutex S = Unlocked \<and> sv_io_pool S = Some p \<and> sv_listen_fd S \<in> fd_open s \<and>
     iopools s p = Some P \<and> iop_wf P \<and> ip_threads P \<noteq> [] \<and> (\<forall>t \<in> set (ip_threads P). \<exists>i I. t = Some i \<and> ios s i = Some I)"

text \<open>The pipe of every thread of the pool has room for \<open>n\<close> more pointers.\<close>

definition pipes_room :: "nat \<Rightarrow> io_thread_pool \<Rightarrow> 'a srv_store_scheme \<Rightarrow> bool" where
  "pipes_room n P s \<longleftrightarrow> (\<forall>i I. Some i \<in> set (ip_threads P) \<longrightarrow> ios s i = Some I \<longrightarrow> snd (io_pipe_fd I) \<in> fd_open s \<and>
     length (pipe_buf s (pipe_peer s (snd (io_pipe_fd I)))) + POINTER_SIZE * n \<le> PIPE_CAPACITY)"

text \<open>The connections \<open>new\<close> were made and nothing else happened to the heap of connections and the open descriptors.\<close>

definition handed :: "(addr \<times> connection) list \<Rightarrow> 'a srv_store_scheme \<Rightarrow> 'a srv_store_scheme \<Rightarrow> bool" where
  "handed new s s' \<longleftrightarrow> conns s' = conns s ++ map_of new \<and> distinct (map fst new) \<and>
     (\<forall>(a, c) \<in> set new. conns s a = None \<and> c_ref_count c = 1 \<and> \<not> c_closing c) \<and> fd_open s' = fd_open s \<union> (\<lambda>x. c_fd (snd x)) ` set new"

definition held :: "(addr \<Rightarrow> nat) \<Rightarrow> (addr \<times> connection) list \<Rightarrow> addr \<Rightarrow> nat" where
  "held ext new a = (if a \<in> fst ` set new then 1 else ext a)"

lemma held_append: "held (held ext xs) ys = held ext (xs @ ys)"
  by (auto simp: held_def fun_eq_iff)

lemma held_simps [simp]: "held ext [] = ext" "held ext [(a, c)] = ext(a := 1)"
  by (auto simp: held_def fun_eq_iff)

lemma handed_append:
  assumes 1: "handed xs s s1" and 2: "handed ys s1 s2"
  shows "handed (xs @ ys) s s2"
proof -
  have c1: "conns s1 = conns s ++ map_of xs" and c2: "conns s2 = conns s1 ++ map_of ys" using 1 2 by (simp_all add: handed_def)
  have dis: "fst ` set xs \<inter> fst ` set ys = {}"
  proof (rule equals0I)
    fix a assume "a \<in> fst ` set xs \<inter> fst ` set ys"
    then obtain c where "a \<in> dom (map_of xs)" "(a, c) \<in> set ys" by (auto simp: dom_map_of_conv_image_fst)
    then have "conns s1 a \<noteq> None" "conns s1 a = None" using c1 2 by (auto simp: handed_def map_add_def split: option.splits)
    then show False by simp
  qed
  then have "map_of ys ++ map_of xs = map_of xs ++ map_of ys" by (intro map_add_comm) (simp add: dom_map_of_conv_image_fst Int_commute)
  then have "conns s2 = conns s ++ map_of (xs @ ys)" using c1 c2 by simp
  moreover have "conns s a = None" if "(a, c) \<in> set ys" for a c using that 2 c1 by (auto simp: handed_def map_add_None)
  ultimately show ?thesis using 1 2 dis by (auto simp: handed_def image_Un)
qed

fun clients :: "(errno_t + int \<times> sockaddr_in) list \<Rightarrow> int list" where
  "clients [] = []"
| "clients (Inl e # r) = (if e = EINTR then clients r else [])"
| "clients (Inr (fd, a) # r) = fd # clients r"

text \<open>The descriptors that will be handed out are different and not open.\<close>

definition fresh_script :: "(errno_t + int \<times> sockaddr_in) list \<Rightarrow> int set \<Rightarrow> bool" where
  "fresh_script xs fds \<longleftrightarrow> distinct (map fst (concat (map (\<lambda>x. case x of Inl _ \<Rightarrow> [] | Inr y \<Rightarrow> [y]) xs))) \<and>
     (\<forall>fd a. Inr (fd, a) \<in> set xs \<longrightarrow> 0 \<le> fd \<and> fd \<notin> fds)"

lemma fresh_script_tl: "fresh_script (x # xs) fds \<Longrightarrow> fresh_script xs fds"
  by (auto simp: fresh_script_def split: sum.splits)

lemma fresh_script_Inr:
  assumes "fresh_script (Inr (fd, a) # xs) fds"
  shows "0 \<le> fd" "fd \<notin> fds" "fresh_script xs (insert fd fds)"
proof -
  let ?l = "concat (map (\<lambda>x. case x of Inl _ \<Rightarrow> [] | Inr y \<Rightarrow> [y]) xs)"
  have out: "fd \<notin> fst ` set ?l" using assms by (simp add: fresh_script_def)
  have mem: "(fd, b) \<in> set ?l" if "Inr (fd, b) \<in> set xs" for b
    unfolding set_concat set_map by (rule UN_I [OF imageI [OF that]]) simp
  have no: "Inr (fd, b) \<notin> set xs" for b
  proof
    assume "Inr (fd, b) \<in> set xs"
    from imageI [OF mem [OF this], of fst] out show False by simp
  qed
  have all: "Inr (g, b) \<in> set (Inr (fd, a) # xs) \<Longrightarrow> 0 \<le> g \<and> g \<notin> fds" for g b using assms unfolding fresh_script_def by blast
  have "0 \<le> g \<and> g \<notin> insert fd fds" if "Inr (g, b) \<in> set xs" for g b
    using that no [of b] all [of g b] by (cases "g = fd") (simp_all add: list.set_intros(2))
  moreover have "distinct (map fst ?l)" using assms by (simp add: fresh_script_def)
  ultimately show "fresh_script xs (insert fd fds)" unfolding fresh_script_def by blast
  from all [of fd a] show "0 \<le> fd" "fd \<notin> fds" by simp_all
qed

text \<open>One client: it becomes a connection that is counted, or its descriptor is closed again.\<close>

lemma accept_one:
  assumes acc: "acceptor v S p P s" and inv: "sys_inv w q ext mq s" and xs: "accepts s (sv_listen_fd S) = Inr (fd, addr) # r"
    and fd: "0 \<le> fd" "fd \<notin> fd_open s"
  obtains new s1 P1 where "accept_connections ok (Suc f) v s = accept_connections ok f v s1"
    "acceptor v (S\<lparr>sv_total_connections := sv_total_connections S + int (length new)\<rparr>) p P1 s1" "ip_threads P1 = ip_threads P"
    "handed new s s1" "sys_inv w q (held ext new) mq s1" "accepts s1 (sv_listen_fd S) = r" "subseq (map (\<lambda>x. c_fd (snd x)) new) [fd]"
    "mem s = [] \<and> ok (Suc f) \<and> pipes_room (Suc n) P s \<longrightarrow> map (\<lambda>x. c_fd (snd x)) new = [fd] \<and> mem s1 = [] \<and> pipes_room n P1 s1"
proof -
  note A = acc [unfolded acceptor_def]
  let ?s1 = "s\<lparr>fd_open := insert fd (fd_open s), accepts := (accepts s)(sv_listen_fd S := r)\<rparr>"
  let ?P = "P\<lparr>ip_next_thread := (ip_next_thread P + 1) mod ip_thread_count P\<rparr>"
  let ?s2 = "?s1\<lparr>iopools := (iopools s)(p \<mapsto> ?P)\<rparr>"
  have accept: "sys_accept (sv_listen_fd S) s = Inr ((fd, addr), ?s1)" using A xs fd by (simp add: sys_accept_def)
  have get: "io_thread_pool_get_thread (Some p) ?s1 = Inr (ip_threads P ! nat (ip_next_thread P), ?s2)" "iop_wf ?P"
    using get_thread_exec [of ?s1 p P] A by simp_all
  have "ip_threads P ! nat (ip_next_thread P) \<in> set (ip_threads P)" using A by (intro nth_mem) (auto simp: iop_wf_def)
  then obtain i I where i: "ip_threads P ! nat (ip_next_thread P) = Some i" "ios s i = Some I" "Some i \<in> set (ip_threads P)" using A by metis
  have inv2: "sys_inv w q ext mq ?s2" using inv by (rule sys_inv_heap) simp_all
  have ios2: "ios ?s2 i = Some I" using i(2) by simp
  define room where "room \<longleftrightarrow> snd (io_pipe_fd I) \<in> fd_open ?s2 \<and> length (pipe_buf ?s2 (pipe_peer ?s2 (snd (io_pipe_fd I)))) + POINTER_SIZE \<le> PIPE_CAPACITY"
  define good where "good \<longleftrightarrow> ok (Suc f) \<and> False \<notin> set (take 1 (mem ?s2)) \<and> room"
  note add = add_connection_sys(2,3) [OF inv2 ios2 fd(1), folded room_def, of "ok (Suc f)" "Some addr", folded good_def]
  let ?next = "\<lambda>r'. thenM (if r' = 0 then count_connection v else bindM (sys_close fd) (\<lambda>_. returnM ())) (accept_connections ok f v)"
  have run: "accept_connections ok (Suc f) v s = bindM (io_thread_add_connection (ok (Suc f)) (Some i) fd (Some addr)) ?next ?s2"
  proof -
    have "fd \<noteq> - 1" using fd(1) by simp
    then show ?thesis
      using A i(1) by (subst accept_connections.simps) (simp add: bindM_def [of "server_load v"] server_load_Some bindM_def [of "sys_accept _"] accept bindM_def [of "io_thread_pool_get_thread _"] get(1) Let_def)
  qed
  show ?thesis
  proof (cases good)
    case True
    let ?a = "next_addr s" and ?w = "pipe_peer s (snd (io_pipe_fd I))" and ?c = "fresh_conn fd (Some addr) i (now s)"
    let ?s3 = "?s2\<lparr>pipe_buf := (pipe_buf s)(?w := pipe_buf s ?w @ ptr_cells ?a), next_addr := Suc ?a, mem := drop 1 (mem s), conns := (conns s)(?a \<mapsto> ?c)\<rparr>"
    let ?S = "S\<lparr>sv_total_connections := sv_total_connections S + 1\<rparr>"
    let ?s4 = "?s3\<lparr>servers := (servers s)(v \<mapsto> ?S)\<rparr>"
    from add(1) [OF True] have s3: "io_thread_add_connection (ok (Suc f)) (Some i) fd (Some addr) ?s2 = Inr (0, ?s3)" "sys_inv w q (ext(?a := 1)) mq ?s3" by simp_all
    have "count_connection v ?s3 = Inr ((), ?s4)" using count_connection_exec [of ?s3 v S] A by simp
    then have "accept_connections ok (Suc f) v s = accept_connections ok f v ?s4" unfolding run using s3(1) by (simp add: bindM_def [of "io_thread_add_connection _ _ _ _"] thenM_Inr)
    moreover have "acceptor v ?S p ?P ?s4" using A get(2) by (simp add: acceptor_def)
    moreover have "conns s ?a = None" using task_ownedD(2) [OF io_ownedD(1) [OF sys_invD(1) [OF inv]]] by (simp add: heap_fresh_def)
    then have "handed [(?a, ?c)] s ?s4" by (simp add: handed_def)
    moreover have "sys_inv w q (held ext [(?a, ?c)]) mq ?s4" unfolding held_simps using s3(2) by (rule sys_inv_heap) simp_all
    moreover have "pipes_room n ?P ?s4" if "pipes_room (Suc n) P s"
      using that by (auto simp: pipes_room_def POINTER_SIZE_def length_ptr_cells)
    moreover have "accepts ?s4 (sv_listen_fd S) = r" "mem s = [] \<Longrightarrow> mem ?s4 = []" "ip_threads ?P = ip_threads P" by simp_all
    moreover have "map (\<lambda>x. c_fd (snd x)) [(?a, ?c)] = [fd]" "S\<lparr>sv_total_connections := sv_total_connections S + int (length [(?a, ?c)])\<rparr> = ?S" by simp_all
    ultimately show ?thesis using that [of ?s4 "[(?a, ?c)]" ?P] by (metis (no_types) subseq_order.order_refl)
  next
    case False
    from add(2) [OF False] obtain s3 where s3: "io_thread_add_connection (ok (Suc f)) (Some i) fd (Some addr) ?s2 = Inr (- 1, s3)" "sys_inv w q ext mq s3"
      "conns s3 = conns s" "ios s3 = ios s" "accepts s3 = accepts ?s1" "io_store.more s3 = io_store.more ?s2" "fd_open s3 - {fd} = fd_open s"
      using fd(2) by (auto split: if_splits)
    have more: "iopools s3 = iopools ?s2" "servers s3 = servers s" using s3(6) by (cases s3; cases s; simp)+
    let ?s4 = "after_close fd s3"
    have fr: "conns ?s4 = conns s" "ios ?s4 = ios s" "accepts ?s4 = accepts ?s1" "iopools ?s4 = iopools ?s2" "servers ?s4 = servers s" "fd_open ?s4 = fd_open s"
      using s3 more by (auto simp: after_close_def)
    have "accept_connections ok (Suc f) v s = accept_connections ok f v ?s4"
      unfolding run using s3(1) by (simp add: bindM_def [of "io_thread_add_connection _ _ _ _"] thenM_def bindM_def sys_close_def returnM_def)
    moreover have "acceptor v S p ?P ?s4" using A get(2) fr by (simp add: acceptor_def)
    moreover have "handed [] s ?s4" using fr by (simp add: handed_def)
    moreover have "sys_inv w q (held ext []) mq ?s4" unfolding held_simps using s3(2) by (rule sys_inv_kernel) (simp_all add: after_close_def)
    moreover have "\<not> (mem s = [] \<and> ok (Suc f) \<and> pipes_room (Suc n) P s)"
      using False i(2,3) by (auto simp: good_def room_def pipes_room_def)
    ultimately show ?thesis using that [of ?s4 "[]" ?P] fr(3) by simp
  qed
qed

section \<open>Correctness\<close>

lemma accept_stops:
  assumes acc: "acceptor v S p P s" and run: "accept_connections ok fuel v s = Inr ((), s1)" and s1: "s1 = s\<lparr>errno := e, accepts := x\<rparr>" and inv: "sys_inv w q ext mq s"
  shows "acceptor v S p P s1 \<and> handed [] s s1 \<and> sys_inv w q (held ext []) mq s1"
proof -
  have "sys_inv w q ext mq s1" unfolding s1 using inv by (rule sys_inv_heap) simp_all
  with acc show ?thesis unfolding s1 by (simp add: acceptor_def handed_def)
qed

lemma accept_all:
  "acceptor v S p P s \<Longrightarrow> sys_inv w q ext mq s \<Longrightarrow> accepts s (sv_listen_fd S) = xs \<Longrightarrow> fresh_script xs (fd_open s) \<Longrightarrow> length xs \<le> fuel \<Longrightarrow>
   \<exists>s' P' new. accept_connections ok fuel v s = Inr ((), s') \<and>
     acceptor v (S\<lparr>sv_total_connections := sv_total_connections S + int (length new)\<rparr>) p P' s' \<and> ip_threads P' = ip_threads P \<and>
     handed new s s' \<and> sys_inv w q (held ext new) mq s' \<and> subseq (map (\<lambda>x. c_fd (snd x)) new) (clients xs) \<and>
     (mem s = [] \<and> (\<forall>n. ok n) \<and> pipes_room (length xs) P s \<longrightarrow> map (\<lambda>x. c_fd (snd x)) new = clients xs)"
proof (induction xs arbitrary: s S P ext fuel)
  case Nil
  have S: "servers s v = Some S" "sv_listen_fd S \<in> fd_open s" using Nil.prems(1) by (simp_all add: acceptor_def)
  have run: "accept_connections ok fuel v s = Inr ((), s\<lparr>errno := EAGAIN, accepts := accepts s\<rparr>)"
    using S Nil.prems(3) by (subst accept_connections.simps) (simp add: bindM_def server_load_Some sys_accept_def getM_def returnM_def)
  from accept_stops [OF Nil.prems(1) run refl Nil.prems(2)] run show ?case by (intro exI [of _ "[]"] exI conjI) auto
next
  case (Cons x xs)
  note acc = Cons.prems(1) and inv = Cons.prems(2) and scr = Cons.prems(3) and fresh = Cons.prems(4) and fuel = Cons.prems(5)
  have S: "servers s v = Some S" "sv_listen_fd S \<in> fd_open s" using acc by (simp_all add: acceptor_def)
  obtain f where f: "fuel = Suc f" "length xs \<le> f" using fuel by (cases fuel) auto
  show ?case
  proof (cases x)
    case (Inl e)
    let ?s = "s\<lparr>errno := e, accepts := (accepts s)(sv_listen_fd S := xs)\<rparr>"
    have run: "accept_connections ok fuel v s = (if e = EINTR then accept_connections ok f v ?s else Inr ((), ?s))"
      using S scr Inl f(1) by (subst accept_connections.simps) (simp add: bindM_def server_load_Some sys_accept_def getM_def returnM_def)
    show ?thesis
    proof (cases "e = EINTR")
      case True
      have inv1: "sys_inv w q ext mq ?s" using inv by (rule sys_inv_heap) simp_all
      have acc1: "acceptor v S p P ?s" using acc by (simp add: acceptor_def)
      have "fresh_script xs (fd_open ?s)" using fresh_script_tl [OF fresh] by simp
      from Cons.IH [OF acc1 inv1 _ this f(2)] obtain s' P' new where "accept_connections ok f v ?s = Inr ((), s')"
        "acceptor v (S\<lparr>sv_total_connections := sv_total_connections S + int (length new)\<rparr>) p P' s'" "ip_threads P' = ip_threads P"
        "handed new ?s s'" "sys_inv w q (held ext new) mq s'" "subseq (map (\<lambda>x. c_fd (snd x)) new) (clients xs)"
        "mem s = [] \<and> (\<forall>n. ok n) \<and> pipes_room (length xs) P ?s \<longrightarrow> map (\<lambda>x. c_fd (snd x)) new = clients xs" by auto
      moreover from this(4) have "handed new s s'" by (simp add: handed_def)
      moreover have "pipes_room (length (x # xs)) P s \<Longrightarrow> pipes_room (length xs) P ?s" by (fastforce simp: pipes_room_def)
      moreover have "clients (x # xs) = clients xs" using Inl True by simp
      ultimately show ?thesis unfolding run using True by (intro exI [of _ s'] exI [of _ P'] exI [of _ new]) simp
    next
      case False
      then have run': "accept_connections ok fuel v s = Inr ((), ?s)" using run by simp
      have "clients (x # xs) = []" using Inl False by simp
      with accept_stops [OF acc run' refl inv] run' show ?thesis by (intro exI [of _ ?s] exI [of _ P] exI [of _ "[]"]) simp
    qed
  next
    case (Inr y)
    obtain fd addr where y: "y = (fd, addr)" by (cases y)
    note fd = fresh_script_Inr [OF fresh [unfolded Inr y]]
    obtain n1 s1 P1 where
      1: "accept_connections ok (Suc f) v s = accept_connections ok f v s1"
      "acceptor v (S\<lparr>sv_total_connections := sv_total_connections S + int (length n1)\<rparr>) p P1 s1" "ip_threads P1 = ip_threads P"
      "handed n1 s s1" "sys_inv w q (held ext n1) mq s1" "accepts s1 (sv_listen_fd S) = xs" "subseq (map (\<lambda>x. c_fd (snd x)) n1) [fd]"
      "mem s = [] \<and> ok (Suc f) \<and> pipes_room (Suc (length xs)) P s \<longrightarrow> map (\<lambda>x. c_fd (snd x)) n1 = [fd] \<and> mem s1 = [] \<and> pipes_room (length xs) P1 s1"
      by (rule accept_one [OF acc inv scr [unfolded Inr y] fd(1,2), where ok = ok and f = f and n = "length xs"]) (rule that; assumption)
    let ?S = "S\<lparr>sv_total_connections := sv_total_connections S + int (length n1)\<rparr>"
    have "c_fd (snd x) = fd" if "x \<in> set n1" for x
    proof -
      have "c_fd (snd x) \<in> set (map (\<lambda>x. c_fd (snd x)) n1)" using that by simp
      from list_emb_set [OF 1(7) this] show ?thesis by simp
    qed
    then have "fd_open s1 \<subseteq> insert fd (fd_open s)" using 1(4) by (auto simp: handed_def)
    then have fresh1: "fresh_script xs (fd_open s1)" using fd(3) by (auto simp: fresh_script_def)
    have scr1: "accepts s1 (sv_listen_fd ?S) = xs" using 1(6) by simp
    from Cons.IH [OF 1(2,5) scr1 fresh1 f(2)] obtain s' P' n2 where 2: "accept_connections ok f v s1 = Inr ((), s')"
      "acceptor v (?S\<lparr>sv_total_connections := sv_total_connections ?S + int (length n2)\<rparr>) p P' s'" "ip_threads P' = ip_threads P1"
      "handed n2 s1 s'" "sys_inv w q (held (held ext n1) n2) mq s'" "subseq (map (\<lambda>x. c_fd (snd x)) n2) (clients xs)"
      "mem s1 = [] \<and> (\<forall>n. ok n) \<and> pipes_room (length xs) P1 s1 \<longrightarrow> map (\<lambda>x. c_fd (snd x)) n2 = clients xs" by blast
    have "subseq (map (\<lambda>x. c_fd (snd x)) (n1 @ n2)) (clients (x # xs))"
      using list_emb_append_mono [OF 1(7) 2(6)] Inr y by simp
    moreover have "mem s = [] \<and> (\<forall>n. ok n) \<and> pipes_room (length (x # xs)) P s \<longrightarrow> map (\<lambda>x. c_fd (snd x)) (n1 @ n2) = clients (x # xs)"
      using 1(8) 2(7) Inr y by simp
    moreover have "?S\<lparr>sv_total_connections := sv_total_connections ?S + int (length n2)\<rparr> = S\<lparr>sv_total_connections := sv_total_connections S + int (length (n1 @ n2))\<rparr>"
      by simp
    ultimately show ?thesis using 1(1,3) 2(1-3,5) f(1) handed_append [OF 1(4) 2(4)] held_append [of ext n1 n2]
      by (intro exI [of _ s'] exI [of _ P'] exI [of _ "n1 @ n2"]) (simp only: simp_thms)
  qed
qed

text \<open>
  C40. \<open>accept_connections\<close> comes to an end without a fault, with as much fuel as there are connections and errors waiting at the socket, and loses no client: every
  client it accepts before the first error other than an interrupted call has either become a connection of its own, held once,
  open and handed to an I/O thread, or its descriptor is closed again, and \<open>total_connections\<close> grows by exactly the number of the former. If memory and the pipes
  allow it, all clients become connections, in order. The invariant of the server and the pool of threads are kept.
\<close>

theorem accept_connections_lossless:
  assumes "acceptor v S p P s" and "sys_inv w q ext mq s" and "fresh_script (accepts s (sv_listen_fd S)) (fd_open s)" and "length (accepts s (sv_listen_fd S)) \<le> fuel"
  shows "\<exists>s' P' new. accept_connections ok fuel v s = Inr ((), s') \<and>
     acceptor v (S\<lparr>sv_total_connections := sv_total_connections S + int (length new)\<rparr>) p P' s' \<and> ip_threads P' = ip_threads P \<and>
     handed new s s' \<and> sys_inv w q (held ext new) mq s' \<and> subseq (map (\<lambda>x. c_fd (snd x)) new) (clients (accepts s (sv_listen_fd S))) \<and>
     (mem s = [] \<and> (\<forall>n. ok n) \<and> pipes_room (length (accepts s (sv_listen_fd S))) P s \<longrightarrow>
        map (\<lambda>x. c_fd (snd x)) new = clients (accepts s (sv_listen_fd S)))"
  using accept_all [OF assms(1,2) refl assms(3,4)] .

section \<open>A concrete server\<close>

definition demo_server :: reactor_server where
  "demo_server = \<lparr>sv_listen_fd = 20, sv_port = 8080, sv_worker_pool = Some 60, sv_io_pool = Some 95, sv_main_event_loop = None, sv_running = True,
     sv_total_connections = 7, sv_stats_mutex = Unlocked\<rparr>"

definition demo_srv_pool :: io_thread_pool where
  "demo_srv_pool = \<lparr>ip_threads = [Some 80], ip_thread_count = 1, ip_next_thread = 0, ip_mutex = Unlocked, ip_worker_pool = Some 60\<rparr>"

definition demo_srv_store :: srv_store where
  "demo_srv_store = (iop_store.extend (io_store.extend demo_idle_store \<lparr>iopools = [95 \<mapsto> demo_srv_pool]\<rparr>)
       \<lparr>servers = [96 \<mapsto> demo_server], g_shutdown = False, signals = []\<rparr>)
     \<lparr>fd_open := insert 20 (fd_open demo_idle_store), accepts := (\<lambda>_. []) (20 := [Inr (30, 0, 0), Inl EINTR, Inr (31, 0, 0)])\<rparr>"

lemma demo_srv_fields:
  "loops demo_srv_store = loops demo_idle_store" "conns demo_srv_store = conns demo_idle_store" "tasks demo_srv_store = tasks demo_idle_store"
  "queues demo_srv_store = queues demo_idle_store" "pools demo_srv_store = pools demo_idle_store" "msgs demo_srv_store = msgs demo_idle_store"
  "ios demo_srv_store = ios demo_idle_store" "next_addr demo_srv_store = next_addr demo_idle_store" "fd_open demo_srv_store = insert 20 (fd_open demo_idle_store)"
  "accepts demo_srv_store 20 = [Inr (30, 0, 0), Inl EINTR, Inr (31, 0, 0)]" "servers demo_srv_store = [96 \<mapsto> demo_server]"
  "iopools demo_srv_store = [95 \<mapsto> demo_srv_pool]" "mem demo_srv_store = mem demo_idle_store" "pipe_buf demo_srv_store = pipe_buf demo_idle_store"
  "pipe_peer demo_srv_store = pipe_peer demo_idle_store"
  by (simp_all add: demo_srv_store_def iop_store.extend_def io_store.extend_def)

lemma demo_srv_acceptor: "acceptor 96 demo_server 95 demo_srv_pool demo_srv_store"
  by (simp add: acceptor_def demo_srv_fields demo_server_def demo_srv_pool_def iop_wf_def)

lemma demo_srv_room: "pipes_room 3 demo_srv_pool demo_srv_store"
  by (simp add: pipes_room_def demo_srv_fields demo_srv_pool_def demo_idle_io_def demo_io_thread_def POINTER_SIZE_def PIPE_CAPACITY_def)

theorem accept_connections_lossless_witness:
  "\<exists>s' new. accept_connections (\<lambda>_. True) 3 96 demo_srv_store = Inr ((), s') \<and> handed new demo_srv_store s' \<and> map (\<lambda>x. c_fd (snd x)) new = [30, 31]"
proof -
  have inv: "sys_inv 60 50 demo_ext (\<lambda>_. []) demo_srv_store" using demo_idle_inv by (rule sys_inv_heap) (simp_all add: demo_srv_fields)
  have "fresh_script (accepts demo_srv_store (sv_listen_fd demo_server)) (fd_open demo_srv_store)" "length (accepts demo_srv_store (sv_listen_fd demo_server)) = 3"
    "clients (accepts demo_srv_store (sv_listen_fd demo_server)) = [30, 31]" "mem demo_srv_store = []"
    by (auto simp: demo_server_def demo_srv_fields fresh_script_def)
  from accept_connections_lossless [OF demo_srv_acceptor inv this(1), of 3 "\<lambda>_. True", unfolded this(2-4), OF order_refl] demo_srv_room show ?thesis
    by (elim exE conjE) (intro exI conjI, assumption, assumption, simp)
qed

end
