(* ===== verification/Startup.thy ===== *)
theory Startup
  imports Reactor Server
begin

text \<open>
  From \<open>server_create\<close> to the running server. Creation is composed of the creation of the worker pool, the I/O threads and the main event loop; it
  either leaves a server that satisfies the invariant of \<open>Reactor\<close> and can accept connections, or gives back all it had made.
\<close>

section \<open>Threads that have nothing to do\<close>

definition thread_loop :: "'a io_store_scheme \<Rightarrow> addr \<Rightarrow> ptr" where
  "thread_loop s i = (case ios s i of None \<Rightarrow> None | Some I \<Rightarrow> io_event_loop I)"

text \<open>The I/O threads are those of \<open>T\<close>, and the event loops are theirs, one each.\<close>

definition built :: "addr list \<Rightarrow> 'a io_store_scheme \<Rightarrow> bool" where
  "built T s \<longleftrightarrow> distinct T \<and> dom (ios s) = set T \<and> inj_on (thread_loop s) (set T) \<and> Some ` dom (loops s) = thread_loop s ` set T \<and>
     (\<forall>l L. loops s l = Some L \<longrightarrow> loop_typed L)"

definition io_ends :: "io_thread \<Rightarrow> int set" where
  "io_ends I = {fst (io_pipe_fd I), snd (io_pipe_fd I), fst (io_msg_pipe_fd I), snd (io_msg_pipe_fd I)}"

definition idle_thread :: "addr \<Rightarrow> 'a io_store_scheme \<Rightarrow> addr \<Rightarrow> io_thread \<Rightarrow> bool" where
  "idle_thread w s i I \<longleftrightarrow> msg_abs s i [] \<and> io_live s i \<and> io_worker_pool I = Some w \<and> io_stats_mutex I = Unlocked \<and>
     distinct [fst (io_pipe_fd I), snd (io_pipe_fd I), fst (io_msg_pipe_fd I), snd (io_msg_pipe_fd I)] \<and> io_ends I \<subseteq> fd_open s \<and>
     pipe_peer s (snd (io_pipe_fd I)) = fst (io_pipe_fd I) \<and> pipe_peer s (snd (io_msg_pipe_fd I)) = fst (io_msg_pipe_fd I) \<and>
     pipe_buf s (fst (io_pipe_fd I)) = []"

definition idle :: "addr \<Rightarrow> 'a io_store_scheme \<Rightarrow> bool" where
  "idle w s \<longleftrightarrow> (\<forall>i I. ios s i = Some I \<longrightarrow> idle_thread w s i I) \<and>
     (\<forall>i j I J. ios s i = Some I \<longrightarrow> ios s j = Some J \<longrightarrow> i \<noteq> j \<longrightarrow> io_ends I \<inter> io_ends J = {})"

definition ios_fresh :: "'a io_store_scheme \<Rightarrow> bool" where
  "ios_fresh s \<longleftrightarrow> (\<forall>a \<ge> next_addr s. loops s a = None \<and> ios s a = None)"

lemma msg_abs_empty: "msg_abs s i [] \<longleftrightarrow> (\<exists>I. ios s i = Some I \<and> io_msg_queue_mutex I = Unlocked \<and> io_msg_queue_head I = None \<and> io_msg_queue_tail I = None)"
  by (cases "ios s i") (simp_all add: msg_abs_at_def)

lemma io_live_iff: "io_live s i \<longleftrightarrow> (\<exists>I l. ios s i = Some I \<and> io_event_loop I = Some l \<and> loops s l \<noteq> None)"
  by (auto simp: io_live_def split: option.splits)

lemma built_created:
  assumes "built T s" and "thread_created ix p s i s'"
  shows "built (T @ [i]) s'"
proof -
  obtain I l L where c: "ios s i = None" "ios s' = (ios s)(i \<mapsto> I)" "io_event_loop I = Some l" "loops s l = None"
      "loops s' = (loops s)(l \<mapsto> L)" "loop_typed L"
    using assms(2) unfolding thread_created_def by blast
  have T: "distinct T" "dom (ios s) = set T" "inj_on (thread_loop s) (set T)" "Some ` dom (loops s) = thread_loop s ` set T"
      "\<And>l L. loops s l = Some L \<Longrightarrow> loop_typed L"
    using assms(1) by (simp_all add: built_def)
  have i: "i \<notin> set T" using T(2) c(1) by auto
  have old: "thread_loop s' j = thread_loop s j" if "j \<in> set T" for j using that i c(2) by (auto simp: thread_loop_def)
  have new: "thread_loop s' i = Some l" using c(2,3) by (simp add: thread_loop_def)
  have l: "Some l \<notin> thread_loop s ` set T" using T(4) c(4) by (metis (no_types) domIff imageE option.inject)
  have "inj_on (thread_loop s') (set T) = inj_on (thread_loop s) (set T)" by (rule inj_on_cong) (rule old)
  moreover have "thread_loop s' ` set T = thread_loop s ` set T" by (rule image_cong) (simp_all add: old)
  ultimately have "inj_on (thread_loop s') (set T)" "thread_loop s' ` set T = thread_loop s ` set T" using T(3) by simp_all
  then have "inj_on (thread_loop s') (set (T @ [i]))" "thread_loop s' ` set (T @ [i]) = insert (Some l) (thread_loop s ` set T)"
    using i l new by simp_all
  moreover have "Some ` dom (loops s') = insert (Some l) (thread_loop s ` set T)" using c(5) T(4) by simp
  moreover have "loop_typed K" if "loops s' k = Some K" for k K using that c(5,6) T(5) by (auto split: if_splits)
  ultimately show ?thesis using T(1,2) i c(2) by (simp add: built_def)
qed

lemma idle_created:
  assumes "idle w s" and "thread_created ix (Some w) s i s'"
  shows "idle w s'"
proof -
  obtain I l L pr pw mr mw where c: "ios s i = None" "ios s' = (ios s)(i \<mapsto> I)" "io_live s' i" "msg_abs s' i []" "loops s l = None"
      "loops s' = (loops s)(l \<mapsto> L)" "io_worker_pool I = Some w" "io_stats_mutex I = Unlocked" "io_pipe_fd I = (pr, pw)" "io_msg_pipe_fd I = (mr, mw)"
      "distinct [pr, pw, mr, mw]" "{pr, pw, mr, mw} \<inter> fd_open s = {}" "fd_open s \<union> {pr, pw, mr, mw} \<subseteq> fd_open s'"
      "pipe_peer s' = (pipe_peer s)(pw := pr, mw := mr)" "pipe_buf s' = (pipe_buf s)(pr := [], mr := [])"
    using assms(2) unfolding thread_created_def by (elim exE conjE) (rule that; assumption)
  have new: "idle_thread w s' i I" "io_ends I \<inter> fd_open s = {}" using c by (simp_all add: idle_thread_def io_ends_def)
  have old: "idle_thread w s' j J" "io_ends J \<subseteq> fd_open s" if "ios s j = Some J" for j J
  proof -
    have j: "idle_thread w s j J" "j \<noteq> i" using assms(1) that c(1) by (auto simp: idle_def)
    then show ends: "io_ends J \<subseteq> fd_open s" by (simp add: idle_thread_def)
    have "ios s' j = Some J" "\<And>k. loops s k \<noteq> None \<Longrightarrow> loops s' k \<noteq> None" using that j(2) c(2,6) by simp_all
    then have "msg_abs s' j []" "io_live s' j" using j(1) that by (auto simp: idle_thread_def msg_abs_empty io_live_iff)
    moreover have "pr \<notin> io_ends J" "pw \<notin> io_ends J" "mr \<notin> io_ends J" "mw \<notin> io_ends J" using ends c(12) by auto
    ultimately show "idle_thread w s' j J" using j(1) ends c(13-15) by (auto simp: idle_thread_def io_ends_def)
  qed
  have "io_ends J \<inter> io_ends K = {}" if "ios s' j = Some J" "ios s' k = Some K" "j \<noteq> k" for j k J K
  proof (cases "j = i \<or> k = i")
    case True
    with that c(2) new(2) old(2) [of j J] old(2) [of k K] show ?thesis by (auto split: if_splits)
  next
    case False
    with that c(2) assms(1) show ?thesis unfolding idle_def by auto
  qed
  moreover have "idle_thread w s' j J" if "ios s' j = Some J" for j J
    using that c(2) new(1) old(1) [of j J] by (auto split: if_splits)
  ultimately show ?thesis unfolding idle_def by blast
qed

lemma idle_mono:
  assumes "idle w s" and "ios s' = ios s" and "loops s \<subseteq>\<^sub>m loops s'" and "fd_open s \<subseteq> fd_open s'" and "pipe_peer s' = pipe_peer s" and "pipe_buf s' = pipe_buf s"
  shows "idle w s'"
proof -
  have "msg_abs s' i []" if "msg_abs s i []" for i using that assms(2) by (simp add: msg_abs_empty)
  moreover have "io_live s' i" if "io_live s i" for i
    using that assms(2) map_le_implies_dom_le [OF assms(3)] by (auto simp: io_live_iff domD)
  ultimately show ?thesis using assms(1,2,4-6) unfolding idle_def idle_thread_def by (simp, blast)
qed

section \<open>Creating and destroying the I/O threads\<close>

text \<open>A thread that is told to stop ends, and does nothing to the heap on the way: it has nothing to do.\<close>

definition join_quiet :: "(addr \<Rightarrow> ('a io_store_scheme, unit) cmd) \<Rightarrow> bool" where
  "join_quiet join \<longleftrightarrow> (\<forall>i t. okM (join i) t (\<lambda>_ t'. ios t' = ios t \<and> loops t' = loops t \<and> heap_rest t' = heap_rest t))"

lemma built_head:
  assumes "built (i # T) s"
  obtains I l L where "ios s i = Some I" "io_event_loop I = Some l" "loops s l = Some L" "loop_typed L"
proof -
  have b: "dom (ios s) = insert i (set T)" "Some ` dom (loops s) = thread_loop s ` insert i (set T)" "\<forall>l L. loops s l = Some L \<longrightarrow> loop_typed L"
    using assms by (simp_all add: built_def)
  then obtain I where I: "ios s i = Some I" by blast
  have "thread_loop s i \<in> Some ` dom (loops s)" unfolding b(2) by simp
  then obtain l L where "thread_loop s i = Some l" "loops s l = Some L" by blast
  with that I b(3) show ?thesis by (auto simp: thread_loop_def)
qed

lemma built_tail:
  assumes b: "built (i # T) s" and I: "ios s i = Some I" "io_event_loop I = Some l"
    and s': "ios s' = (ios s)(i := None)" "loops s' = (loops s)(l := None)"
  shows "built T s'"
proof -
  have T: "i \<notin> set T" "distinct T" "dom (ios s) = insert i (set T)" "inj_on (thread_loop s) (insert i (set T))"
    "Some ` dom (loops s) = thread_loop s ` insert i (set T)" "\<forall>l L. loops s l = Some L \<longrightarrow> loop_typed L"
    using b by (simp_all add: built_def del: inj_on_insert)
  have old: "thread_loop s' j = thread_loop s j" if "j \<in> set T" for j using that T(1) s'(1) by (auto simp: thread_loop_def)
  have l: "thread_loop s i = Some l" using I by (simp add: thread_loop_def)
  have "inj_on (thread_loop s') (set T) = inj_on (thread_loop s) (set T)" by (rule inj_on_cong) (rule old)
  then have "inj_on (thread_loop s') (set T)" using T(4) by (simp add: inj_on_insert)
  moreover have "thread_loop s' ` set T = thread_loop s ` set T" by (rule image_cong) (simp_all add: old)
  moreover have "Some l \<notin> thread_loop s ` set T" using T(1,4) l by (simp add: inj_on_insert)
  moreover have "Some ` dom (loops s') = Some ` dom (loops s) - {Some l}" unfolding s'(2) by auto
  ultimately have "inj_on (thread_loop s') (set T)" "Some ` dom (loops s') = thread_loop s' ` set T" using T(5) l by simp_all
  moreover have "\<forall>k K. loops s' k = Some K \<longrightarrow> loop_typed K" using T(6) s'(2) by simp
  ultimately show ?thesis using T(1-3) s'(1) by (simp add: built_def)
qed

lemma built_destroy:
  assumes "built (i # T) s" and "join_quiet join"
  shows "okM (io_thread_destroy join (Some i)) s (\<lambda>_ s'. built T s' \<and> heap_rest s' = heap_rest s)"
proof -
  obtain I l L where I: "ios s i = Some I" "io_event_loop I = Some l" "loops s l = Some L" "loop_typed L" using built_head [OF assms(1)] .
  show ?thesis
  proof (rule okM_destroy_thread [OF I, where P = "\<lambda>t'. heap_rest t' = heap_rest s"], goal_cases)
    case (1 t)
    have "okM (join i) t (\<lambda>_ t'. ios t' = ios t \<and> loops t' = loops t \<and> heap_rest t' = heap_rest t)" using assms(2) by (simp add: join_quiet_def)
    then show ?case by (rule okM_mono) (use 1 in simp)
  next
    case (2 t' s')
    then show ?case using built_tail [OF assms(1) I(1,2)] by simp
  qed
qed

lemma destroy_threads_ok:
  assumes "join_quiet join"
  shows "built T s \<Longrightarrow> okM (destroy_threads join (map Some T)) s (\<lambda>_ s'. ios s' = Map.empty \<and> loops s' = Map.empty \<and> heap_rest s' = heap_rest s)"
proof (induction T arbitrary: s)
  case Nil
  then show ?case by (simp add: built_def okM_basic)
next
  case (Cons i T)
  show ?case
    unfolding list.map destroy_threads.simps okM_then
    by (rule okM_mono [OF built_destroy [OF Cons.prems assms]]) (use Cons.IH in \<open>fastforce intro: okM_mono\<close>)
qed

text \<open>All threads are made, or none is left.\<close>

lemma create_threads_ok:
  assumes "join_quiet join"
  shows "built T s \<Longrightarrow> idle w s \<Longrightarrow> ios_fresh s \<Longrightarrow> okM (create_threads be spawn join (Some w) k (map Some T)) s (\<lambda>r s'. heap_rest s' = heap_rest s \<and>
     (case r of None \<Rightarrow> ios s' = Map.empty \<and> loops s' = Map.empty
      | Some ts \<Rightarrow> next_addr s \<le> next_addr s' \<and> fd_open s \<subseteq> fd_open s' \<and> ios_fresh s' \<and> idle w s' \<and>
          (\<exists>T'. length T' = k \<and> ts = map Some (T @ T') \<and> built (T @ T') s')))"
proof (induction k arbitrary: T s)
  case 0
  then show ?case by (simp add: okM_basic)
next
  case (Suc k)
  have fresh: "\<forall>a. next_addr s \<le> a \<longrightarrow> loops s a = None \<and> ios s a = None" using Suc.prems(3) by (simp add: ios_fresh_def)
  show ?case
    unfolding create_threads.simps okM_bind
  proof (rule okM_mono [OF io_thread_create_ok [OF fresh]], goal_cases)
    case (1 p s1)
    show ?case
    proof (cases p)
      case None
      with 1 have "built T s1" "heap_rest s1 = heap_rest s"
        using Suc.prems(1) by (simp_all add: thread_undone_def built_def thread_loop_def [abs_def])
      from destroy_threads_ok [OF assms this(1)] this(2) None show ?thesis by (auto simp: okM_then okM_basic intro: okM_mono)
    next
      case (Some i)
      with 1 have c: "thread_created (int (length (map Some T))) (Some w) s i s1" by simp
      then have rest: "heap_rest s1 = heap_rest s" "next_addr s \<le> next_addr s1" "fd_open s \<subseteq> fd_open s1" "ios_fresh s1"
        using fresh unfolding thread_created_def ios_fresh_def by auto
      have "okM (create_threads be spawn join (Some w) k (map Some (T @ [i]))) s1 (\<lambda>r s'. heap_rest s' = heap_rest s1 \<and>
        (case r of None \<Rightarrow> ios s' = Map.empty \<and> loops s' = Map.empty
         | Some ts \<Rightarrow> next_addr s1 \<le> next_addr s' \<and> fd_open s1 \<subseteq> fd_open s' \<and> ios_fresh s' \<and> idle w s' \<and>
            (\<exists>T'. length T' = k \<and> ts = map Some ((T @ [i]) @ T') \<and> built ((T @ [i]) @ T') s')))"
        by (rule Suc.IH [OF built_created [OF Suc.prems(1) c] idle_created [OF Suc.prems(2) c] rest(4)])
      then show ?thesis
        unfolding Some
        by (simp add: rest(1), elim okM_mono)
           (use rest in \<open>fastforce split: option.splits intro: exI [of _ "i # _"]\<close>)
    qed
  qed
qed

section \<open>Giving everything back\<close>

definition no_objects :: "'a srv_store_scheme \<Rightarrow> bool" where
  "no_objects s \<longleftrightarrow> conns s = Map.empty \<and> tasks s = Map.empty \<and> queues s = Map.empty \<and> pools s = Map.empty \<and> msgs s = Map.empty \<and>
     ios s = Map.empty \<and> iopools s = Map.empty \<and> loops s = Map.empty \<and> servers s = Map.empty"

text \<open>The server at \<open>v\<close> with its worker pool at \<open>w\<close>, whose queue at \<open>q\<close> is empty.\<close>

definition stocked :: "addr \<Rightarrow> reactor_server \<Rightarrow> addr \<Rightarrow> addr \<Rightarrow> 'a srv_store_scheme \<Rightarrow> bool" where
  "stocked v S w q s \<longleftrightarrow> servers s = [v \<mapsto> S] \<and> conns s = Map.empty \<and> tasks s = Map.empty \<and> msgs s = Map.empty \<and> queues s = [q \<mapsto> empty_queue 2000] \<and>
     (\<exists>W. pools s = [w \<mapsto> W] \<and> p_task_queue W = Some q \<and> p_stats_mutex W = Unlocked \<and> \<not> p_shutdown W)"

lemma heap_rest_srv:
  fixes s s' :: "'a srv_store_scheme"
  assumes "heap_rest s' = heap_rest s"
  shows "conns s' = conns s" "tasks s' = tasks s" "queues s' = queues s" "pools s' = pools s" "msgs s' = msgs s" "iopools s' = iopools s" "servers s' = servers s"
  using assms by (cases s; cases s'; simp add: heap_rest_def)+

lemma stocked_rest:
  assumes "heap_rest s' = heap_rest s" and "stocked v S w q s"
  shows "stocked v S w q s'"
  using assms(2) unfolding stocked_def heap_rest_srv [OF assms(1)] .

lemma stocked_pool: "stocked v S w q s \<Longrightarrow> pool_abs s w q \<lparr>b_items = [], b_max = 2000, b_shutdown = False\<rparr>"
  by (auto simp: stocked_def pool_abs_def queue_abs_def empty_queue_def)

lemma okM_server:
  "okM (server_load v) s Q = (case servers s v of None \<Rightarrow> False | Some S \<Rightarrow> Q S s)"
  "okM (server_update v f) s R = (case servers s v of None \<Rightarrow> False | Some S \<Rightarrow> R () (s\<lparr>servers := (servers s)(v \<mapsto> f S)\<rparr>))"
  "okM (server_free v) s R = (servers s v \<noteq> None \<and> R () (s\<lparr>servers := (servers s)(v := None)\<rparr>))"
  by (auto simp: okM_def server_load_def server_update_def server_free_def derefM_def bindM_def modifyM_def split: option.splits)

lemma okM_iop:
  "okM (iop_load p) s Q = (case iopools s p of None \<Rightarrow> False | Some P \<Rightarrow> Q P s)"
  "okM (iop_update p f) s R = (case iopools s p of None \<Rightarrow> False | Some P \<Rightarrow> R () (s\<lparr>iopools := (iopools s)(p \<mapsto> f P)\<rparr>))"
  by (auto simp: okM_def iop_load_def iop_update_def derefM_def bindM_def modifyM_def split: option.splits)

lemma drop_server:
  assumes "no_objects (s\<lparr>servers := Map.empty\<rparr>)" and "servers s = [v \<mapsto> S]"
  shows "okM (server_close_free v) s (\<lambda>r s'. r = None \<and> no_objects s' \<and> sv_listen_fd S \<notin> fd_open s')"
  using assms by (simp add: server_close_free_def okM_server wp) (simp add: no_objects_def after_close_def)

lemma drop_worker_pool:
  assumes "stocked v S w q s" and "ios s = Map.empty" "loops s = Map.empty" "iopools s = Map.empty" and "\<And>i s. join i s = Inr ((), s)"
  shows "okM (thread_pool_destroy join fuel (Some w)) s (\<lambda>_ s'. no_objects (s'\<lparr>servers := Map.empty\<rparr>) \<and> servers s' = [v \<mapsto> S])"
proof -
  obtain W where W: "pools s w = Some W" "p_task_queue W = Some q" "queues s q = Some (empty_queue 2000)" "pools s = [w \<mapsto> W]"
    using assms(1) by (auto simp: stocked_def)
  have "q_mutex (empty_queue 2000) = Unlocked" "q_head (empty_queue 2000) = None" by (simp_all add: empty_queue_def)
  note run = thread_pool_destroy_empty [where join = join and fuel = fuel, OF W(1-3) this assms(5)]
  let ?s = "s\<lparr>queues := (queues s)(q := None), pools := (pools s)(w := None)\<rparr>"
  have "no_objects (?s\<lparr>servers := Map.empty\<rparr>)" "servers ?s = [v \<mapsto> S]" using assms(1-4) W(4) by (auto simp: no_objects_def stocked_def)
  then show ?thesis unfolding okM_def run by simp
qed

lemma drop_workers:
  assumes "stocked v S w q s" and "ios s = Map.empty" "loops s = Map.empty" "iopools s = Map.empty" and "\<And>i s. join i s = Inr ((), s)"
  shows "okM (thenM (thread_pool_destroy join fuel (Some w)) (server_close_free v)) s (\<lambda>r s'. r = None \<and> no_objects s' \<and> sv_listen_fd S \<notin> fd_open s')"
  unfolding okM_then
  by (rule okM_mono [OF drop_worker_pool [where join = join and fuel = fuel, OF assms]]) (use drop_server in blast)

lemma drop_io_pool:
  assumes "stocked v S w q s" and "built T s" and "iopools s = [p \<mapsto> P]" "ip_threads P = map Some T" "ip_thread_count P = int (length T)"
    and "join_quiet ijoin"
  shows "okM (io_thread_pool_destroy ijoin (Some p)) s (\<lambda>_ s'. stocked v S w q s' \<and> ios s' = Map.empty \<and> loops s' = Map.empty \<and> iopools s' = Map.empty)"
proof -
  have len: "\<not> int (length (ip_threads P)) < ip_thread_count P" "take (nat (ip_thread_count P)) (ip_threads P) = map Some T" using assms(4,5) by simp_all
  show ?thesis
    unfolding io_thread_pool_destroy_def option.case okM_bind okM_iop(1) assms(3) fun_upd_same len(2) okM_if okM_then
  proof (simp only: len(1) if_False option.case, rule okM_mono [OF destroy_threads_ok [OF assms(6,2)]])
    fix u :: unit and t assume t: "ios t = Map.empty \<and> loops t = Map.empty \<and> heap_rest t = heap_rest s"
    then have "iopools t = [p \<mapsto> P]" "stocked v S w q t" using heap_rest_srv(6) [of t s] assms(3) stocked_rest [OF _ assms(1), of t] by simp_all
    with t show "okM (iop_update p (\<lambda>P. P\<lparr>ip_mutex := Destroyed\<rparr>)) t (\<lambda>_ t. okM (modifyM (\<lambda>s. s\<lparr>iopools := (iopools s)(p := None)\<rparr>)) t
        (\<lambda>_ s'. stocked v S w q s' \<and> ios s' = Map.empty \<and> loops s' = Map.empty \<and> iopools s' = Map.empty))"
      by (simp add: okM_iop okM_basic stocked_def)
  qed
qed

lemma drop_threads:
  assumes "stocked v S w q s" and "built T s" and "iopools s = [p \<mapsto> P]" "ip_threads P = map Some T" "ip_thread_count P = int (length T)"
    and "\<And>i s. wjoin i s = Inr ((), s)" and "join_quiet ijoin"
  shows "okM (thenM (io_thread_pool_destroy ijoin (Some p)) (thenM (thread_pool_destroy wjoin fuel (Some w)) (server_close_free v))) s
     (\<lambda>r s'. r = None \<and> no_objects s' \<and> sv_listen_fd S \<notin> fd_open s')"
  unfolding okM_then [of "io_thread_pool_destroy ijoin (Some p)"]
  by (rule okM_mono [OF drop_io_pool [OF assms(1-5,7)]]) (use drop_workers [where join = wjoin and fuel = fuel, OF _ _ _ _ assms(6)] in blast)

section \<open>The new server\<close>

text \<open>
  The server at \<open>v\<close> is complete: it has \<open>n\<close> threads and a main loop that watches the listening socket, can accept connections, the pipes of its threads have room for as many pointers as a pipe
  can hold, there is no connection, and the invariant of the running server holds.
\<close>

definition server_ready :: "int \<Rightarrow> int \<Rightarrow> addr \<Rightarrow> 'a srv_store_scheme \<Rightarrow> bool" where
  "server_ready port n v s \<longleftrightarrow> (\<exists>S w q p P l L. servers s = [v \<mapsto> S] \<and> sv_port S = port \<and> \<not> sv_running S \<and> sv_total_connections S = 0 \<and>
     sv_worker_pool S = Some w \<and> sv_main_event_loop S = Some l \<and> loops s l = Some L \<and> l_max_events L = 10 \<and>
     loop_wants l s (sv_listen_fd S) AND EVENT_READ = EVENT_READ \<and> ip_thread_count P = n \<and>
     acceptor v S p P s \<and> pipes_room (PIPE_CAPACITY div POINTER_SIZE) P s \<and> conns s = Map.empty \<and> reactor_inv w q s)"

lemma idle_reactor:
  assumes "pool_abs s w q b" and "idle w s" and "ios_fresh s" and "conns s = Map.empty" "tasks s = Map.empty" "msgs s = Map.empty"
    and "dom (queues s) \<subseteq> {..<next_addr s}" "dom (pools s) \<subseteq> {..<next_addr s}"
  shows "reactor_inv w q s"
proof (rule reactor_inv_start [OF assms(1,4-6)])
  show "\<forall>a\<ge>next_addr s. queues s a = None \<and> ios s a = None \<and> pools s a = None"
    using assms(3,7,8) by (auto simp: ios_fresh_def dom_def subset_iff)
next
  fix i I assume i: "ios s i = Some I"
  then have I: "idle_thread w s i I" using assms(2) by (simp add: idle_def)
  have "fst (io_pipe_fd I) \<noteq> fst (io_msg_pipe_fd J) \<and> fst (io_pipe_fd I) \<noteq> pipe_peer s (snd (io_msg_pipe_fd J))" if "ios s j = Some J" for j J
  proof (cases "j = i")
    case True
    with that i I show ?thesis by (auto simp: idle_thread_def)
  next
    case False
    with that i assms(2) have "io_ends I \<inter> io_ends J = {}" "idle_thread w s j J" unfolding idle_def by blast+
    then show ?thesis by (auto simp: idle_thread_def io_ends_def)
  qed
  then have "fst (io_pipe_fd I) \<notin> msg_ends s" by (force simp: msg_ends_def io_fds_def)
  with I show "msg_abs s i [] \<and> io_live s i \<and> io_worker_pool I = Some w \<and> io_stats_mutex I = Unlocked \<and>
      pipe_peer s (snd (io_pipe_fd I)) = fst (io_pipe_fd I) \<and> pipe_buf s (fst (io_pipe_fd I)) = [] \<and> fst (io_pipe_fd I) \<notin> msg_ends s"
    by (simp add: idle_thread_def)
next
  fix i j I J assume "ios s i = Some I" "ios s j = Some J" "i \<noteq> j"
  with assms(2) have "io_ends I \<inter> io_ends J = {}" unfolding idle_def by blast
  then show "fst (io_pipe_fd I) \<noteq> fst (io_pipe_fd J)" by (auto simp: io_ends_def)
qed

lemma idle_room:
  assumes "idle w s"
  shows "pipes_room (PIPE_CAPACITY div POINTER_SIZE) P s"
proof -
  have "snd (io_pipe_fd I) \<in> fd_open s \<and> length (pipe_buf s (pipe_peer s (snd (io_pipe_fd I)))) = 0" if "ios s i = Some I" for i I
  proof -
    have "idle_thread w s i I" using assms that by (simp add: idle_def)
    then show ?thesis by (simp add: idle_thread_def io_ends_def)
  qed
  then show ?thesis by (auto simp: pipes_room_def)
qed

lemma complete_ready:
  assumes S: "stocked v S w q s" "sv_port S = port" "\<not> sv_running S" "sv_total_connections S = 0" "sv_worker_pool S = Some w" "sv_io_pool S = Some p"
      "sv_stats_mutex S = Unlocked" "sv_main_event_loop S = Some l" "sv_listen_fd S \<in> fd_open s"
    and l: "loops s l = Some L" "l_max_events L = 10" "loop_wants l s (sv_listen_fd S) AND EVENT_READ = EVENT_READ"
    and P: "iopools s = [p \<mapsto> P]" "iop_wf P" "ip_threads P = map Some T" "T \<noteq> []" "dom (ios s) = set T"
    and s: "idle w s" "ios_fresh s" "w < next_addr s" "q < next_addr s"
  shows "server_ready port (ip_thread_count P) v s"
proof -
  have h: "servers s = [v \<mapsto> S]" "conns s = Map.empty" "tasks s = Map.empty" "msgs s = Map.empty" "dom (queues s) \<subseteq> {..<next_addr s}" "dom (pools s) \<subseteq> {..<next_addr s}"
    using S(1) s(3,4) by (auto simp: stocked_def split: if_splits)
  have "acceptor v S p P s" using h(1) S(6,7,9) P by (auto simp: acceptor_def)
  then show ?thesis
    unfolding server_ready_def using h(1,2) S(2-5,8) l idle_room [OF s(1)] idle_reactor [OF stocked_pool [OF S(1)] s(1,2) h(2-6)] by blast
qed

text \<open>Beside its threads, the loop of the server is the only one.\<close>

definition server_idle :: "addr \<Rightarrow> 'a srv_store_scheme \<Rightarrow> bool" where
  "server_idle v s \<longleftrightarrow> (\<exists>S w q p P T l L. stocked v S w q s \<and> sv_worker_pool S = Some w \<and> sv_io_pool S = Some p \<and> sv_main_event_loop S = Some l \<and>
     iopools s = [p \<mapsto> P] \<and> ip_threads P = map Some T \<and> ip_thread_count P = int (length T) \<and> loops s l = Some L \<and> loop_typed L \<and>
     built T (s\<lparr>loops := (loops s)(l := None)\<rparr>))"

section \<open>The stages of \<open>server_create\<close>\<close>

text \<open>What a stage ends with: the server at \<open>v\<close>, or nothing at all and a closed socket.\<close>

definition create_result :: "int \<Rightarrow> int \<Rightarrow> addr \<Rightarrow> int \<Rightarrow> ptr \<Rightarrow> 'a srv_store_scheme \<Rightarrow> bool" where
  "create_result port n v fd r s \<longleftrightarrow> (case r of None \<Rightarrow> no_objects s \<and> fd \<notin> fd_open s | Some u \<Rightarrow> u = v \<and> server_ready port n v s \<and> server_idle v s)"

text \<open>The last parts of \<open>server_create\<close>.\<close>

definition drop_all :: "'a srv_store_scheme server_env \<Rightarrow> addr \<Rightarrow> ptr \<Rightarrow> ptr \<Rightarrow> ('a srv_store_scheme, ptr) cmd" where
  "drop_all e v p w =
     thenM (io_thread_pool_destroy (se_ijoin e) p) (thenM (thread_pool_destroy (se_wjoin e) (se_fuel e) w) (server_close_free v))"

definition register_listener :: "'a srv_store_scheme server_env \<Rightarrow> addr \<Rightarrow> ptr \<Rightarrow> ptr \<Rightarrow> int \<Rightarrow> ptr \<Rightarrow> ('a srv_store_scheme, ptr) cmd" where
  "register_listener e v p w fd m = bindM (event_loop_add m fd (EVENT_READ OR EVENT_ET) U_Null) (\<lambda>r.
     if r = - 1 then thenM (event_loop_destroy m) (drop_all e v p w) else returnM (Some v))"

definition make_main_loop :: "'a srv_store_scheme server_env \<Rightarrow> addr \<Rightarrow> ptr \<Rightarrow> ptr \<Rightarrow> int \<Rightarrow> ('a srv_store_scheme, ptr) cmd" where
  "make_main_loop e v p w fd = bindM (event_loop_create (se_backend e) 10) (\<lambda>m.
     thenM (server_update v (\<lambda>S. S\<lparr>sv_main_event_loop := m\<rparr>)) (if m = None then drop_all e v p w else register_listener e v p w fd m))"

definition make_io_threads :: "'a srv_store_scheme server_env \<Rightarrow> addr \<Rightarrow> int \<Rightarrow> ptr \<Rightarrow> int \<Rightarrow> ('a srv_store_scheme, ptr) cmd" where
  "make_io_threads e v n w fd = bindM (io_thread_pool_create (se_backend e) (se_ispawn e) (se_ijoin e) n w) (\<lambda>p.
     thenM (server_update v (\<lambda>S. S\<lparr>sv_io_pool := p\<rparr>))
    (if p = None then thenM (thread_pool_destroy (se_wjoin e) (se_fuel e) w) (server_close_free v) else make_main_loop e v p w fd))"

definition make_workers :: "'a srv_store_scheme server_env \<Rightarrow> addr \<Rightarrow> int \<Rightarrow> int \<Rightarrow> int \<Rightarrow> ('a srv_store_scheme, ptr) cmd" where
  "make_workers e v n k fd = bindM (thread_pool_create (se_wspawn e) (se_wjoin e) (se_fuel e) k 2000) (\<lambda>w.
     thenM (server_update v (\<lambda>S. S\<lparr>sv_worker_pool := w\<rparr>)) (if w = None then server_close_free v else make_io_threads e v n w fd))"

lemma server_create_stages:
  "server_create e port n k = bindM mallocM (\<lambda>server. case server of
     None \<Rightarrow> returnM None
   | Some v \<Rightarrow>
       thenM (modifyM (\<lambda>s. s\<lparr>servers := (servers s)(v \<mapsto>
         \<lparr>sv_listen_fd = - 1, sv_port = port, sv_worker_pool = None, sv_io_pool = None, sv_main_event_loop = None, sv_running = False,
          sv_total_connections = 0, sv_stats_mutex = Unlocked\<rparr>)\<rparr>))
      (bindM (create_listen_socket (se_reuse_ok e) (se_bind_ok e) (se_listen_ok e) port) (\<lambda>fd.
       thenM (server_update v (\<lambda>S. S\<lparr>sv_listen_fd := fd\<rparr>)) (make_workers e v n k fd))))"
  by (simp only: server_create_def make_workers_def make_io_threads_def make_main_loop_def register_listener_def drop_all_def)

definition env_quiet :: "'a srv_store_scheme server_env \<Rightarrow> bool" where
  "env_quiet e \<longleftrightarrow> (\<forall>i s. se_wjoin e i s = Inr ((), s)) \<and> join_quiet (se_ijoin e)"

lemma drop_all_ok:
  assumes "env_quiet e" and "stocked v S w q s" and "built T s" and "iopools s = [p \<mapsto> P]" "ip_threads P = map Some T" "ip_thread_count P = int (length T)"
  shows "okM (drop_all e v (Some p) (Some w)) s (create_result port n v (sv_listen_fd S))"
  unfolding drop_all_def
  by (rule okM_mono [OF drop_threads [OF assms(2-6)]]) (use assms(1) in \<open>auto simp: env_quiet_def create_result_def\<close>)

text \<open>A descriptor that was added to a loop is watched.\<close>

lemma okM_add_watches:
  assumes "loop_ready be a s fd"
  shows "okM (event_loop_add (Some a) fd ev d) s (\<lambda>r s'. interest_frame s s' \<and> (r \<noteq> - 1 \<longrightarrow> loop_wants a s' fd AND (ev AND RW) = ev AND RW))"
proof -
  obtain l where l: "loops s a = Some l" using assms by (auto simp: loop_ready_def split: option.splits)
  then obtain r s' where r: "event_loop_add (Some a) fd ev d s = Inr (r, s')" "interest_frame s s'" using event_loop_ops_frame(1) by blast
  have "loop_wants a s' fd AND (ev AND RW) = ev AND RW" if "r \<noteq> - 1"
  proof (cases be)
    case kqueue_ops
    with assms r kqueue_add_exec [of a s fd ev d] show ?thesis by (auto simp: bit.conj_disj_distrib2 and.commute)
  next
    case epoll_ops
    then have rd: "loop_ready epoll_ops a s fd" using assms by simp
    then obtain ep cap where "l_ops l = Some epoll_ops" "l_impl l = Some (Epoll ep cap)" "ep \<in> fd_open s" "fd \<in> fd_open s" "0 \<le> fd"
      using l by (auto elim: loop_ready_epoll)
    with l r(1) that have "\<not> loop_registered a s fd"
      by (auto simp: event_loop_add_def epoll_add_impl_def bindM_Inr [OF loop_load_Some] sys_epoll_ctl_def loop_registered_def)
    with epoll_add_exec [OF rd, of ev d] r(1) show ?thesis by auto
  qed
  with r show ?thesis by (auto simp: okM_iff)
qed

text \<open>What the last parts start from: everything but the main loop is there.\<close>

definition equipped :: "int \<Rightarrow> addr \<Rightarrow> reactor_server \<Rightarrow> addr \<Rightarrow> addr \<Rightarrow> addr \<Rightarrow> io_thread_pool \<Rightarrow> addr list \<Rightarrow> 'a srv_store_scheme \<Rightarrow> bool" where
  "equipped port v S w q p P T s \<longleftrightarrow> stocked v S w q s \<and> sv_port S = port \<and> \<not> sv_running S \<and> sv_total_connections S = 0 \<and> sv_worker_pool S = Some w \<and>
     sv_io_pool S = Some p \<and> sv_stats_mutex S = Unlocked \<and> 0 \<le> sv_listen_fd S \<and> sv_listen_fd S \<in> fd_open s \<and> iopools s = [p \<mapsto> P] \<and> iop_wf P \<and> ip_threads P = map Some T \<and>
     idle w s \<and> built T s \<and> ios_fresh s \<and> w < next_addr s \<and> q < next_addr s"

lemma register_listener_ok:
  assumes e: "env_quiet e" and s0: "equipped port v S0 w q p P T s0" "T \<noteq> []" and fd: "fd = sv_listen_fd S0"
    and c: "loop_created be 10 s0 (Some l) s1" and f: "loop_frame s0 s1" and l: "next_addr s0 \<le> l" "l < next_addr s1"
    and S: "S = S0\<lparr>sv_main_event_loop := Some l\<rparr>" and s: "s = s1\<lparr>servers := [v \<mapsto> S]\<rparr>"
  shows "okM (register_listener e v (Some p) (Some w) fd (Some l)) s (create_result port (ip_thread_count P) v fd)"
proof -
  note E = s0(1) [unfolded equipped_def]
  obtain L where L: "loops s1 = (loops s0)(l \<mapsto> L)" "l_max_events L = 10" "fd_open s0 \<subseteq> fd_open s1" using c by (auto simp: loop_created_def)
  have none: "loops s0 l = None" using E l by (simp add: ios_fresh_def)
  note f1 = loop_frame_ios [OF f] heap_rest_frames(1) [OF f] f [unfolded loop_frame_def]
  have st: "stocked v S w q s" "iopools s = [p \<mapsto> P]"
    using stocked_rest [of s1 s0 v S0 w q] heap_rest_srv(6) [of s1 s0] E f1 by (auto simp: s stocked_def)
  have len: "ip_thread_count P = int (length T)" using E by (simp add: iop_wf_def)
  show ?thesis
    unfolding register_listener_def okM_bind
  proof (rule okM_mono [OF okM_add_watches])
    show "loop_ready be l s fd" using c E fd by (cases be) (auto simp: loop_created_def loop_ready_def s)
  next
    fix r t assume "interest_frame s t \<and> (r \<noteq> - 1 \<longrightarrow> loop_wants l t fd AND ((EVENT_READ OR EVENT_ET) AND RW) = (EVENT_READ OR EVENT_ET) AND RW)"
    moreover have "(EVENT_READ OR EVENT_ET) AND RW = EVENT_READ" by (simp add: RW_def event_flags)
    ultimately have t: "interest_frame s t" and watch: "r \<noteq> - 1 \<Longrightarrow> loop_wants l t fd AND EVENT_READ = EVENT_READ" by simp_all
    note t1 = interest_frameD [OF t] interest_frame_loops [OF t] heap_rest_frames(2) [OF t] interest_frame_io(3) [OF t]
    have t2: "stocked v S w q t" "iopools t = [p \<mapsto> P]" using stocked_rest [OF _ st(1)] heap_rest_srv(6) [of t s] t1 st(2) by simp_all
    have "okM (thenM (event_loop_destroy (Some l)) (drop_all e v (Some p) (Some w))) t (create_result port (ip_thread_count P) v fd)"
      unfolding okM_then
    proof (rule okM_mono [OF loop_destroy_ok [OF c none]])
      show "loops t = loops s1" "fd_open t = fd_open s1" using t1 by (simp_all add: s)
    next
      fix u :: unit and t' assume "fd_open t' = fd_open s0 \<and> loops t' = loops s0 \<and> loop_frame t t'"
      then have "heap_rest t' = heap_rest t" "ios t' = ios s0" "loops t' = loops s0" using loop_frame_ios [of t t'] heap_rest_frames(1) [of t t'] t1 f1 by (simp_all add: s)
      then have "stocked v S w q t'" "iopools t' = [p \<mapsto> P]" "built T t'"
        using stocked_rest [OF _ t2(1)] heap_rest_srv(6) [of t' t] t2(2) E by (simp_all add: built_def thread_loop_def [abs_def])
      from drop_all_ok [OF e this(1,3,2) _ len] E show "okM (drop_all e v (Some p) (Some w)) t' (create_result port (ip_thread_count P) v fd)" by (simp add: fd S)
    qed
    moreover have "server_ready port (ip_thread_count P) v t" if "r \<noteq> - 1"
    proof (rule complete_ready [where S = S and w = w and q = q and p = p and l = l and L = L and T = T, OF t2(1)])
      have "loops s0 \<subseteq>\<^sub>m loops t" using t1 L(1) none by (auto simp: map_le_def s)
      then show "idle w t" using idle_mono [of w s0 t] E t1 f1 L(3) by (simp add: s)
      show "ios_fresh t" using E t1 f1 L(1) l(2) by (auto simp: ios_fresh_def s)
      show "dom (ios t) = set T" using E t1 f1 by (simp add: built_def s)
      show "sv_listen_fd S \<in> fd_open t" using E L(3) t1 by (auto simp: s S)
    qed (use E S s t1 t2 L s0(2) f1 fd watch [OF that] in simp_all)
    moreover have "server_idle v t"
    proof -
      have "(loops t)(l := None) = loops s0" using t1 L(1) none by (auto simp: s)
      then have "built T (t\<lparr>loops := (loops t)(l := None)\<rparr>)" using E t1 f1 by (simp add: built_def s thread_loop_def [abs_def])
      moreover obtain K where "loops t l = Some K" "loop_typed K" using loop_created_typed [OF c] t1 by (auto simp: s)
      ultimately show ?thesis unfolding server_idle_def using E S t2 len by (intro exI conjI) (assumption | simp)+
    qed
    ultimately show "okM (if r = - 1 then thenM (event_loop_destroy (Some l)) (drop_all e v (Some p) (Some w)) else returnM (Some v)) t
        (create_result port (ip_thread_count P) v fd)" by (simp add: okM_basic create_result_def)
  qed
qed

lemma make_main_loop_ok:
  assumes "env_quiet e" and s: "equipped port v S w q p P T s" "T \<noteq> []" and fd: "fd = sv_listen_fd S"
  shows "okM (make_main_loop e v (Some p) (Some w) fd) s (create_result port (ip_thread_count P) v fd)"
  unfolding make_main_loop_def okM_bind
proof (rule okM_mono [OF loop_create_ok])
  show "loops s (next_addr s) = None" using s(1) by (simp add: equipped_def ios_fresh_def)
next
  fix m s1 assume "loop_created (se_backend e) 10 s m s1 \<and> loop_frame s s1 \<and> (\<forall>a. m = Some a \<longrightarrow> next_addr s \<le> a \<and> a < next_addr s1)"
  then have c: "loop_created (se_backend e) 10 s m s1" and f: "loop_frame s s1" and m: "\<And>a. m = Some a \<Longrightarrow> next_addr s \<le> a \<and> a < next_addr s1" by auto
  let ?s = "s1\<lparr>servers := [v \<mapsto> S\<lparr>sv_main_event_loop := m\<rparr>]\<rparr>"
  note E = s(1) [unfolded equipped_def]
  have s1: "stocked v S w q s1" "iopools s1 = [p \<mapsto> P]" "ios s1 = ios s"
    using stocked_rest [of s1 s v S w q] heap_rest_srv(6) [of s1 s] heap_rest_frames(1) [OF f] loop_frame_ios [OF f] E by simp_all
  then have sv: "servers s1 = [v \<mapsto> S]" by (simp add: stocked_def)
  have "okM (if m = None then drop_all e v (Some p) (Some w) else register_listener e v (Some p) (Some w) fd m) ?s (create_result port (ip_thread_count P) v fd)"
  proof (cases m)
    case None
    then have "loops s1 = loops s" using c by (simp add: loop_created_def)
    then have "stocked v (S\<lparr>sv_main_event_loop := m\<rparr>) w q ?s" "built T ?s" "iopools ?s = [p \<mapsto> P]"
      using s1 E by (auto simp: stocked_def built_def thread_loop_def [abs_def])
    from drop_all_ok [OF assms(1) this, of port] E None show ?thesis by (simp add: iop_wf_def fd)
  next
    case (Some l)
    with register_listener_ok [OF assms(1) s fd c [unfolded Some] f _ _ refl refl] m show ?thesis by simp
  qed
  then show "okM (thenM (server_update v (\<lambda>S. S\<lparr>sv_main_event_loop := m\<rparr>)) (if m = None then drop_all e v (Some p) (Some w) else register_listener e v (Some p) (Some w) fd m)) s1
      (create_result port (ip_thread_count P) v fd)"
    by (simp add: okM_then okM_server sv)
qed

lemma create_all_threads:
  assumes "join_quiet join" and "ios s = Map.empty" and "loops s = Map.empty"
  shows "okM (create_threads be spawn join (Some w) k []) s (\<lambda>r s'. heap_rest s' = heap_rest s \<and>
     (case r of None \<Rightarrow> ios s' = Map.empty \<and> loops s' = Map.empty
      | Some ts \<Rightarrow> next_addr s \<le> next_addr s' \<and> fd_open s \<subseteq> fd_open s' \<and> ios_fresh s' \<and> idle w s' \<and>
          (\<exists>T. length T = k \<and> ts = map Some T \<and> built T s')))"
proof -
  have "built [] s" "idle w s" "ios_fresh s" using assms(2,3) by (simp_all add: built_def idle_def ios_fresh_def)
  from create_threads_ok [OF assms(1) this, where k = k and be = be and spawn = spawn] show ?thesis unfolding append_Nil list.map .
qed

lemma io_pool_create_ok:
  assumes e: "join_quiet join" and s: "stocked v S w q s" "iopools s = Map.empty" "ios s = Map.empty" "loops s = Map.empty" and n: "0 < n"
  shows "okM (io_thread_pool_create be spawn join n (Some w)) s (\<lambda>r s'. stocked v S w q s' \<and>
     (case r of None \<Rightarrow> iopools s' = Map.empty \<and> ios s' = Map.empty \<and> loops s' = Map.empty
      | Some p \<Rightarrow> next_addr s \<le> next_addr s' \<and> fd_open s \<subseteq> fd_open s' \<and> idle w s' \<and> ios_fresh s' \<and>
          (\<exists>P T. iopools s' = [p \<mapsto> P] \<and> iop_wf P \<and> ip_threads P = map Some T \<and> T \<noteq> [] \<and> built T s' \<and> ip_thread_count P = n)))"
    (is "okM _ s ?Q")
proof -
  let ?p = "next_addr s"
  let ?P = "\<lparr>ip_threads = [], ip_thread_count = n, ip_next_thread = 0, ip_mutex = Unlocked, ip_worker_pool = Some w\<rparr>"
  let ?K = "\<lambda>r. case r of None \<Rightarrow> thenM (modifyM (\<lambda>s. s\<lparr>iopools := (iopools s)(?p := None)\<rparr>)) (returnM None)
         | Some ts \<Rightarrow> thenM (iop_update ?p (\<lambda>P. P\<lparr>ip_threads := ts\<rparr>)) (returnM (Some ?p))"
  have run: "okM (bindM (create_threads be spawn join (Some w) (nat n) []) ?K) t ?Q"
    if t: "stocked v S w q t" "iopools t = [?p \<mapsto> ?P]" "ios t = Map.empty" "loops t = Map.empty" "next_addr s \<le> next_addr t" "fd_open t = fd_open s" for t
    unfolding okM_bind
  proof (rule okM_mono [OF create_all_threads [OF e t(3,4)]], goal_cases)
    case r: (1 r t')
    then have t': "stocked v S w q t'" "iopools t' = [?p \<mapsto> ?P]" using stocked_rest [OF _ t(1)] heap_rest_srv(6) [of t' t] t(2) by simp_all
    show ?case
    proof (cases r)
      case None
      with r t' show ?thesis by (auto simp: okM_then okM_basic stocked_def)
    next
      case (Some ts)
      let ?P' = "?P\<lparr>ip_threads := ts\<rparr>"
      obtain T where T: "length T = nat n" "ts = map Some T" "built T t'" using r Some by auto
      have P: "iop_wf ?P'" "ip_threads ?P' = map Some T" "T \<noteq> []" "ip_thread_count ?P' = n" using T n by (auto simp: iop_wf_def)
      let ?t = "t'\<lparr>iopools := (iopools t')(?p \<mapsto> ?P')\<rparr>"
      have same: "stocked v S w q ?t" "idle w ?t" "ios_fresh ?t" "built T ?t" "iopools ?t = [?p \<mapsto> ?P']"
        using t' r Some T(3) idle_mono [of w t' ?t] by (simp_all add: stocked_def ios_fresh_def built_def thread_loop_def [abs_def])
      have "next_addr s \<le> next_addr ?t" "fd_open s \<subseteq> fd_open ?t" using r Some t(5,6) by auto
      with same P have "?Q (Some ?p) ?t" by (simp only: option.case) blast
      then show ?thesis using Some t'(2) by (simp add: okM_then okM_iop okM_basic)
    qed
  qed
  show ?thesis
    unfolding io_thread_pool_create_def okM_bind okM_malloc
    using s run by (auto simp: wp okM_malloc stocked_def split: list.split bool.split)
qed

lemma make_io_threads_ok:
  assumes e: "env_quiet e" and s: "stocked v S w q s" "iopools s = Map.empty" "ios s = Map.empty" "loops s = Map.empty" "w < next_addr s" "q < next_addr s"
    and S: "sv_port S = port" "\<not> sv_running S" "sv_total_connections S = 0" "sv_worker_pool S = Some w" "sv_stats_mutex S = Unlocked"
      "0 \<le> sv_listen_fd S" "sv_listen_fd S \<in> fd_open s" "fd = sv_listen_fd S"
    and n: "0 < n"
  shows "okM (make_io_threads e v n (Some w) fd) s (create_result port n v fd)"
  unfolding make_io_threads_def okM_bind
proof (rule okM_mono [OF io_pool_create_ok [OF _ s(1-4) n]], goal_cases)
  case 1
  show ?case using e by (simp add: env_quiet_def)
next
  case (2 p s1)
  let ?S = "S\<lparr>sv_io_pool := p\<rparr>"
  let ?s = "s1\<lparr>servers := (servers s1)(v \<mapsto> ?S)\<rparr>"
  have sv: "servers s1 v = Some S" "stocked v ?S w q ?s" using 2 by (auto simp: stocked_def)
  have "okM (if p = None then thenM (thread_pool_destroy (se_wjoin e) (se_fuel e) (Some w)) (server_close_free v) else make_main_loop e v p (Some w) fd) ?s
      (create_result port n v fd)"
  proof (cases p)
    case None
    have "okM (thenM (thread_pool_destroy (se_wjoin e) (se_fuel e) (Some w)) (server_close_free v)) ?s
        (\<lambda>r s'. r = None \<and> no_objects s' \<and> sv_listen_fd ?S \<notin> fd_open s')"
      by (rule drop_workers [OF sv(2)]) (use 2 None e in \<open>simp_all add: env_quiet_def\<close>)
    then show ?thesis using None by (auto simp: create_result_def S(8) intro: okM_mono)
  next
    case (Some p')
    with 2 obtain P T where P: "iopools s1 = [p' \<mapsto> P]" "iop_wf P" "ip_threads P = map Some T" "T \<noteq> []" "built T s1" "ip_thread_count P = n"
      and s1: "next_addr s \<le> next_addr s1" "fd_open s \<subseteq> fd_open s1" "idle w s1" "ios_fresh s1" by auto
    have "idle w ?s" "ios_fresh ?s" "built T ?s"
      using s1 P(5) idle_mono [of w s1 ?s] by (simp_all add: ios_fresh_def built_def thread_loop_def [abs_def])
    then have "equipped port v ?S w q p' P T ?s" using sv(2) S s(5,6) P Some s1 by (auto simp: equipped_def)
    from make_main_loop_ok [OF e this P(4), of fd] show ?thesis using Some P(6) S(8) by simp
  qed
  then show ?case by (simp add: okM_then okM_server sv(1))
qed

lemma make_workers_ok:
  assumes e: "env_quiet e" and s: "no_objects (s\<lparr>servers := Map.empty\<rparr>)" "servers s = [v \<mapsto> S]"
    and S: "sv_port S = port" "\<not> sv_running S" "sv_total_connections S = 0" "sv_stats_mutex S = Unlocked" "0 \<le> sv_listen_fd S" "sv_listen_fd S \<in> fd_open s" "fd = sv_listen_fd S"
    and n: "0 < n"
  shows "okM (make_workers e v n k fd) s (create_result port n v fd)"
proof -
  have o: "conns s = Map.empty" "tasks s = Map.empty" "queues s = Map.empty" "pools s = Map.empty" "msgs s = Map.empty" "ios s = Map.empty"
    "iopools s = Map.empty" "loops s = Map.empty" using s(1) by (simp_all add: no_objects_def)
  have fresh: "pool_fresh s" using o by (simp add: pool_fresh_def heap_fresh_def)
  have j: "se_wjoin e i t = Inr ((), t)" for i t using e by (simp add: env_quiet_def)
  obtain r s1 where r: "thread_pool_create (se_wspawn e) (se_wjoin e) (se_fuel e) k 2000 s = Inr (r, s1)" "tasks s1 = tasks s" "conns s1 = conns s" "loops s1 = loops s"
      "pool_store.more s1 = pool_store.more s" "case r of None \<Rightarrow> pools s1 = pools s \<and> queues s1 = queues s
            | Some w \<Rightarrow> pools s w = None \<and> fd_open s1 = fd_open s \<and> next_addr s \<le> next_addr s1 \<and> w < next_addr s1 \<and>
                (\<exists>q W. q < next_addr s1 \<and> pools s1 = (pools s)(w \<mapsto> W) \<and> queues s1 = (queues s)(q \<mapsto> empty_queue 2000) \<and>
                   pool_abs s1 w q \<lparr>b_items = [], b_max = 2000, b_shutdown = False\<rparr>)"
    using thread_pool_create_ok [where join = "se_wjoin e" and spawn = "se_wspawn e" and n = k and k = 2000 and fuel = "se_fuel e", OF fresh j] by blast
  have more: "msgs s1 = msgs s" "ios s1 = ios s" "iopools s1 = iopools s" "servers s1 = servers s" using r(5) by (cases s; cases s1; simp)+
  let ?S = "S\<lparr>sv_worker_pool := r\<rparr>"
  let ?s = "s1\<lparr>servers := (servers s1)(v \<mapsto> ?S)\<rparr>"
  have "okM (if r = None then server_close_free v else make_io_threads e v n r fd) ?s (create_result port n v fd)"
  proof (cases r)
    case None
    with r o more s(2) have "no_objects (?s\<lparr>servers := Map.empty\<rparr>)" "servers ?s = [v \<mapsto> ?S]" by (simp_all add: no_objects_def)
    from drop_server [OF this] None show ?thesis by (auto simp: create_result_def S(7) intro: okM_mono)
  next
    case (Some w)
    with r(6) o obtain q W where w: "fd_open s1 = fd_open s" "w < next_addr s1" "q < next_addr s1" "pools s1 = [w \<mapsto> W]"
        "queues s1 = [q \<mapsto> empty_queue 2000]" "pool_abs s1 w q \<lparr>b_items = [], b_max = 2000, b_shutdown = False\<rparr>" by auto
    then have "stocked v ?S w q ?s" using r(2,3) o more s(2) by (auto simp: stocked_def pool_abs_def)
    from make_io_threads_ok [OF e this, of port fd n] show ?thesis using S w(1-3) Some r(4) o more n by simp
  qed
  then show ?thesis using s(2) more(4) by (simp add: make_workers_def okM_bind okM_def [of "thread_pool_create _ _ _ _ _"] r(1) okM_then okM_server)
qed

lemma create_listen_socket_cases:
  assumes "create_listen_socket a b c port s = x"
  obtains "x = Inl Exit_Failure" | f fs where "newfd s = f # fs" "0 \<le> f" "f \<notin> fd_open s" "x = Inr (f, s\<lparr>fd_open := insert f (fd_open s), newfd := fs\<rparr>)"
  using assms
  by (cases "newfd s") (auto simp: create_listen_socket_def handle_error_def sys_newfd_def bindM_def returnM_def failM_def split: if_splits)

lemma server_create_ok:
  assumes "env_quiet e" and "no_objects s" and "0 < n"
  shows "case server_create e port n k s of
     Inl f \<Rightarrow> f = Exit_Failure
   | Inr (Some v, s') \<Rightarrow> server_ready port n v s' \<and> server_idle v s'
   | Inr (None, s') \<Rightarrow> no_objects s' \<and> (\<forall>fd fs. newfd s = fd # fs \<longrightarrow> fd \<notin> fd_open s \<longrightarrow> fd \<notin> fd_open s')"
proof -
  let ?S = "\<lparr>sv_listen_fd = - 1, sv_port = port, sv_worker_pool = None, sv_io_pool = None, sv_main_event_loop = None, sv_running = False,
          sv_total_connections = 0, sv_stats_mutex = Unlocked\<rparr>"
  let ?v = "next_addr s"
  show ?thesis
  proof (cases "take 1 (mem s) = [False]")
    case True
    then have "server_create e port n k s = Inr (None, s\<lparr>mem := tl (mem s)\<rparr>)"
      by (cases "mem s") (simp_all add: server_create_def mallocM_def bindM_def returnM_def)
    then show ?thesis using assms(2) by (simp add: no_objects_def)
  next
    case False
    then have m: "mallocM s = Inr (Some ?v, s\<lparr>next_addr := Suc ?v, mem := tl (mem s)\<rparr>)" by (cases "mem s") (auto simp: mallocM_def)
    let ?s = "s\<lparr>next_addr := Suc ?v, mem := tl (mem s), servers := (servers s)(?v \<mapsto> ?S)\<rparr>"
    let ?rest = "\<lambda>fd. thenM (server_update ?v (\<lambda>S. S\<lparr>sv_listen_fd := fd\<rparr>)) (make_workers e ?v n k fd)"
    have run: "server_create e port n k s = bindM (create_listen_socket (se_reuse_ok e) (se_bind_ok e) (se_listen_ok e) port) ?rest ?s"
      unfolding server_create_stages by (simp add: bindM_def [of mallocM] m thenM_def bindM_def [of "modifyM _"] modifyM_def)
    show ?thesis
    proof (cases rule: create_listen_socket_cases [OF refl, of "se_reuse_ok e" "se_bind_ok e" "se_listen_ok e" port ?s])
      case 1
      then show ?thesis unfolding run by (simp add: bindM_Inl)
    next
      case (2 f fs)
      let ?t = "?s\<lparr>fd_open := insert f (fd_open ?s), newfd := fs\<rparr>"
      let ?t' = "?t\<lparr>servers := [?v \<mapsto> ?S\<lparr>sv_listen_fd := f\<rparr>]\<rparr>"
      have none: "servers s = Map.empty" using assms(2) by (simp add: no_objects_def)
      have "okM (make_workers e ?v n k f) ?t' (create_result port n ?v f)"
        by (rule make_workers_ok [OF assms(1), where S = "?S\<lparr>sv_listen_fd := f\<rparr>"]) (use assms(2,3) 2(2) in \<open>simp_all add: no_objects_def\<close>)
      then have "okM (?rest f) ?t (create_result port n ?v f)" by (simp add: okM_then okM_server none)
      then obtain r s' where "?rest f ?t = Inr (r, s')" "create_result port n ?v f r s'" by (auto simp: okM_iff)
      moreover have "newfd s = f # fs" using 2(1) by simp
      ultimately show ?thesis unfolding run by (auto simp: bindM_def [of "create_listen_socket _ _ _ _"] 2(4) create_result_def split: option.splits)
    qed
  qed
qed

text \<open>
  C24. Creating the server, whatever call fails on the way: \<open>server_create\<close> never meets a fault. Unless it ends the process because the listening socket cannot be
  made, it returns a server that is complete, with \<open>n\<close> I/O threads, watching its listening socket, ready to accept, without connections and in a state that satisfies the invariant of the running server, or
  \<open>NULL\<close>; then no object of the program is left and the listening socket is closed (C34 and C35 say which descriptors of threads stay open). The hypotheses say that the process has just started and that a thread
  with nothing to do ends once it is told to.
\<close>

theorem server_create_outcome:
  assumes "env_quiet e" and "no_objects s" and "0 < n"
  shows "case server_create e port n k s of
     Inl f \<Rightarrow> f = Exit_Failure
   | Inr (Some v, s') \<Rightarrow> server_ready port n v s'
   | Inr (None, s') \<Rightarrow> no_objects s' \<and> (\<forall>fd fs. newfd s = fd # fs \<longrightarrow> fd \<notin> fd_open s \<longrightarrow> fd \<notin> fd_open s')"
  using server_create_ok [OF assms, of port k] by (simp split: sum.splits prod.splits option.splits)

text \<open>A server that was created is safe in every state its threads, its workers and its clients can bring about.\<close>

theorem created_server_safe:
  assumes "env_quiet e" and "no_objects s" and "0 < n" and "server_create e port n k s = Inr (Some v, s0)"
  shows "\<exists>S w q. servers s0 v = Some S \<and> sv_worker_pool S = Some w \<and>
     (\<forall>s1 x. reaches reactor_enabled (reactor_act w) s0 s1 \<longrightarrow> reactor_enabled s1 x \<longrightarrow>
        (\<exists>s2. reactor_act w x s1 = Inr ((), s2) \<and> reactor_inv w q s2) \<or> reactor_act w x s1 = Inl Would_Block \<and> reactor_waits w q s1 x \<or>
        reactor_act w x s1 = Inl Dangling \<and> sole_holder s1 x)"
proof -
  have "server_ready port n v s0" using server_create_ok [OF assms(1-3), of port k] assms(4) by simp
  then obtain S w q where S: "servers s0 = [v \<mapsto> S]" "sv_worker_pool S = Some w" and inv: "reactor_inv w q s0" unfolding server_ready_def by blast
  show ?thesis
  proof (intro exI conjI allI impI)
    show "servers s0 v = Some S" "sv_worker_pool S = Some w" using S by simp_all
  qed (rule reactor.reaches_progress [OF _ inv])
qed

text \<open>Creating and destroying a server are inverse: what was made is given back.\<close>

theorem server_create_destroy:
  assumes "env_quiet e" and "no_objects s" and "0 < n" and "server_create e port n k s = Inr (Some v, s0)"
  shows "okM (server_destroy e (Some v)) s0 (\<lambda>_ s'. no_objects s')"
proof -
  have j: "se_wjoin e i t = Inr ((), t)" "join_quiet (se_ijoin e)" for i t using assms(1) by (simp_all add: env_quiet_def)
  have "server_idle v s0" using server_create_ok [OF assms(1-3), of port k] assms(4) by simp
  then obtain S w q p P T l L where S: "stocked v S w q s0" "sv_worker_pool S = Some w" "sv_io_pool S = Some p" "sv_main_event_loop S = Some l"
      and P: "iopools s0 = [p \<mapsto> P]" "ip_threads P = map Some T" "ip_thread_count P = int (length T)"
      and l: "loops s0 l = Some L" "loop_typed L" "built T (s0\<lparr>loops := (loops s0)(l := None)\<rparr>)"
    unfolding server_idle_def by blast
  let ?rest = "thenM (event_loop_destroy (Some l)) (thenM (io_thread_pool_destroy (se_ijoin e) (Some p))
      (thenM (thread_pool_destroy (se_wjoin e) (se_fuel e) (Some w)) (thenM (server_update v (\<lambda>S. S\<lparr>sv_stats_mutex := Destroyed\<rparr>)) (server_free v))))"
  have rest: "okM ?rest t (\<lambda>_. no_objects)"
    if t: "heap_rest t = heap_rest s0" "ios t = ios s0" "loops t = loops s0" for t
    unfolding okM_then [of "event_loop_destroy (Some l)"]
  proof (rule okM_mono [OF loop_destroy_typed])
    show "loops t l = Some L" "loop_typed L" using l t(3) by simp_all
  next
    fix u :: unit and t' assume t': "loops t' = (loops t)(l := None) \<and> fd_open t' = fd_open t - impl_fd (l_impl L) \<and> loop_frame t t'"
    then have same: "heap_rest t' = heap_rest s0" "ios t' = ios s0" "loops t' = (loops s0)(l := None)"
      using loop_frame_ios [of t t'] heap_rest_frames(1) [of t t'] t by simp_all
    then have "stocked v S w q t'" "built T t'" "iopools t' = [p \<mapsto> P]"
      using stocked_rest [OF _ S(1)] l(3) heap_rest_srv(6) [of t' s0] P(1) by (simp_all add: built_def thread_loop_def [abs_def])
    from drop_io_pool [OF this P(2,3) j(2)] show "okM (thenM (io_thread_pool_destroy (se_ijoin e) (Some p))
      (thenM (thread_pool_destroy (se_wjoin e) (se_fuel e) (Some w)) (thenM (server_update v (\<lambda>S. S\<lparr>sv_stats_mutex := Destroyed\<rparr>)) (server_free v)))) t' (\<lambda>_. no_objects)"
      unfolding okM_then
    proof (rule okM_mono, goal_cases)
      case (1 x t2)
      show ?case
        by (rule okM_mono [OF drop_worker_pool [where join = "se_wjoin e" and fuel = "se_fuel e", OF _ _ _ _ j(1)]])
           (use 1 in \<open>auto simp: okM_server no_objects_def\<close>)
    qed
  qed
  have "servers s0 v = Some S" using S(1) by (simp add: stocked_def)
  then show ?thesis using rest [of s0] rest [of "after_close (sv_listen_fd S) s0"] S(2-4)
    by (simp add: server_destroy_def okM_bind okM_then okM_server okM_when okM_close okM_basic)
qed

section \<open>A concrete start\<close>

text \<open>A process that has just started, with the descriptors it will be given, and an environment in which nothing fails.\<close>

definition demo_start :: srv_store where
  "demo_start = demo_srv_store\<lparr>fd_open := {0, 1, 2}, newfd := [3, 4, 5, 6, 7, 8, 9, 10, 11, 12, 13, 14, 15], conns := Map.empty, tasks := Map.empty, queues := Map.empty,
     pools := Map.empty, msgs := Map.empty, ios := Map.empty, iopools := Map.empty, loops := Map.empty, servers := Map.empty, next_addr := 0, mem := [], ep_interest := (\<lambda>_ _. None)\<rparr>"

definition demo_env :: "srv_store server_env" where
  "demo_env = \<lparr>se_backend = epoll_ops, se_reuse_ok = True, se_bind_ok = True, se_listen_ok = True, se_wspawn = (\<lambda>_. True), se_wjoin = (\<lambda>_. returnM ()),
     se_ispawn = (\<lambda>_. True), se_ijoin = (\<lambda>_. returnM ()), se_fuel = 0\<rparr>"

lemma demo_start_fields:
  "fd_open demo_start = {0, 1, 2}" "newfd demo_start = [3, 4, 5, 6, 7, 8, 9, 10, 11, 12, 13, 14, 15]" "conns demo_start = Map.empty" "tasks demo_start = Map.empty"
  "queues demo_start = Map.empty" "pools demo_start = Map.empty" "msgs demo_start = Map.empty" "ios demo_start = Map.empty" "iopools demo_start = Map.empty"
  "loops demo_start = Map.empty" "servers demo_start = Map.empty" "next_addr demo_start = 0" "mem demo_start = []" "ep_interest demo_start = (\<lambda>_ _. None)"
  by (simp_all add: demo_start_def)

lemma okM_demo:
  "okM (pool_update w f) s Q = (case pools s w of None \<Rightarrow> False | Some W \<Rightarrow> Q () (s\<lparr>pools := (pools s)(w \<mapsto> f W)\<rparr>))"
  by (auto simp: okM_def pool_update_def pool_load_def derefM_def bindM_def modifyM_def split: option.splits)

lemma okM_demo_add: "ep \<in> fd_open t \<and> fd \<in> fd_open t \<and> ep_interest t ep fd = None \<Longrightarrow>
  okM (sys_epoll_ctl ep EPOLL_CTL_ADD fd ev) t R = R 0 (t\<lparr>ep_interest := (ep_interest t)(ep := (ep_interest t ep)(fd := Some ev))\<rparr>)"
  by (simp add: okM_def sys_epoll_ctl_def)

lemma okM_demo_pipe:
  "newfd s = a # b # fs \<Longrightarrow> 0 \<le> a \<and> 0 \<le> b \<and> a \<noteq> b \<and> a \<notin> fd_open s \<and> b \<notin> fd_open s \<Longrightarrow>
   okM sys_pipe s Q = Q (0, a, b) (s\<lparr>fd_open := insert a (insert b (fd_open s)), newfd := fs,
                     pipe_peer := (pipe_peer s)(b := a), pipe_buf := (pipe_buf s)(a := [])\<rparr>)"
  by (simp add: okM_def sys_pipe_def)

lemmas demo_run = wp demo_start_fields okM_server okM_iop okM_io

lemma demo_created: "okM (server_create demo_env 8080 1 1) demo_start (\<lambda>r _. r = Some 0)"
  by (simp add: server_create_def create_listen_socket_def demo_env_def thread_pool_create_def task_queue_create_def okM_demo demo_run)
     (simp add: io_thread_pool_create_def demo_run,
      simp add: io_thread_create_def okM_demo_pipe demo_run,
      simp add: io_thread_start_def event_loop_create_def epoll_create_impl_def demo_run,
      simp add: Let_def event_loop_add_def epoll_add_impl_def okM_demo_add demo_run,
      simp add: event_loop_create_def epoll_create_impl_def demo_run,
      simp add: event_loop_add_def epoll_add_impl_def okM_demo_add demo_run)

theorem server_create_outcome_witness:
  "\<exists>s'. server_create demo_env 8080 1 1 demo_start = Inr (Some 0, s') \<and> server_ready 8080 1 0 s'"
proof -
  have 1: "env_quiet demo_env" by (simp add: env_quiet_def demo_env_def join_quiet_def returnM_def okM_basic)
  have 2: "no_objects demo_start" by (simp add: no_objects_def demo_start_def)
  obtain s' where run: "server_create demo_env 8080 1 1 demo_start = Inr (Some 0, s')" using demo_created by (auto simp: okM_iff)
  from server_create_outcome [OF 1 2, of 1 8080 1] show ?thesis unfolding run by simp
qed

end
