(* ===== verification/Server_Main.thy ===== *)
theory Server_Main
  imports Server
begin

text \<open>
  \<open>advanced-reactor-server/main.c\<close>: the command line and the life of the process. \<open>getopt_long\<close> is given by the options it returns, each with its argument.
\<close>

section \<open>The command line\<close>

record config =
  cf_port :: int
  cf_io_threads :: int
  cf_worker_threads :: int

definition MAX_THREADS :: int where
  "MAX_THREADS = 16"

definition default_config :: config where
  "default_config = \<lparr>cf_port = 8080, cf_io_threads = 12, cf_worker_threads = 24\<rparr>"

text \<open>
  \<open>atoi\<close>: white space, a sign and digits, up to the first other character; 0 when there is no digit. A value that is no \<open>int\<close> is undefined.
\<close>

definition atoi_digit :: "char \<Rightarrow> int option" where
  "atoi_digit c = (if (48 :: int) \<le> of_char c \<and> of_char c \<le> (57 :: int) then Some (of_char c - 48) else None)"

fun read_digits :: "int \<Rightarrow> string \<Rightarrow> int" where
  "read_digits n [] = n"
| "read_digits n (c # cs) = (case atoi_digit c of None \<Rightarrow> n | Some d \<Rightarrow> read_digits (10 * n + d) cs)"

definition is_space :: "char \<Rightarrow> bool" where
  "is_space c \<longleftrightarrow> of_char c = (32 :: int) \<or> (9 \<le> (of_char c :: int) \<and> of_char c \<le> (13 :: int))"

definition atoi_value :: "string \<Rightarrow> int" where
  "atoi_value str = (case dropWhile is_space str of
     [] \<Rightarrow> 0
   | c # cs \<Rightarrow> if c = CHR ''-'' then - read_digits 0 cs else if c = CHR ''+'' then read_digits 0 cs else read_digits 0 (c # cs))"

definition atoi :: "string \<Rightarrow> fault + int" where
  "atoi str = (let n = atoi_value str in if - (2 ^ 31) \<le> n \<and> n < 2 ^ 31 then Inr n else Inl Signed_Overflow)"

text \<open>The loop over the options; \<open>Inr None\<close> is the successful end of the process after the help text.\<close>

fun parse_options :: "(char \<times> string) list \<Rightarrow> config \<Rightarrow> fault + config option" where
  "parse_options [] cfg = Inr (Some cfg)"
| "parse_options ((opt, optarg) # opts) cfg =
     (if opt = CHR ''p'' then
        (case atoi optarg of Inl e \<Rightarrow> Inl e | Inr n \<Rightarrow> parse_options opts (cfg\<lparr>cf_port := n\<rparr>))
      else if opt = CHR ''i'' then
        (case atoi optarg of Inl e \<Rightarrow> Inl e
         | Inr n \<Rightarrow> if n \<le> 0 \<or> MAX_THREADS < n then Inl Exit_Failure else parse_options opts (cfg\<lparr>cf_io_threads := n\<rparr>))
      else if opt = CHR ''w'' then
        (case atoi optarg of Inl e \<Rightarrow> Inl e
         | Inr n \<Rightarrow> if n \<le> 0 \<or> MAX_THREADS * 2 < n then Inl Exit_Failure else parse_options opts (cfg\<lparr>cf_worker_threads := n\<rparr>))
      else if opt = CHR ''h'' then Inr None
      else Inl Exit_Failure)"

section \<open>The process\<close>

definition main_server ::
  "'a srv_store_scheme server_env \<Rightarrow> nat \<Rightarrow> (nat \<Rightarrow> nat \<Rightarrow> nat \<Rightarrow> bool) \<Rightarrow> nat \<Rightarrow> (char \<times> string) list \<Rightarrow> ('a srv_store_scheme, int) cmd" where
  "main_server e rounds ok fuel opts = (case parse_options opts default_config of
     Inl f \<Rightarrow> failM f
   | Inr None \<Rightarrow> returnM 0
   | Inr (Some cfg) \<Rightarrow>
       bindM (server_create e (cf_port cfg) (cf_io_threads cfg) (cf_worker_threads cfg)) (\<lambda>server.
         if server = None then failM Exit_Failure
         else bindM (server_start rounds ok fuel server) (\<lambda>ret.
           thenM (server_destroy e server) (returnM ret))))"

section \<open>Correctness\<close>

definition config_ok :: "config \<Rightarrow> bool" where
  "config_ok cfg \<longleftrightarrow> 0 < cf_io_threads cfg \<and> cf_io_threads cfg \<le> MAX_THREADS \<and> 0 < cf_worker_threads cfg \<and> cf_worker_threads cfg \<le> 2 * MAX_THREADS"

lemma default_config_ok: "config_ok default_config"
  by (simp add: config_ok_def default_config_def MAX_THREADS_def)

text \<open>Whatever the command line, a server is only created with thread counts in range. The port is not checked.\<close>

lemma parse_options_ok: "config_ok cfg \<Longrightarrow> parse_options opts cfg = Inr (Some cfg') \<Longrightarrow> config_ok cfg'"
  by (induction opts cfg rule: parse_options.induct) (auto simp: config_ok_def split: if_splits sum.splits)

lemma thread_counts_in_range: "parse_options opts default_config = Inr (Some cfg) \<Longrightarrow> config_ok cfg"
  by (rule parse_options_ok [OF default_config_ok])

lemma port_unchecked: "parse_options [(CHR ''p'', ''70000'')] default_config = Inr (Some (default_config\<lparr>cf_port := 70000\<rparr>))"
  by (simp add: atoi_def atoi_value_def is_space_def atoi_digit_def)

text \<open>A signal stops the server at the next test of its loop, before another event is handled.\<close>

lemma run_handlers_shutdown: "run_handlers sigs s = Inr ((), s\<lparr>g_shutdown := (g_shutdown s \<or> SIGINT \<in> set sigs \<or> SIGTERM \<in> set sigs)\<rparr>)"
proof (induction sigs arbitrary: s)
  case (Cons x sigs)
  then show ?case by (cases x) (auto simp: thenM_def bindM_def signal_handler_def whenM_def modifyM_def returnM_def)
qed (simp add: returnM_def)

lemma server_stops_on_signal:
  assumes "servers s v = Some S" and "signals s = sigs # r" and "SIGINT \<in> set sigs \<or> SIGTERM \<in> set sigs"
  shows "server_loop (Suc rounds) ok fuel v s = Inr ((), s\<lparr>signals := r, g_shutdown := True\<rparr>)"
  using assms by (auto simp: deliver_signals_def thenM_def bindM_def getM_def modifyM_def run_handlers_shutdown server_load_Some returnM_def)

end
