(* ===== verification/Epoll_Wrapper.thy ===== *)
theory Epoll_Wrapper
  imports Event_Loop
begin

text \<open>
  \<open>advanced-reactor-server/epoll_wrapper.c\<close>: the thin wrapper around one epoll instance that preceded the portable event loop. It passes epoll masks
  through, and \<open>epoll_wrapper_wait\<close> leaves the events in the array of the wrapper.
\<close>

section \<open>Operations\<close>

record epoll_wrapper =
  ew_epfd :: int
  ew_events :: "(udata \<times> 32 word) list"
  ew_max_events :: int

record ew_store = loop_store +
  wrappers :: "addr \<Rightarrow> epoll_wrapper option"

definition ew_set :: "addr \<Rightarrow> epoll_wrapper option \<Rightarrow> ('a ew_store_scheme, unit) cmd" where
  "ew_set a w = modifyM (\<lambda>s. s\<lparr>wrappers := (wrappers s)(a := w)\<rparr>)"

text \<open>\<open>calloc\<close> gives \<open>max_events\<close> zero entries, or \<open>NULL\<close>; a negative count is too large for every allocator.\<close>

definition epoll_wrapper_create :: "int \<Rightarrow> ('a ew_store_scheme, ptr) cmd" where
  "epoll_wrapper_create max_events =
     bindM mallocM (\<lambda>epoll. case epoll of
       None \<Rightarrow> returnM None
     | Some a \<Rightarrow>
         bindM sys_newfd (\<lambda>epfd.
         if epfd = - 1 then returnM None
         else bindM mallocM (\<lambda>events.
           if events = None \<or> max_events < 0 then bindM (sys_close epfd) (\<lambda>_. returnM None)
           else thenM (ew_set a (Some \<lparr>ew_epfd = epfd, ew_events = replicate (nat max_events) (U_Null, 0), ew_max_events = max_events\<rparr>))
                      (returnM (Some a)))))"

definition epoll_wrapper_destroy :: "ptr \<Rightarrow> ('a ew_store_scheme, unit) cmd" where
  "epoll_wrapper_destroy epoll = (case epoll of
     None \<Rightarrow> returnM ()
   | Some a \<Rightarrow>
       bindM (derefM wrappers (Some a)) (\<lambda>w.
       thenM (whenM (ew_epfd w \<noteq> - 1) (bindM (sys_close (ew_epfd w)) (\<lambda>_. returnM ())))
             (ew_set a None)))"

definition epoll_wrapper_add :: "ptr \<Rightarrow> int \<Rightarrow> 32 word \<Rightarrow> udata \<Rightarrow> ('a ew_store_scheme, int) cmd" where
  "epoll_wrapper_add epoll fd events ptr =
     (if epoll = None \<or> fd < 0 then returnM (- 1)
      else bindM (derefM wrappers epoll) (\<lambda>w. sys_epoll_ctl (ew_epfd w) EPOLL_CTL_ADD fd (events, ptr)))"

definition epoll_wrapper_mod :: "ptr \<Rightarrow> int \<Rightarrow> 32 word \<Rightarrow> udata \<Rightarrow> ('a ew_store_scheme, int) cmd" where
  "epoll_wrapper_mod epoll fd events ptr =
     (if epoll = None \<or> fd < 0 then returnM (- 1)
      else bindM (derefM wrappers epoll) (\<lambda>w. sys_epoll_ctl (ew_epfd w) EPOLL_CTL_MOD fd (events, ptr)))"

definition epoll_wrapper_del :: "ptr \<Rightarrow> int \<Rightarrow> ('a ew_store_scheme, int) cmd" where
  "epoll_wrapper_del epoll fd =
     (if epoll = None \<or> fd < 0 then returnM (- 1)
      else bindM (derefM wrappers epoll) (\<lambda>w. sys_epoll_ctl (ew_epfd w) EPOLL_CTL_DEL fd (0, U_Null)))"

definition epoll_wrapper_wait :: "ptr \<Rightarrow> int \<Rightarrow> ('a ew_store_scheme, int) cmd" where
  "epoll_wrapper_wait epoll timeout = (case epoll of
     None \<Rightarrow> returnM (- 1)
   | Some a \<Rightarrow>
       bindM (derefM wrappers (Some a)) (\<lambda>w.
       bindM (sys_epoll_wait (ew_epfd w) (length (ew_events w)) (ew_max_events w) timeout) (\<lambda>(n, evs).
       thenM (ew_set a (Some (w\<lparr>ew_events := evs @ drop (length evs) (ew_events w)\<rparr>))) (returnM n))))"

section \<open>Correctness\<close>

text \<open>A wrapper's array has the size it was created with.\<close>

definition ew_wf :: "epoll_wrapper \<Rightarrow> bool" where
  "ew_wf w \<longleftrightarrow> 0 \<le> ew_max_events w \<and> length (ew_events w) = nat (ew_max_events w)"

text \<open>Creating a wrapper and destroying it gives everything back; a failed creation leaves nothing behind.\<close>

lemma epoll_wrapper_lifecycle:
  assumes "wrappers s (next_addr s) = None"
  shows "okM (epoll_wrapper_create n) s (\<lambda>p s1. case p of
      None \<Rightarrow> wrappers s1 = wrappers s \<and> fd_open s1 = fd_open s
    | Some a \<Rightarrow> (\<exists>w. wrappers s1 = (wrappers s)(a \<mapsto> w) \<and> ew_wf w \<and> ew_max_events w = n \<and> ew_epfd w \<in> fd_open s1) \<and>
        okM (epoll_wrapper_destroy (Some a)) s1 (\<lambda>_ s2. wrappers s2 = wrappers s \<and> fd_open s2 = fd_open s))"
  using assms
  by (auto simp: epoll_wrapper_create_def epoll_wrapper_destroy_def wp ew_set_def ew_wf_def after_close_def okM_def [of "derefM _ _"] derefM_def fun_upd_idem
      split: list.splits bool.splits)

text \<open>Waiting never writes past the array and keeps its size.\<close>

lemma epoll_wrapper_wait_bounded:
  assumes "wrappers s a = Some w" and "ew_wf w"
  shows "okM (epoll_wrapper_wait (Some a) t) s (\<lambda>n s'. n \<le> ew_max_events w \<and> (\<exists>w'. wrappers s' = (wrappers s)(a \<mapsto> w') \<and> ew_wf w' \<and> ew_epfd w' = ew_epfd w))"
  using assms
  by (auto simp: epoll_wrapper_wait_def okM_def bindM_def derefM_def sys_epoll_wait_def deliver_def ew_wf_def ew_set_def thenM_def modifyM_def returnM_def Let_def
      split: list.splits sum.splits)

text \<open>On the same epoll instance the wrapper and the event loop make the same system call.\<close>

lemma epoll_wrapper_agrees:
  assumes "wrappers s a = Some w" and "l_impl l = Some (Epoll (ew_epfd w) cap)"
  shows "epoll_wrapper_add (Some a) fd (to_epoll_events events) ptr s = epoll_add_impl l fd events ptr s"
    and "epoll_wrapper_mod (Some a) fd (to_epoll_events events) ptr s = epoll_mod_impl l fd events ptr s"
  using assms by (simp_all add: epoll_wrapper_add_def epoll_wrapper_mod_def epoll_add_impl_def epoll_mod_impl_def bindM_def derefM_def)

end
