(* ===== verification/Conn_Map.thy ===== *)
theory Conn_Map
  imports Posix Interfaces
begin

text \<open>
  \<open>linux/reactor-server/conn_map.c\<close>: the table of pending output of an I/O thread, a linked list of entries with one string per descriptor. The
  state holds the heap \<open>centries\<close> of entries and the heap \<open>cmaps\<close> of tables. A list that ends visits every allocated
  entry at most once, so the loops run with as much fuel as addresses were handed out.
\<close>

section \<open>Data\<close>

record conn_entry =
  ce_fd :: int
  ce_buf :: "string option"
  ce_next :: ptr

record conn_map =
  cm_head :: ptr

record cm_store = kernel +
  centries :: "addr \<Rightarrow> conn_entry option"
  cmaps :: "addr \<Rightarrow> conn_map option"

definition entry_load :: "addr \<Rightarrow> ('a cm_store_scheme, conn_entry) cmd" where
  "entry_load e = derefM centries (Some e)"

definition entry_update :: "addr \<Rightarrow> (conn_entry \<Rightarrow> conn_entry) \<Rightarrow> ('a cm_store_scheme, unit) cmd" where
  "entry_update e f = bindM (entry_load e) (\<lambda>x. modifyM (\<lambda>s. s\<lparr>centries := (centries s)(e \<mapsto> f x)\<rparr>))"

definition cmap_load :: "addr \<Rightarrow> ('a cm_store_scheme, conn_map) cmd" where
  "cmap_load m = derefM cmaps (Some m)"

definition cmap_head :: "addr \<Rightarrow> ptr \<Rightarrow> ('a cm_store_scheme, unit) cmd" where
  "cmap_head m p = bindM (cmap_load m) (\<lambda>C. modifyM (\<lambda>s. s\<lparr>cmaps := (cmaps s)(m \<mapsto> C\<lparr>cm_head := p\<rparr>)\<rparr>))"

text \<open>\<open>strdup\<close>: a copy in new memory, or \<open>NULL\<close>.\<close>

definition strdupM :: "string \<Rightarrow> ('a kernel_scheme, string option) cmd" where
  "strdupM str = bindM mallocM (\<lambda>p. returnM (if p = None then None else Some str))"

section \<open>Operations\<close>

definition conn_map_init :: "addr \<Rightarrow> ('a cm_store_scheme, unit) cmd" where
  "conn_map_init m = cmap_head m None"

fun find_entry :: "nat \<Rightarrow> ptr \<Rightarrow> int \<Rightarrow> ('a cm_store_scheme, ptr) cmd" where
  "find_entry fuel None fd = returnM None"
| "find_entry fuel (Some e) fd =
     bindM (entry_load e) (\<lambda>x.
       if ce_fd x = fd then returnM (Some e)
       else case fuel of 0 \<Rightarrow> failM Out_Of_Fuel | Suc f \<Rightarrow> find_entry f (ce_next x) fd)"

text \<open>The new entry is written through the result of \<open>malloc\<close> without a check.\<close>

definition conn_map_set :: "addr \<Rightarrow> int \<Rightarrow> string \<Rightarrow> ('a cm_store_scheme, unit) cmd" where
  "conn_map_set m fd buf =
     bindM (getM next_addr) (\<lambda>fuel.
     bindM (cmap_load m) (\<lambda>C.
     bindM (find_entry fuel (cm_head C) fd) (\<lambda>p. case p of
       Some e \<Rightarrow>
         bindM (strdupM buf) (\<lambda>b. entry_update e (\<lambda>x. x\<lparr>ce_buf := b\<rparr>))
     | None \<Rightarrow>
         bindM mallocM (\<lambda>p. case p of
           None \<Rightarrow> failM Null_Deref
         | Some e \<Rightarrow>
             bindM (strdupM buf) (\<lambda>b.
             thenM (modifyM (\<lambda>s. s\<lparr>centries := (centries s)(e \<mapsto> \<lparr>ce_fd = fd, ce_buf = b, ce_next = cm_head C\<rparr>)\<rparr>))
                   (cmap_head m (Some e)))))))"

definition conn_map_get :: "addr \<Rightarrow> int \<Rightarrow> ('a cm_store_scheme, string option) cmd" where
  "conn_map_get m fd =
     bindM (getM next_addr) (\<lambda>fuel.
     bindM (cmap_load m) (\<lambda>C.
     bindM (find_entry fuel (cm_head C) fd) (\<lambda>p. case p of
       None \<Rightarrow> returnM None
     | Some e \<Rightarrow> bindM (entry_load e) (\<lambda>x. returnM (ce_buf x)))))"

fun unlink_entry :: "nat \<Rightarrow> addr \<Rightarrow> ptr \<Rightarrow> ptr \<Rightarrow> int \<Rightarrow> ('a cm_store_scheme, unit) cmd" where
  "unlink_entry fuel m prev None fd = returnM ()"
| "unlink_entry fuel m prev (Some e) fd =
     bindM (entry_load e) (\<lambda>x.
       if ce_fd x = fd then
         thenM (case prev of Some p \<Rightarrow> entry_update p (\<lambda>y. y\<lparr>ce_next := ce_next x\<rparr>) | None \<Rightarrow> cmap_head m (ce_next x))
               (modifyM (\<lambda>s. s\<lparr>centries := (centries s)(e := None)\<rparr>))
       else case fuel of 0 \<Rightarrow> failM Out_Of_Fuel | Suc f \<Rightarrow> unlink_entry f m (Some e) (ce_next x) fd)"

definition conn_map_remove :: "addr \<Rightarrow> int \<Rightarrow> ('a cm_store_scheme, unit) cmd" where
  "conn_map_remove m fd =
     bindM (getM next_addr) (\<lambda>fuel. bindM (cmap_load m) (\<lambda>C. unlink_entry fuel m None (cm_head C) fd))"

declare find_entry.simps(2) [simp del] unlink_entry.simps(2) [simp del]

section \<open>The list of a table\<close>

definition entry_next :: "'a cm_store_scheme \<Rightarrow> addr \<Rightarrow> ptr option" where
  "entry_next s e = map_option ce_next (centries s e)"

definition entry_pair :: "'a cm_store_scheme \<Rightarrow> addr \<Rightarrow> int \<times> string option" where
  "entry_pair s e = (case centries s e of None \<Rightarrow> (0, None) | Some x \<Rightarrow> (ce_fd x, ce_buf x))"

text \<open>
  The table at \<open>m\<close> consists of the entries \<open>es\<close>, no two for the same descriptor, all of them allocated; its association list is the abstraction.
\<close>

definition cm_list :: "'a cm_store_scheme \<Rightarrow> addr \<Rightarrow> addr list \<Rightarrow> bool" where
  "cm_list s m es \<longleftrightarrow> (\<exists>C. cmaps s m = Some C \<and> chain (entry_next s) (cm_head C) es) \<and>
     distinct (map (\<lambda>e. fst (entry_pair s e)) es) \<and> (\<forall>a. next_addr s \<le> a \<longrightarrow> centries s a = None)"

lemma entry_load_Some: "centries s e = Some x \<Longrightarrow> entry_load e s = Inr (x, s)"
  by (simp add: entry_load_def derefM_def)

lemma entry_update_Some: "centries s e = Some x \<Longrightarrow> entry_update e f s = Inr ((), s\<lparr>centries := (centries s)(e \<mapsto> f x)\<rparr>)"
  by (simp add: entry_update_def bindM_def entry_load_Some modifyM_def)

lemma cmap_load_Some: "cmaps s m = Some C \<Longrightarrow> cmap_load m s = Inr (C, s)"
  by (simp add: cmap_load_def derefM_def)

lemma cmap_head_Some: "cmaps s m = Some C \<Longrightarrow> cmap_head m p s = Inr ((), s\<lparr>cmaps := (cmaps s)(m \<mapsto> C\<lparr>cm_head := p\<rparr>)\<rparr>)"
  by (simp add: cmap_head_def bindM_def cmap_load_Some modifyM_def)

lemma entry_next_Some: "entry_next s e = Some p \<longleftrightarrow> (\<exists>x. centries s e = Some x \<and> ce_next x = p)"
  by (auto simp: entry_next_def)

text \<open>Acyclic lists are no longer than the heap.\<close>

lemma chain_length:
  assumes "chain nx p es" and "\<And>a. n \<le> a \<Longrightarrow> nx a = None"
  shows "length es \<le> n"
proof -
  have "set es \<subseteq> {..<n}" using chain_allocated [OF assms(1)] assms(2) by (meson lessThan_iff not_less subsetI)
  then have "card (set es) \<le> n" using card_mono [of "{..<n}" "set es"] by simp
  then show ?thesis using chain_distinct [OF assms(1)] by (simp add: distinct_card)
qed

lemma find_entry_list:
  "chain (entry_next s) p es \<Longrightarrow> length es \<le> fuel \<Longrightarrow>
     find_entry fuel p fd s = Inr (find (\<lambda>e. fst (entry_pair s e) = fd) es, s)"
proof (induction es arbitrary: p fuel)
  case Nil
  then show ?case by (simp add: returnM_def)
next
  case (Cons e es)
  then obtain x where x: "p = Some e" "centries s e = Some x" "chain (entry_next s) (ce_next x) es"
    by (auto simp: entry_next_Some split: option.splits)
  then have p: "fst (entry_pair s e) = ce_fd x" by (simp add: entry_pair_def)
  show ?case
    using x p Cons.IH [OF x(3)] Cons.prems(2)
    by (cases fuel) (auto simp: find_entry.simps(2) bindM_def entry_load_Some returnM_def)
qed

text \<open>Taking the successor of \<open>a\<close> out of a list, as \<open>prev->next = cur->next\<close> does.\<close>

lemma chain_skip:
  assumes "chain nx h (ys @ a # e # zs)" and "nx e = Some q"
  shows "chain (nx(a := Some q, e := None)) h (ys @ a # zs)"
  using assms(1) chain_distinct [OF assms(1)]
proof (induction ys arbitrary: h)
  case Nil
  with assms(2) have q: "chain nx q zs" "a \<notin> set zs" "e \<notin> set zs" "a \<noteq> e" "h = Some a" by (auto split: option.splits)
  then have "chain (nx(a := Some q, e := None)) q zs" by (subst chain_cong [of zs _ nx]) auto
  with q(4,5) show ?case by (simp only: append_Nil chain_Cons_iff) auto
next
  case (Cons y ys)
  then obtain r where r: "h = Some y" "nx y = Some r" "chain nx r (ys @ a # e # zs)" by (auto split: option.splits)
  then have rest: "chain (nx(a := Some q, e := None)) r (ys @ a # zs)" by (intro Cons.IH) (use Cons.prems(2) in auto)
  have "(nx(a := Some q, e := None)) y = Some r" using r(2) Cons.prems(2) by auto
  with r(1) rest show ?case by (simp only: append_Cons chain_Cons_iff) blast
qed

text \<open>The string a table holds for a descriptor.\<close>

definition cm_fun :: "'a cm_store_scheme \<Rightarrow> addr list \<Rightarrow> int \<Rightarrow> string option" where
  "cm_fun s es fd = (case find (\<lambda>e. fst (entry_pair s e) = fd) es of None \<Rightarrow> None | Some e \<Rightarrow> snd (entry_pair s e))"

lemma find_fst: "find P es = Some e \<Longrightarrow> P e \<and> e \<in> set es"
  by (induction es) (auto split: if_splits)

lemma cm_fun_at:
  assumes "distinct (map (\<lambda>e. fst (entry_pair s e)) es)" and "e \<in> set es"
  shows "cm_fun s es (fst (entry_pair s e)) = snd (entry_pair s e)"
proof -
  obtain e' where e': "find (\<lambda>a. fst (entry_pair s a) = fst (entry_pair s e)) es = Some e'"
    using assms(2) by (cases "find (\<lambda>a. fst (entry_pair s a) = fst (entry_pair s e)) es") (auto simp: find_None_iff)
  from find_fst [OF this] have "e' = e" using assms by (auto simp: distinct_map inj_on_def)
  with e' show ?thesis by (simp add: cm_fun_def)
qed

lemma cm_fun_None: "(\<And>e. e \<in> set es \<Longrightarrow> fst (entry_pair s e) \<noteq> fd) \<Longrightarrow> cm_fun s es fd = None"
  by (induction es) (auto simp: cm_fun_def)

text \<open>Two descriptions of a table agree when they have the same entries.\<close>

lemma cm_fun_eqI:
  assumes "distinct (map (\<lambda>e. fst (entry_pair s e)) es)"
    and "\<And>e. e \<in> set es \<Longrightarrow> M (fst (entry_pair s e)) = snd (entry_pair s e)"
    and "\<And>fd. fd \<notin> (\<lambda>e. fst (entry_pair s e)) ` set es \<Longrightarrow> M fd = None"
  shows "cm_fun s es = M"
proof
  fix fd
  show "cm_fun s es fd = M fd"
  proof (cases "fd \<in> (\<lambda>e. fst (entry_pair s e)) ` set es")
    case True
    then obtain e where "e \<in> set es" "fd = fst (entry_pair s e)" by blast
    then show ?thesis using cm_fun_at [OF assms(1)] assms(2) by simp
  next
    case False
    then have "cm_fun s es fd = None" by (intro cm_fun_None) auto
    then show ?thesis using assms(3) [OF False] by simp
  qed
qed

definition cm_repr :: "addr \<Rightarrow> 'a cm_store_scheme \<Rightarrow> (int \<Rightarrow> string option) \<Rightarrow> bool" where
  "cm_repr m s M \<longleftrightarrow> mem s = [] \<and> (\<exists>es. cm_list s m es \<and> M = cm_fun s es)"

lemma cm_listD:
  assumes "cm_list s m es"
  obtains C where "cmaps s m = Some C" "chain (entry_next s) (cm_head C) es" "length es \<le> next_addr s"
    "distinct (map (\<lambda>e. fst (entry_pair s e)) es)" "\<And>a. next_addr s \<le> a \<Longrightarrow> centries s a = None"
    "\<And>e. e \<in> set es \<Longrightarrow> \<exists>x. centries s e = Some x \<and> entry_pair s e = (ce_fd x, ce_buf x)"
proof -
  from assms obtain C where C: "cmaps s m = Some C" "chain (entry_next s) (cm_head C) es"
    "distinct (map (\<lambda>e. fst (entry_pair s e)) es)" "\<And>a. next_addr s \<le> a \<Longrightarrow> centries s a = None" unfolding cm_list_def by blast
  have "length es \<le> next_addr s" by (rule chain_length [OF C(2)]) (simp add: entry_next_def C(4))
  moreover have "\<exists>x. centries s e = Some x \<and> entry_pair s e = (ce_fd x, ce_buf x)" if "e \<in> set es" for e
    using chain_allocated [OF C(2) that] by (auto simp: entry_next_def entry_pair_def)
  ultimately show ?thesis using that C by blast
qed

lemma strdup_ok: "mem s = [] \<Longrightarrow> strdupM b s = Inr (Some b, s\<lparr>next_addr := Suc (next_addr s)\<rparr>)"
  by (simp add: strdupM_def bindM_def mallocM_def returnM_def)

lemma get_repr:
  assumes "cm_repr m s M"
  shows "conn_map_get m fd s = Inr (M fd, s)"
proof -
  obtain es where es: "cm_list s m es" "M = cm_fun s es" using assms by (auto simp: cm_repr_def)
  from es(1) show ?thesis
  proof (rule cm_listD)
    fix C
    assume C: "cmaps s m = Some C" "chain (entry_next s) (cm_head C) es" "length es \<le> next_addr s"
      "\<And>e. e \<in> set es \<Longrightarrow> \<exists>x. centries s e = Some x \<and> entry_pair s e = (ce_fd x, ce_buf x)"
    show ?thesis
    proof (cases "find (\<lambda>e. fst (entry_pair s e) = fd) es")
      case None
      with C es(2) show ?thesis using find_entry_list [OF C(2,3)]
        by (simp add: conn_map_get_def bindM_def getM_def cmap_load_Some cm_fun_def returnM_def)
    next
      case (Some e)
      with C(4) find_fst obtain x where "centries s e = Some x" "entry_pair s e = (ce_fd x, ce_buf x)" by metis
      with C es(2) Some show ?thesis using find_entry_list [OF C(2,3)]
        by (simp add: conn_map_get_def bindM_def getM_def cmap_load_Some cm_fun_def returnM_def entry_load_Some)
    qed
  qed
qed

section \<open>The updates\<close>

lemma set_repr:
  assumes "cm_repr m s M"
  shows "\<exists>s'. conn_map_set m fd b s = Inr ((), s') \<and> cm_repr m s' (M(fd \<mapsto> b))"
proof -
  obtain es where es: "cm_list s m es" "M = cm_fun s es" and mem: "mem s = []" using assms by (auto simp: cm_repr_def)
  from es(1) show ?thesis
  proof (rule cm_listD)
    fix C
    assume C: "cmaps s m = Some C" "chain (entry_next s) (cm_head C) es" "length es \<le> next_addr s"
      "distinct (map (\<lambda>e. fst (entry_pair s e)) es)" "\<And>a. next_addr s \<le> a \<Longrightarrow> centries s a = None"
      "\<And>e. e \<in> set es \<Longrightarrow> \<exists>x. centries s e = Some x \<and> entry_pair s e = (ce_fd x, ce_buf x)"
    note find = find_entry_list [OF C(2,3), of fd]
    show ?thesis
    proof (cases "find (\<lambda>e. fst (entry_pair s e) = fd) es")
      case (Some e)
      then have e: "fst (entry_pair s e) = fd" "e \<in> set es" using find_fst [OF Some] by simp_all
      obtain x where x: "centries s e = Some x" "entry_pair s e = (ce_fd x, ce_buf x)" using C(6) [OF e(2)] by blast
      let ?s = "s\<lparr>next_addr := Suc (next_addr s), centries := (centries s)(e \<mapsto> x\<lparr>ce_buf := Some b\<rparr>)\<rparr>"
      have run: "conn_map_set m fd b s = Inr ((), ?s)"
        using C(1) find Some mem x(1) by (simp add: conn_map_set_def bindM_def getM_def cmap_load_Some strdup_ok entry_update_Some)
      have pair: "entry_pair ?s a = (if a = e then (fd, Some b) else entry_pair s a)" for a
        using x e(1) by (simp add: entry_pair_def)
      have key: "fst (entry_pair ?s a) = fst (entry_pair s a)" for a using pair e(1) by simp
      have nxt: "entry_next ?s = entry_next s" using x(1) by (auto simp: entry_next_def)
      have "e < next_addr s" using C(5) [of e] x(1) by (cases "next_addr s \<le> e") auto
      then have old: "\<forall>a. next_addr ?s \<le> a \<longrightarrow> centries ?s a = None" using C(5) by simp
      have list: "cm_list ?s m es" unfolding cm_list_def key nxt using C(1,2,4) old by simp
      have "cm_fun ?s es = M(fd \<mapsto> b)"
      proof (rule cm_fun_eqI)
        show "distinct (map (\<lambda>e. fst (entry_pair ?s e)) es)" unfolding key by (rule C)
        fix a assume a: "a \<in> set es"
        then have inj: "a = e" if "fst (entry_pair s a) = fd" using that e C(4) by (auto simp: distinct_map inj_on_def)
        show "(M(fd \<mapsto> b)) (fst (entry_pair ?s a)) = snd (entry_pair ?s a)"
        proof (cases "a = e")
          case True
          then show ?thesis unfolding pair by simp
        next
          case False
          then have "fst (entry_pair s a) \<noteq> fd" using inj by blast
          then show ?thesis unfolding pair using False es(2) cm_fun_at [OF C(4) a] by simp
        qed
      next
        fix k assume "k \<notin> (\<lambda>e. fst (entry_pair ?s e)) ` set es"
        then have "k \<noteq> fd" "cm_fun s es k = None" unfolding key using e by (auto intro: cm_fun_None)
        then show "(M(fd \<mapsto> b)) k = None" using es(2) by simp
      qed
      then show ?thesis using run list mem by (auto simp: cm_repr_def intro!: exI [of _ es])
    next
      case None
      let ?e = "next_addr s"
      let ?s = "s\<lparr>next_addr := Suc (Suc ?e), centries := (centries s)(?e \<mapsto> \<lparr>ce_fd = fd, ce_buf = Some b, ce_next = cm_head C\<rparr>),
        cmaps := (cmaps s)(m \<mapsto> C\<lparr>cm_head := Some ?e\<rparr>)\<rparr>"
      have run: "conn_map_set m fd b s = Inr ((), ?s)"
        using C(1) find None mem by (simp add: conn_map_set_def bindM_def getM_def cmap_load_Some mallocM_def strdup_ok cmap_head_Some)
      have new: "?e \<notin> set es" using C(5) [of ?e] C(6) [of ?e] by auto
      have pair: "entry_pair ?s a = (if a = ?e then (fd, Some b) else entry_pair s a)" for a by (simp add: entry_pair_def)
      have fds: "fst (entry_pair s a) \<noteq> fd" if "a \<in> set es" for a using that None by (auto simp: find_None_iff)
      have keys: "map (\<lambda>a. fst (entry_pair ?s a)) es = map (\<lambda>a. fst (entry_pair s a)) es" using new pair by auto
      have dist: "distinct (map (\<lambda>a. fst (entry_pair ?s a)) (?e # es))"
        using C(4) fds pair [of ?e] unfolding list.map keys by auto
      have "entry_next ?s = (entry_next s)(?e := Some (cm_head C))" by (auto simp: entry_next_def)
      then have "chain (entry_next ?s) (Some ?e) (?e # es)" using C(2) new by (simp only: chain_Cons_iff) (simp add: chain_upd_other)
      then have list: "cm_list ?s m (?e # es)" unfolding cm_list_def using dist C(5) by auto
      have "cm_fun ?s (?e # es) = M(fd \<mapsto> b)"
      proof (rule cm_fun_eqI [OF dist])
        fix a assume "a \<in> set (?e # es)"
        then show "(M(fd \<mapsto> b)) (fst (entry_pair ?s a)) = snd (entry_pair ?s a)"
          unfolding pair using fds [of a] es(2) cm_fun_at [OF C(4), of a] new by (cases "a = ?e") simp_all
      next
        fix k assume k: "k \<notin> (\<lambda>a. fst (entry_pair ?s a)) ` set (?e # es)"
        have "(\<lambda>a. fst (entry_pair ?s a)) ` set (?e # es) = insert fd ((\<lambda>a. fst (entry_pair s a)) ` set es)"
          using arg_cong [OF keys, of set] pair [of ?e] by simp
        with k have "k \<noteq> fd" "\<And>a. a \<in> set es \<Longrightarrow> fst (entry_pair s a) \<noteq> k" by auto
        then show "(M(fd \<mapsto> b)) k = None" using es(2) cm_fun_None [of es s k] by simp
      qed
      then show ?thesis using run list mem by (auto simp: cm_repr_def intro!: exI [of _ "?e # es"])
    qed
  qed
qed

text \<open>The loop of \<open>conn_map_remove\<close> behind the entries \<open>pre\<close> it has passed.\<close>

lemma unlink_list:
  assumes "cmaps s m = Some C" and "chain (entry_next s) (cm_head C) (pre @ es)" and "chain (entry_next s) cur es" and "length es \<le> fuel"
  shows "case find (\<lambda>e. fst (entry_pair s e) = fd) es of
      None \<Rightarrow> unlink_entry fuel m (if pre = [] then None else Some (last pre)) cur fd s = Inr ((), s)
    | Some e \<Rightarrow> \<exists>s' C'. unlink_entry fuel m (if pre = [] then None else Some (last pre)) cur fd s = Inr ((), s') \<and>
        cmaps s' m = Some C' \<and> chain (entry_next s') (cm_head C') (pre @ remove1 e es) \<and> mem s' = mem s \<and> next_addr s' = next_addr s \<and>
        centries s' e = None \<and> (\<forall>a. a \<noteq> e \<longrightarrow> entry_pair s' a = entry_pair s a \<and> (centries s' a = None \<longleftrightarrow> centries s a = None))"
  using assms
proof (induction es arbitrary: pre cur fuel)
  case Nil
  then show ?case by (simp add: returnM_def)
next
  case (Cons e es)
  let ?prev = "if pre = [] then None else Some (last pre)"
  obtain x where x: "cur = Some e" "centries s e = Some x" "chain (entry_next s) (ce_next x) es"
    using Cons.prems(3) by (auto simp: entry_next_Some split: option.splits)
  have fst: "fst (entry_pair s e) = ce_fd x" using x(2) by (simp add: entry_pair_def)
  have dist: "distinct (pre @ e # es)" using chain_distinct [OF Cons.prems(2)] .
  show ?case
  proof (cases "ce_fd x = fd")
    case False
    then obtain f where f: "fuel = Suc f" "length es \<le> f" using Cons.prems(4) by (cases fuel) auto
    have run: "unlink_entry fuel m ?prev cur fd s = unlink_entry f m (Some e) (ce_next x) fd s"
      using False x f by (simp add: unlink_entry.simps(2) bindM_def entry_load_Some)
    have same: "find (\<lambda>a. fst (entry_pair s a) = fd) (e # es) = find (\<lambda>a. fst (entry_pair s a) = fd) es" using fst False by simp
    have "chain (entry_next s) (cm_head C) ((pre @ [e]) @ es)" using Cons.prems(2) by (simp only: append.assoc append_Cons append_Nil)
    note IH = Cons.IH [OF Cons.prems(1) this x(3) f(2)]
    have prev: "(if pre @ [e] = [] then None else Some (last (pre @ [e]))) = Some e" by simp
    show ?thesis
    proof (cases "find (\<lambda>a. fst (entry_pair s a) = fd) es")
      case None
      show ?thesis using IH unfolding same None prev run option.case .
    next
      case (Some a)
      have "(pre @ [e]) @ remove1 a es = pre @ remove1 a (e # es)" using find_fst [OF Some] dist by auto
      then show ?thesis using IH unfolding same Some prev run option.case by simp
    qed
  next
    case True
    have found: "find (\<lambda>a. fst (entry_pair s a) = fd) (e # es) = Some e" using fst True by simp
    show ?thesis
    proof (cases "pre = []")
      case pre: True
      let ?s = "s\<lparr>cmaps := (cmaps s)(m \<mapsto> C\<lparr>cm_head := ce_next x\<rparr>), centries := (centries s)(e := None)\<rparr>"
      have "unlink_entry fuel m ?prev cur fd s = Inr ((), ?s)"
        using True x pre Cons.prems(1) by (simp add: unlink_entry.simps(2) bindM_def entry_load_Some thenM_Inr cmap_head_Some modifyM_def)
      moreover have "entry_next ?s = (entry_next s)(e := None)" by (auto simp: entry_next_def)
      then have "chain (entry_next ?s) (ce_next x) es" using x(3) dist by simp
      moreover have "entry_pair ?s a = entry_pair s a" if "a \<noteq> e" for a using that by (simp add: entry_pair_def)
      ultimately show ?thesis unfolding found using pre by (auto intro!: exI [of _ ?s])
    next
      case pre: False
      then obtain ys p where p: "pre = ys @ [p]" by (metis append_butlast_last_id)
      have "p \<in> set (pre @ e # es)" using p by simp
      then obtain y where y: "centries s p = Some y" using chain_allocated [OF Cons.prems(2)] by (auto simp: entry_next_def)
      have pe: "p \<noteq> e" using dist p by auto
      let ?s = "s\<lparr>centries := (centries s)(p \<mapsto> y\<lparr>ce_next := ce_next x\<rparr>, e := None)\<rparr>"
      have "unlink_entry fuel m ?prev cur fd s = Inr ((), ?s)"
        using True x p y by (simp add: unlink_entry.simps(2) bindM_def entry_load_Some thenM_Inr entry_update_Some modifyM_def)
      moreover have "entry_next ?s = (entry_next s)(p := Some (ce_next x), e := None)" by (auto simp: entry_next_def)
      then have "chain (entry_next ?s) (cm_head C) (pre @ es)"
        using chain_skip [of "entry_next s" "cm_head C" ys p e es "ce_next x"] Cons.prems(2) p x(2) entry_next_Some [of s e "ce_next x"] by simp
      moreover have "entry_pair ?s a = entry_pair s a" "centries ?s a = None \<longleftrightarrow> centries s a = None" if "a \<noteq> e" for a
        using that y by (simp_all add: entry_pair_def)
      ultimately show ?thesis unfolding found using Cons.prems(1) by (auto intro!: exI [of _ ?s])
    qed
  qed
qed

lemma remove_repr:
  assumes "cm_repr m s M"
  shows "\<exists>s'. conn_map_remove m fd s = Inr ((), s') \<and> cm_repr m s' (M(fd := None))"
proof -
  obtain es where es: "cm_list s m es" "M = cm_fun s es" and mem: "mem s = []" using assms by (auto simp: cm_repr_def)
  from es(1) show ?thesis
  proof (rule cm_listD)
    fix C
    assume C: "cmaps s m = Some C" "chain (entry_next s) (cm_head C) es" "length es \<le> next_addr s"
      "distinct (map (\<lambda>e. fst (entry_pair s e)) es)" "\<And>a. next_addr s \<le> a \<Longrightarrow> centries s a = None"
    have run: "conn_map_remove m fd s = unlink_entry (next_addr s) m None (cm_head C) fd s"
      using C(1) by (simp add: conn_map_remove_def bindM_def getM_def cmap_load_Some)
    have "chain (entry_next s) (cm_head C) ([] @ es)" using C(2) by simp
    moreover have nil: "(if ([] :: addr list) = [] then None else Some (last [])) = (None :: ptr)" by simp
    ultimately have un: "case find (\<lambda>e. fst (entry_pair s e) = fd) es of
        None \<Rightarrow> unlink_entry (next_addr s) m None (cm_head C) fd s = Inr ((), s)
      | Some e \<Rightarrow> \<exists>s' C'. unlink_entry (next_addr s) m None (cm_head C) fd s = Inr ((), s') \<and>
          cmaps s' m = Some C' \<and> chain (entry_next s') (cm_head C') (remove1 e es) \<and> mem s' = mem s \<and> next_addr s' = next_addr s \<and>
          centries s' e = None \<and> (\<forall>a. a \<noteq> e \<longrightarrow> entry_pair s' a = entry_pair s a \<and> (centries s' a = None \<longleftrightarrow> centries s a = None))"
      using unlink_list [OF C(1) _ C(2,3), of "[]" fd] unfolding nil append_Nil by blast
    show ?thesis
    proof (cases "find (\<lambda>e. fst (entry_pair s e) = fd) es")
      case None
      then have "cm_fun s es fd = None" by (simp add: cm_fun_def)
      then have "M(fd := None) = M" using es(2) by (simp add: fun_upd_idem)
      with assms un None run show ?thesis by auto
    next
      case (Some e)
      note e = find_fst [OF Some]
      obtain s' C' where s': "unlink_entry (next_addr s) m None (cm_head C) fd s = Inr ((), s')" "cmaps s' m = Some C'"
        "chain (entry_next s') (cm_head C') (remove1 e es)" "mem s' = mem s" "next_addr s' = next_addr s" "centries s' e = None"
        and keep: "\<And>a. a \<noteq> e \<Longrightarrow> entry_pair s' a = entry_pair s a" "\<And>a. a \<noteq> e \<Longrightarrow> centries s' a = None \<longleftrightarrow> centries s a = None"
        using un unfolding Some option.case by blast
      have d: "distinct es" "set (remove1 e es) = set es - {e}" using C(4) by (auto simp: distinct_map)
      have keys: "map (\<lambda>a. fst (entry_pair s' a)) (remove1 e es) = map (\<lambda>a. fst (entry_pair s a)) (remove1 e es)"
        using d(2) keep(1) by auto
      have "inj_on (\<lambda>a. fst (entry_pair s a)) (set es)" using C(4) by (simp add: distinct_map)
      then have inj: "\<And>a. a \<in> set es \<Longrightarrow> a \<noteq> e \<Longrightarrow> fst (entry_pair s a) \<noteq> fd" using e by (auto simp: inj_on_def)
      have dist: "distinct (map (\<lambda>a. fst (entry_pair s' a)) (remove1 e es))"
        unfolding keys using C(4) d by (auto simp: distinct_map intro: inj_on_subset distinct_remove1)
      have "\<forall>a. next_addr s' \<le> a \<longrightarrow> centries s' a = None" using C(5) s'(5,6) keep(2) by metis
      then have list: "cm_list s' m (remove1 e es)" unfolding cm_list_def using s'(2,3) dist by blast
      have "cm_fun s' (remove1 e es) = M(fd := None)"
      proof (rule cm_fun_eqI [OF dist])
        fix a assume "a \<in> set (remove1 e es)"
        then have "a \<in> set es" "a \<noteq> e" using d(2) by auto
        then show "(M(fd := None)) (fst (entry_pair s' a)) = snd (entry_pair s' a)"
          using keep(1) inj es(2) cm_fun_at [OF C(4)] by simp
      next
        fix k assume k: "k \<notin> (\<lambda>a. fst (entry_pair s' a)) ` set (remove1 e es)"
        have "cm_fun s es k = None" if "k \<noteq> fd"
        proof (rule cm_fun_None)
          fix a assume a: "a \<in> set es"
          show "fst (entry_pair s a) \<noteq> k"
          proof
            assume eq: "fst (entry_pair s a) = k"
            then have "a \<noteq> e" using e that by auto
            then show False using k a d(2) keep(1) eq by force
          qed
        qed
        then show "(M(fd := None)) k = None" using es(2) by simp
      qed
      with list s'(1,4) run mem show ?thesis unfolding cm_repr_def by (metis (no_types))
    qed
  qed
qed

interpretation cm: store_map "cm_repr m" "conn_map_set m" "conn_map_get m" "conn_map_remove m" for m
  by unfold_locales (rule set_repr get_repr remove_repr; assumption)+

section \<open>Correctness\<close>

text \<open>
  C36. The table of pending output is a map from descriptors to strings: after any sequence of \<open>conn_map_set\<close> and \<open>conn_map_remove\<close> calls,
  in which no allocation fails, \<open>conn_map_get\<close> returns the string that was set last for the descriptor, or \<open>NULL\<close> if none was set since it was last removed;
  no call faults or loops.
\<close>

theorem conn_map_refines:
  assumes "cm_repr m s M"
  shows "\<exists>s'. bindM (run_map (conn_map_set m) (conn_map_remove m) ops) (\<lambda>_. conn_map_get m fd) s = Inr (map_after M ops fd, s') \<and>
     cm_repr m s' (map_after M ops)"
  using assms by (rule cm.get_after)

definition demo_cm_store :: cm_store where
  "demo_cm_store = \<lparr>fd_open = {3, 5, 6}, errno = E_OK, rx = (\<lambda>_. []), tx = (\<lambda>_. []), sent = (\<lambda>_. []), pipe_peer = id, pipe_buf = (\<lambda>_. []),
     ep_interest = (\<lambda>_ _. None), kq_filters = (\<lambda>_ _. None), ep_waits = (\<lambda>_. []), kq_waits = (\<lambda>_. []), newfd = [], mem = [], next_addr = 10, now = 0, closes = [], accepts = (\<lambda>_. []),
     centries = Map.empty, cmaps = [1 \<mapsto> \<lparr>cm_head = None\<rparr>]\<rparr>"

lemma demo_cm_repr: "cm_repr 1 demo_cm_store Map.empty"
  unfolding cm_repr_def by (intro conjI exI [of _ "[]"]) (auto simp: demo_cm_store_def cm_list_def cm_fun_def)

theorem conn_map_refines_witness:
  "\<exists>s'. bindM (run_map (conn_map_set 1) (conn_map_remove 1) [Put 5 ''a'', Put 6 ''b'', Put 5 ''c'', Del 6]) (\<lambda>_. conn_map_get 1 5) demo_cm_store = Inr (Some ''c'', s')"
  using conn_map_refines [OF demo_cm_repr, of "[Put 5 ''a'', Put 6 ''b'', Put 5 ''c'', Del 6]" 5] by auto

end
