(* ===== verification/Global_Queue.thy ===== *)
theory Global_Queue
  imports Conn_Map "HOL-Library.Multiset"
begin

text \<open>
  \<open>linux/reactor-server/global_queue.c\<close>: the fixed array of tasks through which the I/O threads hand requests to the workers. A task goes into the first
  free slot and the first valid slot is taken next.
\<close>

section \<open>Data\<close>

definition MAX_TASKS :: nat where
  "MAX_TASKS = 1024"

definition MAX_DATA_SIZE :: nat where
  "MAX_DATA_SIZE = 4096"

text \<open>The character array of a slot has static storage, so all its bytes are determinate.\<close>

record global_task =
  gt_fd :: int
  gt_data :: string
  gt_valid :: bool

record gq_store = cm_store +
  g_tasks :: "global_task list"
  g_task_lock :: mutex

section \<open>C strings\<close>

definition NUL :: char where
  "NUL = CHR 0x00"

text \<open>The characters in front of the terminating zero.\<close>

definition cstr :: "string \<Rightarrow> string" where
  "cstr d = takeWhile (\<lambda>c. c \<noteq> NUL) d"

text \<open>\<open>strncpy(dst, src, n)\<close>: at most \<open>n\<close> characters of the string, padded with zeros to \<open>n\<close>; the rest of the array stays.\<close>

definition strncpy :: "string \<Rightarrow> string \<Rightarrow> nat \<Rightarrow> string" where
  "strncpy dst src n = (let t = take n (cstr src) in t @ replicate (n - length t) NUL @ drop n dst)"

section \<open>Operations\<close>

definition global_queue_init :: "('a gq_store_scheme, unit) cmd" where
  "global_queue_init = modifyM (\<lambda>s. s\<lparr>g_tasks := map (\<lambda>t. t\<lparr>gt_valid := False, gt_fd := - 1, gt_data := (gt_data t)[0 := NUL]\<rparr>) (g_tasks s)\<rparr>)"

text \<open>The index at which the loop over the array finds a slot that is valid, or not.\<close>

fun find_slot :: "bool \<Rightarrow> global_task list \<Rightarrow> nat option" where
  "find_slot b [] = None"
| "find_slot b (t # ts) = (if gt_valid t = b then Some 0 else map_option Suc (find_slot b ts))"

definition gq_lock :: "('a gq_store_scheme, unit) cmd" where
  "gq_lock = bindM (getM g_task_lock) (\<lambda>l. bindM (mutex_lock l) (\<lambda>l. modifyM (\<lambda>s. s\<lparr>g_task_lock := l\<rparr>)))"

definition gq_unlock :: "('a gq_store_scheme, unit) cmd" where
  "gq_unlock = bindM (getM g_task_lock) (\<lambda>l. bindM (mutex_unlock l) (\<lambda>l. modifyM (\<lambda>s. s\<lparr>g_task_lock := l\<rparr>)))"

definition fill_slot :: "int \<Rightarrow> string \<Rightarrow> global_task \<Rightarrow> global_task" where
  "fill_slot fd data t =
     t\<lparr>gt_fd := fd, gt_data := (strncpy (gt_data t) data (MAX_DATA_SIZE - 1))[MAX_DATA_SIZE - 1 := NUL], gt_valid := True\<rparr>"

definition global_queue_add_task :: "int \<Rightarrow> string \<Rightarrow> ('a gq_store_scheme, int) cmd" where
  "global_queue_add_task fd data =
     thenM gq_lock
    (bindM (getM g_tasks) (\<lambda>ts. case find_slot False ts of
       Some i \<Rightarrow>
         thenM (modifyM (\<lambda>s. s\<lparr>g_tasks := ts[i := fill_slot fd data (ts ! i)]\<rparr>))
        (thenM gq_unlock (returnM 0))
     | None \<Rightarrow> thenM gq_unlock (returnM (- 1))))"

text \<open>The result is the return value and the task that was stored through the pointer, if one was.\<close>

definition global_queue_get_task :: "('a gq_store_scheme, int \<times> global_task option) cmd" where
  "global_queue_get_task =
     thenM gq_lock
    (bindM (getM g_tasks) (\<lambda>ts. case find_slot True ts of
       Some i \<Rightarrow>
         thenM (modifyM (\<lambda>s. s\<lparr>g_tasks := ts[i := (ts ! i)\<lparr>gt_valid := False\<rparr>]\<rparr>))
        (thenM gq_unlock (returnM (0, Some (ts ! i))))
     | None \<Rightarrow> thenM gq_unlock (returnM (- 1, None))))"

section \<open>Well-formed arrays\<close>

definition slot_wf :: "global_task \<Rightarrow> bool" where
  "slot_wf t \<longleftrightarrow> length (gt_data t) = MAX_DATA_SIZE \<and> gt_data t ! (MAX_DATA_SIZE - 1) = NUL"

definition gq_wf :: "'a gq_store_scheme \<Rightarrow> bool" where
  "gq_wf s \<longleftrightarrow> g_task_lock s = Unlocked \<and> length (g_tasks s) = MAX_TASKS \<and> (\<forall>t \<in> set (g_tasks s). slot_wf t)"

definition gq_entry :: "global_task \<Rightarrow> int \<times> string" where
  "gq_entry t = (gt_fd t, cstr (gt_data t))"

text \<open>The tasks that wait, as a bag.\<close>

definition gq_bag :: "'a gq_store_scheme \<Rightarrow> (int \<times> string) multiset" where
  "gq_bag s = mset (map gq_entry (filter gt_valid (g_tasks s)))"

lemma MAX_DATA_SIZE_pos [simp]: "0 < MAX_DATA_SIZE" "Suc (MAX_DATA_SIZE - Suc 0) = MAX_DATA_SIZE"
  by (simp_all add: MAX_DATA_SIZE_def)

lemma length_strncpy: "n \<le> length dst \<Longrightarrow> length (strncpy dst src n) = length dst"
  by (simp add: strncpy_def Let_def)

lemma takeWhile_prefix_pad:
  assumes "\<forall>c \<in> set t. P c" and "\<not> P z"
  shows "takeWhile P (t @ z # r) = t" and "takeWhile P (t @ replicate k z @ z # r) = t"
proof -
  show "takeWhile P (t @ z # r) = t" using assms by (simp add: takeWhile_append2)
  show "takeWhile P (t @ replicate k z @ z # r) = t" using assms by (cases k) (simp_all add: takeWhile_append2)
qed

lemma cstr_not_NUL: "c \<in> set (cstr d) \<Longrightarrow> c \<noteq> NUL"
  unfolding cstr_def by (auto dest: set_takeWhileD)

lemma fill_slot_ok:
  assumes "slot_wf t"
  shows "slot_wf (fill_slot fd d t)" "gq_entry (fill_slot fd d t) = (fd, take (MAX_DATA_SIZE - 1) (cstr d))"
proof -
  let ?n = "MAX_DATA_SIZE - 1" and ?t = "take (MAX_DATA_SIZE - 1) (cstr d)"
  have len: "length (strncpy (gt_data t) d ?n) = MAX_DATA_SIZE" using assms length_strncpy [of ?n "gt_data t" d] by (simp add: slot_wf_def)
  then show "slot_wf (fill_slot fd d t)" by (simp add: slot_wf_def fill_slot_def)
  have "\<exists>y. drop ?n (gt_data t) = [y]"
  proof -
    have "length (drop ?n (gt_data t)) = 1" using assms by (simp add: slot_wf_def MAX_DATA_SIZE_def)
    then show ?thesis by (metis One_nat_def length_0_conv length_Suc_conv)
  qed
  then obtain y where y: "drop ?n (gt_data t) = [y]" by blast
  have "(strncpy (gt_data t) d ?n)[?n := NUL] = ?t @ replicate (?n - length ?t) NUL @ [NUL]"
  proof -
    have "length (?t @ replicate (?n - length ?t) NUL) = ?n" by simp
    then show ?thesis unfolding strncpy_def Let_def y by (metis append.assoc list_update_length)
  qed
  moreover have "cstr (?t @ replicate (?n - length ?t) NUL @ [NUL]) = ?t"
    unfolding cstr_def [of "_ @ _"] by (rule takeWhile_prefix_pad(2)) (auto dest!: in_set_takeD cstr_not_NUL)
  ultimately show "gq_entry (fill_slot fd d t) = (fd, ?t)" by (simp add: gq_entry_def fill_slot_def)
qed

lemma find_slot_Some: "find_slot b ts = Some i \<Longrightarrow> i < length ts \<and> gt_valid (ts ! i) = b \<and> (\<forall>j < i. gt_valid (ts ! j) \<noteq> b)"
  by (induction ts arbitrary: i) (auto split: if_splits simp: nth_Cons split: nat.splits)

lemma find_slot_None: "find_slot b ts = None \<longleftrightarrow> (\<forall>t \<in> set ts. gt_valid t \<noteq> b)"
  by (induction ts) auto

text \<open>What the change of one slot does to the bag.\<close>

lemma mset_filter_update:
  assumes "i < length ts"
  shows "mset (map f (filter P (ts[i := t]))) + (if P (ts ! i) then {#f (ts ! i)#} else {#}) =
         mset (map f (filter P ts)) + (if P t then {#f t#} else {#})"
  using assms
proof (induction ts arbitrary: i)
  case (Cons x ts)
  show ?case
  proof (cases i)
    case (Suc j)
    then show ?thesis using Cons.IH [of j] Cons.prems by (cases "P (ts ! j)"; cases "P t"; cases "P x") simp_all
  qed simp
qed simp

section \<open>Correctness\<close>

lemma gq_lock_exec:
  "g_task_lock s = Unlocked \<Longrightarrow> gq_lock s = Inr ((), s\<lparr>g_task_lock := Locked\<rparr>)"
  "g_task_lock s = Locked \<Longrightarrow> gq_unlock s = Inr ((), s\<lparr>g_task_lock := Unlocked\<rparr>)"
  by (simp_all add: gq_lock_def gq_unlock_def bindM_def getM_def mutex_lock_def mutex_unlock_def modifyM_def returnM_def)

lemma add_task_exec:
  assumes "g_task_lock s = Unlocked"
  shows "global_queue_add_task fd d s = (case find_slot False (g_tasks s) of
      Some i \<Rightarrow> Inr (0, s\<lparr>g_tasks := (g_tasks s)[i := fill_slot fd d (g_tasks s ! i)]\<rparr>)
    | None \<Rightarrow> Inr (- 1, s))"
  using assms by (cases s) (simp add: global_queue_add_task_def thenM_Inr gq_lock_exec bindM_def getM_def returnM_def split: option.split)

lemma get_task_exec:
  assumes "g_task_lock s = Unlocked"
  shows "global_queue_get_task s = (case find_slot True (g_tasks s) of
      Some i \<Rightarrow> Inr ((0, Some (g_tasks s ! i)), s\<lparr>g_tasks := (g_tasks s)[i := (g_tasks s ! i)\<lparr>gt_valid := False\<rparr>]\<rparr>)
    | None \<Rightarrow> Inr ((- 1, None), s))"
  using assms by (cases s) (simp add: global_queue_get_task_def thenM_Inr gq_lock_exec bindM_def getM_def returnM_def split: option.split)

lemma gq_wf_slot:
  assumes "gq_wf s" and "i < length (g_tasks s)" and "slot_wf t"
  shows "gq_wf (s\<lparr>g_tasks := (g_tasks s)[i := t]\<rparr>)"
  using assms set_update_subset_insert [of "g_tasks s" i t] by (auto simp: gq_wf_def)

lemma gq_slotD: "gq_wf s \<Longrightarrow> i < length (g_tasks s) \<Longrightarrow> slot_wf (g_tasks s ! i)"
  by (simp add: gq_wf_def)

text \<open>The bag is full exactly when no slot is free.\<close>

lemma bag_full: "length (g_tasks s) = MAX_TASKS \<Longrightarrow> size (gq_bag s) < MAX_TASKS \<longleftrightarrow> find_slot False (g_tasks s) \<noteq> None"
  unfolding find_slot_None gq_bag_def using length_filter_less [of _ "g_tasks s" gt_valid] filter_True [of "g_tasks s" gt_valid]
  by (metis (full_types) length_map less_irrefl size_mset)

lemma bag_empty: "gq_bag s = {#} \<longleftrightarrow> find_slot True (g_tasks s) = None"
  by (auto simp: gq_bag_def find_slot_None filter_empty_conv)

lemma add_task_bag:
  assumes wf: "gq_wf s"
  shows "\<exists>r s'. global_queue_add_task fd d s = Inr (r, s') \<and> gq_wf s' \<and>
      (if size (gq_bag s) < MAX_TASKS then r = 0 \<and> gq_bag s' = add_mset (fd, take (MAX_DATA_SIZE - 1) (cstr d)) (gq_bag s) else r = - 1 \<and> s' = s)"
proof -
  have lk: "g_task_lock s = Unlocked" and len: "length (g_tasks s) = MAX_TASKS" using wf by (simp_all add: gq_wf_def)
  show ?thesis
  proof (cases "find_slot False (g_tasks s)")
    case None
    then show ?thesis using wf add_task_exec [OF lk, of fd d] bag_full [OF len] by auto
  next
    case (Some i)
    let ?t = "fill_slot fd d (g_tasks s ! i)"
    let ?s = "s\<lparr>g_tasks := (g_tasks s)[i := ?t]\<rparr>"
    have i: "i < length (g_tasks s)" "\<not> gt_valid (g_tasks s ! i)" using find_slot_Some [OF Some] by simp_all
    note t = fill_slot_ok [OF gq_slotD [OF wf i(1)], of fd d]
    have "gt_valid ?t" by (simp add: fill_slot_def)
    then have "gq_bag ?s = add_mset (fd, take (MAX_DATA_SIZE - 1) (cstr d)) (gq_bag s)"
      using mset_filter_update [OF i(1), of gq_entry gt_valid ?t] i(2) t(2) by (simp add: gq_bag_def)
    moreover have "gq_wf ?s" by (rule gq_wf_slot [OF wf i(1) t(1)])
    ultimately show ?thesis using add_task_exec [OF lk, of fd d] Some bag_full [OF len] by auto
  qed
qed

lemma get_task_bag:
  assumes wf: "gq_wf s"
  shows "\<exists>r t s'. global_queue_get_task s = Inr ((r, t), s') \<and> gq_wf s' \<and>
      (if gq_bag s = {#} then r = - 1 \<and> t = None \<and> s' = s else r = 0 \<and> (\<exists>x. t = Some x \<and> gt_valid x \<and> gq_bag s = add_mset (gq_entry x) (gq_bag s')))"
proof -
  have lk: "g_task_lock s = Unlocked" using wf by (simp add: gq_wf_def)
  show ?thesis
  proof (cases "find_slot True (g_tasks s)")
    case None
    then show ?thesis using wf get_task_exec [OF lk] bag_empty [of s] by auto
  next
    case (Some i)
    let ?t = "(g_tasks s ! i)\<lparr>gt_valid := False\<rparr>"
    let ?s = "s\<lparr>g_tasks := (g_tasks s)[i := ?t]\<rparr>"
    have i: "i < length (g_tasks s)" "gt_valid (g_tasks s ! i)" using find_slot_Some [OF Some] by simp_all
    have "slot_wf ?t" using gq_slotD [OF wf i(1)] by (simp add: slot_wf_def)
    then have "gq_wf ?s" by (rule gq_wf_slot [OF wf i(1)])
    moreover have "gq_bag s = add_mset (gq_entry (g_tasks s ! i)) (gq_bag ?s)"
      using mset_filter_update [OF i(1), of gq_entry gt_valid ?t] i(2) by (simp add: gq_bag_def)
    ultimately show ?thesis using get_task_exec [OF lk] Some bag_empty [of s] i(2) by auto
  qed
qed

text \<open>
  C37. The array is a bag of at most \<open>MAX_TASKS\<close> tasks: adding succeeds exactly while a slot is free and then puts the descriptor and the
  string, cut at its first zero and at 4095 characters, into the bag; otherwise it returns \<open>- 1\<close> and changes nothing. Getting returns \<open>- 1\<close> exactly when the bag
  is empty and otherwise takes one task out of it. Both calls keep the array well formed and leave the lock free.
\<close>

theorem global_queue_refines_bag:
  assumes "gq_wf s"
  shows "(\<exists>r s'. global_queue_add_task fd d s = Inr (r, s') \<and> gq_wf s' \<and>
      (if size (gq_bag s) < MAX_TASKS then r = 0 \<and> gq_bag s' = add_mset (fd, take (MAX_DATA_SIZE - 1) (cstr d)) (gq_bag s) else r = - 1 \<and> s' = s)) \<and>
    (\<exists>r t s'. global_queue_get_task s = Inr ((r, t), s') \<and> gq_wf s' \<and>
      (if gq_bag s = {#} then r = - 1 \<and> t = None \<and> s' = s else r = 0 \<and> (\<exists>x. t = Some x \<and> gt_valid x \<and> gq_bag s = add_mset (gq_entry x) (gq_bag s'))))"
  using add_task_bag [OF assms] get_task_bag [OF assms] by blast

section \<open>A concrete array\<close>

definition demo_gq_store :: gq_store where
  "demo_gq_store = cm_store.extend demo_cm_store \<lparr>g_tasks = replicate MAX_TASKS \<lparr>gt_fd = 0, gt_data = replicate MAX_DATA_SIZE NUL, gt_valid = False\<rparr>, g_task_lock = Unlocked\<rparr>"

lemma demo_gq_fields:
  "g_tasks demo_gq_store = replicate MAX_TASKS \<lparr>gt_fd = 0, gt_data = replicate MAX_DATA_SIZE NUL, gt_valid = False\<rparr>" "g_task_lock demo_gq_store = Unlocked"
  by (simp_all add: demo_gq_store_def cm_store.extend_def)

lemma demo_gq_wf: "gq_wf demo_gq_store" "gq_bag demo_gq_store = {#}"
  by (simp_all add: gq_wf_def gq_bag_def demo_gq_fields slot_wf_def filter_replicate)

theorem global_queue_refines_bag_witness:
  "\<exists>s'. global_queue_add_task 5 (''ab'' @ [NUL] @ ''c'') demo_gq_store = Inr (0, s') \<and> gq_bag s' = {#(5, ''ab'')#}"
proof -
  have "take (MAX_DATA_SIZE - 1) (cstr (''ab'' @ [NUL] @ ''c'')) = ''ab''" "0 < MAX_TASKS"
    by (simp_all add: cstr_def NUL_def MAX_DATA_SIZE_def MAX_TASKS_def)
  then show ?thesis using global_queue_refines_bag [OF demo_gq_wf(1), of 5 "''ab'' @ [NUL] @ ''c''"] unfolding demo_gq_wf(2) by auto
qed

section \<open>Any use of the array\<close>

datatype gq_op = Add int string | Get

fun run_gq :: "gq_op list \<Rightarrow> ('a gq_store_scheme, unit) cmd" where
  "run_gq [] = returnM ()"
| "run_gq (Add fd d # ops) = bindM (global_queue_add_task fd d) (\<lambda>_. run_gq ops)"
| "run_gq (Get # ops) = bindM global_queue_get_task (\<lambda>_. run_gq ops)"

lemma run_gq_wf: "gq_wf s \<Longrightarrow> \<exists>s'. run_gq ops s = Inr ((), s') \<and> gq_wf s'"
proof (induction ops arbitrary: s)
  case Nil
  then show ?case by (simp add: returnM_def)
next
  case (Cons op ops)
  show ?case
  proof (cases op)
    case (Add fd d)
    with add_task_bag [OF Cons.prems, of fd d] Cons.IH show ?thesis by (fastforce simp: bindM_Inr)
  next
    case Get
    with get_task_bag [OF Cons.prems] Cons.IH show ?thesis by (fastforce simp: bindM_Inr)
  qed
qed



text \<open>A later task overtakes an earlier one when a slot in front of it has become free.\<close>

lemma global_queue_overtakes:
  assumes "gq_wf s" and "\<not> gt_valid (g_tasks s ! 0)" and "gt_valid (g_tasks s ! 1)"
  shows "\<exists>t s'. bindM (global_queue_add_task fd d) (\<lambda>_. global_queue_get_task) s = Inr ((0, Some t), s') \<and> gq_entry t = (fd, take (MAX_DATA_SIZE - 1) (cstr d)) \<and>
     gt_valid (g_tasks s' ! 1) \<and> g_tasks s' ! 1 = g_tasks s ! 1"
proof -
  have lk: "g_task_lock s = Unlocked" and len: "length (g_tasks s) = MAX_TASKS" using assms(1) by (simp_all add: gq_wf_def)
  then obtain t ts where ts: "g_tasks s = t # ts" by (cases "g_tasks s") (simp_all add: MAX_TASKS_def)
  have "slot_wf t" using assms(1) ts by (simp add: gq_wf_def)
  note t = fill_slot_ok(2) [OF this, of fd d]
  have "gt_valid (fill_slot fd d t)" by (simp add: fill_slot_def)
  with ts assms(2,3) lk t show ?thesis by (simp add: bindM_def add_task_exec get_task_exec)
qed

end
