(* ===== verification/Linux_Io.thy ===== *)
theory Linux_Io
  imports Global_Queue Event_Loop
begin

text \<open>
  \<open>linux/reactor-server\<close>: the I/O threads (\<open>io_thread.c\<close>), the worker (\<open>thread_pool.c\<close>) and the acceptor (\<open>main.c\<close>) of the smaller reactor server. An I/O
  thread reads every readable socket to its end and adds each piece to the global array of tasks; pending output waits in its table until the socket
  is writable. The member \<open>conn_map\<close> of an I/O thread at address \<open>io\<close> is the table at the same address.
\<close>

section \<open>Data\<close>

definition MAX_EVENTS_lx :: int where
  "MAX_EVENTS_lx = 64"

definition BUF_SIZE :: nat where
  "BUF_SIZE = 4096"

record io_thread_lx =
  lt_epoll_fd :: int
  lt_index :: int

record lx_store = gq_store +
  lx_ios :: "addr \<Rightarrow> io_thread_lx option"
  lx_blocks :: "addr set"

text \<open>\<open>lx_blocks\<close> are the allocated arrays of thread handles.\<close>

definition lx_load :: "addr \<Rightarrow> ('a lx_store_scheme, io_thread_lx) cmd" where
  "lx_load io = derefM lx_ios (Some io)"

section \<open>The I/O thread\<close>

text \<open>
  \<open>buffer[n] = '\0'\<close> on an array of \<open>cap\<close> bytes whose first \<open>n\<close> bytes were just read: what is then known of the array, or a write out of bounds.
\<close>

definition terminate_at :: "nat \<Rightarrow> string \<Rightarrow> ('s, string) cmd" where
  "terminate_at cap got = (if length got < cap then returnM (got @ [NUL]) else failM Out_Of_Bounds)"

definition close_client :: "addr \<Rightarrow> int \<Rightarrow> ('a lx_store_scheme, unit) cmd" where
  "close_client io fd =
     bindM (sys_close fd) (\<lambda>_.
     bindM (lx_load io) (\<lambda>I.
     bindM (sys_epoll_ctl (lt_epoll_fd I) EPOLL_CTL_DEL fd (0, U_Null)) (\<lambda>_.
     conn_map_remove io fd)))"

text \<open>The loop over \<open>read\<close>, one unit of fuel per successful read.\<close>

fun read_all :: "nat \<Rightarrow> addr \<Rightarrow> int \<Rightarrow> ('a lx_store_scheme, unit) cmd" where
  "read_all fuel io fd =
     bindM (sys_read fd (BUF_SIZE - 1)) (\<lambda>(len, got).
       if 0 < len then
         bindM (terminate_at BUF_SIZE got) (\<lambda>buffer.
         bindM (global_queue_add_task fd buffer) (\<lambda>_.
         case fuel of 0 \<Rightarrow> failM Out_Of_Fuel | Suc f \<Rightarrow> read_all f io fd))
       else if len = 0 then close_client io fd
       else bindM (getM errno) (\<lambda>e. if e = EAGAIN then returnM () else close_client io fd))"

declare read_all.simps [simp del]

text \<open>\<open>conn_map_get\<close> yields the stored text up to its end, so all its characters are written.\<close>

definition write_out :: "addr \<Rightarrow> int \<Rightarrow> ('a lx_store_scheme, unit) cmd" where
  "write_out io fd =
     bindM (conn_map_get io fd) (\<lambda>out. case out of
       None \<Rightarrow> returnM ()
     | Some str \<Rightarrow>
         bindM (sys_write fd (map Some (cstr str))) (\<lambda>len.
           if 0 \<le> len then
             bindM (lx_load io) (\<lambda>I.
             bindM (sys_epoll_ctl (lt_epoll_fd I) EPOLL_CTL_MOD fd (EPOLLIN OR EPOLLET, U_Fd fd)) (\<lambda>_.
             conn_map_remove io fd))
           else bindM (getM errno) (\<lambda>e.
             if e \<noteq> EAGAIN then bindM (sys_close fd) (\<lambda>_. conn_map_remove io fd) else returnM ())))"

definition io_event_lx :: "nat \<Rightarrow> addr \<Rightarrow> udata \<times> 32 word \<Rightarrow> ('a lx_store_scheme, unit) cmd" where
  "io_event_lx fuel io ev = (case fst ev of
     U_Fd fd \<Rightarrow>
       thenM (whenM (snd ev AND EPOLLIN \<noteq> 0) (read_all fuel io fd))
             (whenM (snd ev AND EPOLLOUT \<noteq> 0) (write_out io fd))
   | _ \<Rightarrow> failM Uninitialised)"

fun io_events_lx :: "nat \<Rightarrow> addr \<Rightarrow> (udata \<times> 32 word) list \<Rightarrow> ('a lx_store_scheme, unit) cmd" where
  "io_events_lx fuel io [] = returnM ()"
| "io_events_lx fuel io (ev # evs) = thenM (io_event_lx fuel io ev) (io_events_lx fuel io evs)"

text \<open>One round of the loop. A failed wait delivers no events, whatever its reason.\<close>

definition io_round_lx :: "nat \<Rightarrow> addr \<Rightarrow> ('a lx_store_scheme, unit) cmd" where
  "io_round_lx fuel io =
     bindM (lx_load io) (\<lambda>I.
     bindM (sys_epoll_wait (lt_epoll_fd I) (nat MAX_EVENTS_lx) MAX_EVENTS_lx 10) (\<lambda>(n, events).
     bindM (getM errno) (\<lambda>e.
       if n < 0 \<and> e \<noteq> EINTR then returnM () else io_events_lx fuel io (take (nat n) events))))"

text \<open>The thread never ends; this is what it does in its first \<open>rounds\<close> rounds.\<close>

fun io_rounds_lx :: "nat \<Rightarrow> nat \<Rightarrow> addr \<Rightarrow> ('a lx_store_scheme, unit) cmd" where
  "io_rounds_lx fuel 0 io = returnM ()"
| "io_rounds_lx fuel (Suc n) io = thenM (io_round_lx fuel io) (io_rounds_lx fuel n io)"

definition io_thread_loop :: "nat \<Rightarrow> nat \<Rightarrow> addr \<Rightarrow> ('a lx_store_scheme, unit) cmd" where
  "io_thread_loop fuel rounds io = thenM (conn_map_init io) (io_rounds_lx fuel rounds io)"

definition die :: "('s, 'a) cmd" where
  "die = failM Exit_Failure"

definition io_thread_start_lx :: "addr \<Rightarrow> int \<Rightarrow> ('a lx_store_scheme, unit) cmd" where
  "io_thread_start_lx io index =
     bindM (lx_load io) (\<lambda>_.
     bindM sys_newfd (\<lambda>epoll_fd.
     thenM (modifyM (\<lambda>s. s\<lparr>lx_ios := (lx_ios s)(io \<mapsto> \<lparr>lt_epoll_fd = epoll_fd, lt_index = index\<rparr>)\<rparr>))
           (whenM (epoll_fd < 0) die)))"

definition io_thread_add_conn :: "addr \<Rightarrow> int \<Rightarrow> ('a lx_store_scheme, unit) cmd" where
  "io_thread_add_conn io fd =
     bindM (lx_load io) (\<lambda>I.
     bindM (sys_epoll_ctl (lt_epoll_fd I) EPOLL_CTL_ADD fd (EPOLLIN OR EPOLLET, U_Fd fd)) (\<lambda>r.
     whenM (r < 0) (bindM (sys_close fd) (\<lambda>_. returnM ()))))"

definition io_thread_handle_response :: "addr \<Rightarrow> int \<Rightarrow> string \<Rightarrow> ('a lx_store_scheme, unit) cmd" where
  "io_thread_handle_response io fd response =
     thenM (conn_map_set io fd (cstr response))
    (bindM (lx_load io) (\<lambda>I.
     bindM (sys_epoll_ctl (lt_epoll_fd I) EPOLL_CTL_MOD fd (EPOLLIN OR EPOLLOUT OR EPOLLET, U_Fd fd)) (\<lambda>_.
     returnM ())))"

section \<open>The worker\<close>

text \<open>One iteration: the descriptor and the response that is printed, or \<open>None\<close> when the thread goes to sleep. The response is sent nowhere.\<close>

definition echo_response :: "string \<Rightarrow> string" where
  "echo_response data = take (MAX_DATA_SIZE + 100 - 1) (''Echo: '' @ cstr data)"

definition worker_step_lx :: "('a lx_store_scheme, (int \<times> string) option) cmd" where
  "worker_step_lx =
     bindM global_queue_get_task (\<lambda>(r, t). case t of
       Some task \<Rightarrow> returnM (if r = 0 then Some (gt_fd task, echo_response (gt_data task)) else None)
     | None \<Rightarrow> returnM None)"

fun worker_func :: "nat \<Rightarrow> ('a lx_store_scheme, (int \<times> string) list) cmd" where
  "worker_func 0 = returnM []"
| "worker_func (Suc n) =
     bindM worker_step_lx (\<lambda>r. bindM (worker_func n) (\<lambda>rs. returnM (case r of None \<Rightarrow> rs | Some x \<Rightarrow> x # rs)))"

section \<open>The acceptor\<close>

definition MAX_IO_THREADS :: int where
  "MAX_IO_THREADS = 4"

definition INT_MAX :: int where
  "INT_MAX = 2 ^ 31 - 1"

text \<open>
  One iteration of the loop of \<open>main\<close>: the array of I/O threads, the value of \<open>current\<close> before and after. Incrementing the largest
  \<open>int\<close> is undefined.
\<close>

definition accept_step_lx :: "int \<Rightarrow> addr list \<Rightarrow> int \<Rightarrow> ('a lx_store_scheme, int) cmd" where
  "accept_step_lx listen_fd io_threads current =
     bindM (sys_accept listen_fd) (\<lambda>(client_fd, _).
       if client_fd < 0 then returnM current
       else if current = INT_MAX then failM Signed_Overflow
       else let target = current mod MAX_IO_THREADS in
         if length io_threads \<le> nat target then failM Out_Of_Bounds
         else thenM (io_thread_add_conn (io_threads ! nat target) client_fd) (returnM (current + 1)))"

fun accept_loop_lx :: "nat \<Rightarrow> int \<Rightarrow> addr list \<Rightarrow> int \<Rightarrow> ('a lx_store_scheme, int) cmd" where
  "accept_loop_lx 0 listen_fd io_threads current = returnM current"
| "accept_loop_lx (Suc n) listen_fd io_threads current =
     bindM (accept_step_lx listen_fd io_threads current) (accept_loop_lx n listen_fd io_threads)"

record thread_pool_lx =
  tpl_thread_count :: int
  tpl_threads :: ptr

text \<open>
  The array of thread handles is written through the result of \<open>malloc\<close> without a check; a thread that cannot be created is only reported.
\<close>

definition thread_pool_init :: "int \<Rightarrow> ('a lx_store_scheme, thread_pool_lx) cmd" where
  "thread_pool_init thread_count =
     bindM mallocM (\<lambda>p.
     thenM (modifyM (\<lambda>s. s\<lparr>lx_blocks := lx_blocks s \<union> set_option p\<rparr>))
       (if p = None \<and> 0 < thread_count then failM Null_Deref
        else returnM \<lparr>tpl_thread_count = thread_count, tpl_threads = p\<rparr>))"

definition thread_pool_destroy_lx :: "thread_pool_lx \<Rightarrow> ('a lx_store_scheme, unit) cmd" where
  "thread_pool_destroy_lx pool =
     (case tpl_threads pool of
        None \<Rightarrow> returnM ()
      | Some p \<Rightarrow> bindM (getM lx_blocks) (\<lambda>bs.
          if p \<in> bs then modifyM (\<lambda>s. s\<lparr>lx_blocks := lx_blocks s - {p}\<rparr>) else failM Dangling))"

fun start_io_threads :: "int \<Rightarrow> addr list \<Rightarrow> ('a lx_store_scheme, unit) cmd" where
  "start_io_threads i [] = returnM ()"
| "start_io_threads i (io # ios) = thenM (io_thread_start_lx io i) (start_io_threads (i + 1) ios)"

definition MAX_WORKER_THREADS :: int where
  "MAX_WORKER_THREADS = 1"

text \<open>
  \<open>main\<close> up to its loop, with the outcomes of \<open>bind\<close> and \<open>listen\<close> and the array of I/O threads on its stack; the result is the listening socket.
  \<open>die\<close> ends the process.
\<close>

definition main_start_lx :: "bool \<Rightarrow> bool \<Rightarrow> addr list \<Rightarrow> ('a lx_store_scheme, int) cmd" where
  "main_start_lx bind_ok listen_ok io_threads =
     bindM sys_newfd (\<lambda>listen_fd.
       if listen_fd < 0 then die
       else if \<not> bind_ok then die
       else if \<not> listen_ok then die
       else
         thenM global_queue_init
        (bindM (thread_pool_init MAX_WORKER_THREADS) (\<lambda>_.
         thenM (start_io_threads 0 io_threads) (returnM listen_fd))))"

section \<open>What a readable socket delivers\<close>

text \<open>The pieces in which reads of at most \<open>n\<close> bytes deliver a text.\<close>

function groups :: "nat \<Rightarrow> string \<Rightarrow> string list" where
  "groups n xs = (if n = 0 \<or> xs = [] then [] else take n xs # groups n (drop n xs))"
  by pat_completeness auto
termination by (relation "measure (length \<circ> snd)") auto

declare groups.simps [simp del]

text \<open>The pieces read until the socket is empty, at its end or in error, and whether the connection is then given up.\<close>

fun rx_pieces :: "nat \<Rightarrow> rx_item list \<Rightarrow> string list" where
  "rx_pieces n (Chunk c cs # r) = groups n (c # cs) @ rx_pieces n r"
| "rx_pieces n r = []"

fun rx_closes :: "rx_item list \<Rightarrow> bool" where
  "rx_closes [] = False"
| "rx_closes (Fin # r) = True"
| "rx_closes (RdErr e # r) = (e \<noteq> EAGAIN)"
| "rx_closes (Chunk c cs # r) = rx_closes r"

text \<open>Tables change nothing else.\<close>

lemma unlink_frame: "unlink_entry fuel m prev p fd s = Inr (r, s') \<Longrightarrow> s' = s\<lparr>centries := centries s', cmaps := cmaps s'\<rparr>"
proof (induction fuel m prev p fd arbitrary: s rule: unlink_entry.induct)
  case (1 fuel m prev fd)
  then show ?case by (simp add: returnM_def)
next
  case (2 fuel m prev e fd)
  show ?case
  proof (cases "centries s e")
    case None
    with 2(2) show ?thesis by (simp add: unlink_entry.simps(2) bindM_def entry_load_def derefM_def)
  next
    case (Some x)
    show ?thesis
    proof (cases "ce_fd x = fd")
      case True
      with True Some 2(2) show ?thesis
        by (auto simp: unlink_entry.simps(2) bindM_def entry_load_Some thenM_def entry_update_def entry_load_def derefM_def cmap_head_def cmap_load_def
            modifyM_def split: option.splits)
    next
      case False
      with Some 2(2) obtain f where f: "fuel = Suc f" by (cases fuel) (auto simp: unlink_entry.simps(2) bindM_def entry_load_Some failM_def)
      with False Some 2(2) have "unlink_entry f m (Some e) (ce_next x) fd s = Inr (r, s')" by (simp add: unlink_entry.simps(2) bindM_def entry_load_Some)
      with 2(1) [OF False f] show ?thesis by blast
    qed
  qed
qed

lemma conn_map_remove_frame: "conn_map_remove m fd s = Inr (r, s') \<Longrightarrow> s' = s\<lparr>centries := centries s', cmaps := cmaps s'\<rparr>"
  by (auto simp: conn_map_remove_def bindM_def getM_def dest!: unlink_frame split: sum.splits prod.splits)
     (auto simp: cmap_load_def derefM_def split: option.splits)

lemma cm_repr_cong:
  "centries s' = centries s \<Longrightarrow> cmaps s' = cmaps s \<Longrightarrow> next_addr s' = next_addr s \<Longrightarrow> mem s' = mem s \<Longrightarrow> cm_repr m s' M = cm_repr m s M"
proof -
  assume eq: "centries s' = centries s" "cmaps s' = cmaps s" "next_addr s' = next_addr s" "mem s' = mem s"
  then have "entry_next s' = entry_next s" "entry_pair s' = entry_pair s" by (simp_all add: entry_next_def entry_pair_def fun_eq_iff)
  moreover from this(2) have "cm_fun s' = cm_fun s" by (intro ext) (simp add: cm_fun_def cong: option.case_cong)
  ultimately show ?thesis using eq by (simp add: cm_repr_def cm_list_def)
qed

text \<open>One read of a socket, in terms of the pieces.\<close>

lemma rx_pieces_step:
  assumes "fd \<in> fd_open s" and "0 < n"
  obtains (data) p rest where "sys_read fd n s = Inr ((int (length p), p), s\<lparr>rx := (rx s)(fd := rest)\<rparr>)" "p \<noteq> []" "length p \<le> n"
      "rx_pieces n (rx s fd) = p # rx_pieces n rest" "rx_closes (rx s fd) = rx_closes rest" "rx_size rest < rx_size (rx s fd)"
  | (eof) "sys_read fd n s = Inr ((0, []), s)" "rx_pieces n (rx s fd) = []" "rx_closes (rx s fd)"
  | (error) e r where "sys_read fd n s = Inr ((- 1, []), s\<lparr>errno := e, rx := r\<rparr>)" "rx_pieces n (rx s fd) = []" "rx_closes (rx s fd) \<longleftrightarrow> e \<noteq> EAGAIN"
proof (cases "rx s fd")
  case Nil
  then have "sys_read fd n s = Inr ((- 1, []), s\<lparr>errno := EAGAIN, rx := rx s\<rparr>)" using assms by (simp add: sys_read_def)
  then show ?thesis by (rule error) (simp_all add: Nil)
next
  case (Cons i r)
  show ?thesis
  proof (cases i)
    case (Chunk c cs)
    let ?rest = "case drop n (c # cs) of [] \<Rightarrow> r | d # ds \<Rightarrow> Chunk d ds # r"
    have p: "take n (c # cs) \<noteq> []" using assms(2) by (cases n) simp_all
    have g: "groups n (c # cs) = take n (c # cs) # groups n (drop n (c # cs))" using assms(2) by (subst groups.simps) simp
    have rest: "rx_pieces n ?rest = groups n (drop n (c # cs)) @ rx_pieces n r" "rx_closes ?rest = rx_closes r"
      by (cases "drop n (c # cs)"; simp add: groups.simps [of n "[]"])+
    have "length (drop n (c # cs)) \<le> length cs" using assms(2) by simp
    then have "rx_size ?rest < rx_size (rx s fd)" unfolding Cons Chunk by (cases "drop n (c # cs)") simp_all
    moreover have "sys_read fd n s = Inr ((int (length (take n (c # cs))), take n (c # cs)), s\<lparr>rx := (rx s)(fd := ?rest)\<rparr>)"
      using assms(1) Cons Chunk by (simp add: sys_read_def Let_def del: take_Cons' drop_Cons')
    ultimately show ?thesis using data [of "take n (c # cs)" ?rest] p g rest unfolding Cons Chunk by simp
  next
    case Fin
    with Cons assms show ?thesis by (intro eof) (simp_all add: sys_read_def)
  next
    case (RdErr e)
    with Cons assms show ?thesis by (intro error [where e = e and r = "(rx s)(fd := r)"]) (simp_all add: sys_read_def)
  qed
qed

lemma BUF_SIZE_pos [simp]: "0 < BUF_SIZE - 1" "0 < BUF_SIZE" "BUF_SIZE - 1 < BUF_SIZE" "BUF_SIZE - 1 = MAX_DATA_SIZE - 1"
  by (simp_all add: BUF_SIZE_def MAX_DATA_SIZE_def)

lemma lx_load_Some: "lx_ios s io = Some I \<Longrightarrow> lx_load io s = Inr (I, s)"
  by (simp add: lx_load_def derefM_def)

text \<open>The terminated buffer holds the piece up to its first zero, and it always fits a slot.\<close>

lemma cstr_terminated: "cstr (p @ [NUL]) = cstr p"
  unfolding cstr_def by (induction p) auto

lemma length_cstr_le: "length (cstr p) \<le> length p"
  unfolding cstr_def by (rule length_takeWhile_le)

lemma epoll_del_frame: "\<exists>r e i. sys_epoll_ctl ep EPOLL_CTL_DEL fd ev s = Inr (r, s\<lparr>errno := e, ep_interest := i\<rparr>)"
  and epoll_mod_frame: "\<exists>r e i. sys_epoll_ctl ep EPOLL_CTL_MOD fd ev s = Inr (r, s\<lparr>errno := e, ep_interest := i\<rparr>)"
proof -
  have e: "t\<lparr>errno := x\<rparr> = t\<lparr>errno := x, ep_interest := ep_interest t\<rparr>" "t\<lparr>ep_interest := y\<rparr> = t\<lparr>errno := errno t, ep_interest := y\<rparr>"
    for t :: "'z kernel_scheme" and x y by simp_all
  show "\<exists>r e i. sys_epoll_ctl ep EPOLL_CTL_DEL fd ev s = Inr (r, s\<lparr>errno := e, ep_interest := i\<rparr>)"
    by (simp only: sys_epoll_ctl_def epoll_op.simps prod.case split: if_splits option.splits) (metis e)
  show "\<exists>r e i. sys_epoll_ctl ep EPOLL_CTL_MOD fd ev s = Inr (r, s\<lparr>errno := e, ep_interest := i\<rparr>)"
    by (simp only: sys_epoll_ctl_def epoll_op.simps prod.case split: if_splits option.splits) (metis e)
qed

text \<open>What reading and closing leave alone: the threads and everything the tables rest on.\<close>

definition lx_frame :: "'a lx_store_scheme \<Rightarrow> 'a lx_store_scheme \<Rightarrow> bool" where
  "lx_frame s s' \<longleftrightarrow> lx_ios s' = lx_ios s \<and> tx s' = tx s \<and> sent s' = sent s"

lemma after_close_tables:
  "centries (after_close fd s) = centries s" "cmaps (after_close fd s) = cmaps s" "next_addr (after_close fd s) = next_addr s" "mem (after_close fd s) = mem s"
  "g_tasks (after_close fd s') = g_tasks s'" "g_task_lock (after_close fd s') = g_task_lock s'" "lx_ios (after_close fd s'') = lx_ios s''"
  "tx (after_close fd t) = tx t" "sent (after_close fd t) = sent t" "fd_open (after_close fd t) = fd_open t - {fd}"
  by (auto simp: after_close_def)

lemma close_client_ok:
  assumes "gq_wf s" and "cm_repr io s M" and "lx_ios s io = Some I"
  shows "\<exists>s'. close_client io fd s = Inr ((), s') \<and> gq_wf s' \<and> gq_bag s' = gq_bag s \<and> fd_open s' = fd_open s - {fd} \<and> cm_repr io s' (M(fd := None)) \<and> lx_frame s s'"
proof -
  let ?s1 = "after_close fd s"
  obtain r e i where ctl: "sys_epoll_ctl (lt_epoll_fd I) EPOLL_CTL_DEL fd (0, U_Null) ?s1 = Inr (r, ?s1\<lparr>errno := e, ep_interest := i\<rparr>)"
    using epoll_del_frame [of "lt_epoll_fd I" fd "(0, U_Null)" ?s1] by blast
  let ?s2 = "?s1\<lparr>errno := e, ep_interest := i\<rparr>"
  have "cm_repr io ?s2 M" using assms(2) cm_repr_cong [of ?s2 s io M] by (simp add: after_close_tables)
  then obtain s' where s': "conn_map_remove io fd ?s2 = Inr ((), s')" "cm_repr io s' (M(fd := None))" using cm.del_law by blast
  have run: "close_client io fd s = Inr ((), s')"
    using s'(1) ctl assms(3) by (simp add: close_client_def bindM_def sys_close_def lx_load_Some after_close_tables)
  have fr: "s' = ?s2\<lparr>centries := centries s', cmaps := cmaps s'\<rparr>" by (rule conn_map_remove_frame [OF s'(1)])
  have "g_tasks s' = g_tasks s" "g_task_lock s' = g_task_lock s" "lx_ios s' = lx_ios s" "tx s' = tx s" "sent s' = sent s" "fd_open s' = fd_open s - {fd}"
    by (subst fr, simp add: after_close_tables)+
  with run s'(2) assms(1) show ?thesis by (auto simp: gq_wf_def gq_bag_def lx_frame_def)
qed

text \<open>The tasks that the pieces of a socket become.\<close>

definition read_tasks :: "int \<Rightarrow> rx_item list \<Rightarrow> (int \<times> string) list" where
  "read_tasks fd r = map (\<lambda>p. (fd, cstr p)) (rx_pieces (BUF_SIZE - 1) r)"

lemma read_piece:
  assumes "gq_wf s" and "length p \<le> BUF_SIZE - 1"
  shows "\<exists>r s'. bindM (terminate_at BUF_SIZE p) (global_queue_add_task fd) s = Inr (r, s') \<and> gq_wf s' \<and>
     gq_bag s' = gq_bag s + mset (take (MAX_TASKS - size (gq_bag s)) [(fd, cstr p)]) \<and> (\<exists>ts. s' = s\<lparr>g_tasks := ts\<rparr>)"
proof -
  have "length p < BUF_SIZE" using assms(2) by (simp add: BUF_SIZE_def)
  then have run: "bindM (terminate_at BUF_SIZE p) (global_queue_add_task fd) s = global_queue_add_task fd (p @ [NUL]) s"
    by (simp add: terminate_at_def)
  have cut: "take (MAX_DATA_SIZE - 1) (cstr (p @ [NUL])) = cstr p" using assms(2) length_cstr_le [of p] by (simp add: cstr_terminated BUF_SIZE_def MAX_DATA_SIZE_def)
  obtain r s' where s': "global_queue_add_task fd (p @ [NUL]) s = Inr (r, s')" "gq_wf s'"
    "if size (gq_bag s) < MAX_TASKS then r = 0 \<and> gq_bag s' = add_mset (fd, cstr p) (gq_bag s) else r = - 1 \<and> s' = s"
    using add_task_bag [OF assms(1), of fd "p @ [NUL]"] unfolding cut by blast
  have "gq_bag s' = gq_bag s + mset (take (MAX_TASKS - size (gq_bag s)) [(fd, cstr p)])"
    using s'(3) by (cases "MAX_TASKS - size (gq_bag s)") (auto split: if_splits)
  moreover have "\<exists>ts. s' = s\<lparr>g_tasks := ts\<rparr>"
    using s'(1) assms(1) add_task_exec [of s fd "p @ [NUL]"] by (cases "find_slot False (g_tasks s)") (auto simp: gq_wf_def intro: exI [of _ "g_tasks s"])
  ultimately show ?thesis using run s'(1,2) by auto
qed

lemma take_room: "take (N - size B) (x # xs) = take (N - size B) [x] @ take (N - size (B + mset (take (N - size B) [x]))) xs"
  for B :: "'b multiset"
proof (cases "N - size B")
  case (Suc k)
  then have "N - Suc (size B) = k" by simp
  with Suc show ?thesis by simp
qed simp

lemma read_all_ok:
  "gq_wf s \<Longrightarrow> cm_repr io s M \<Longrightarrow> lx_ios s io = Some I \<Longrightarrow> fd \<in> fd_open s \<Longrightarrow> rx_size (rx s fd) \<le> fuel \<Longrightarrow>
   \<exists>s'. read_all fuel io fd s = Inr ((), s') \<and> gq_wf s' \<and>
     gq_bag s' = gq_bag s + mset (take (MAX_TASKS - size (gq_bag s)) (read_tasks fd (rx s fd))) \<and>
     fd_open s' = (if rx_closes (rx s fd) then fd_open s - {fd} else fd_open s) \<and>
     cm_repr io s' (if rx_closes (rx s fd) then M(fd := None) else M) \<and> lx_frame s s'"
proof (induction fuel arbitrary: s rule: less_induct)
  case (less fuel)
  note wf = less.prems(1) and tab = less.prems(2) and io = less.prems(3) and opn = less.prems(4) and size = less.prems(5)
  from opn BUF_SIZE_pos(1) show ?case
  proof (cases rule: rx_pieces_step)
    case (data p rest)
    obtain f where f: "fuel = Suc f" "rx_size rest \<le> f" using data(6) size by (cases fuel) auto
    let ?s1 = "s\<lparr>rx := (rx s)(fd := rest)\<rparr>"
    have "gq_wf ?s1" "gq_bag ?s1 = gq_bag s" using wf by (simp_all add: gq_wf_def gq_bag_def)
    with read_piece [OF _ data(3), of ?s1 fd] obtain r ts where s2: "bindM (terminate_at BUF_SIZE p) (global_queue_add_task fd) ?s1 = Inr (r, ?s1\<lparr>g_tasks := ts\<rparr>)"
      "gq_wf (?s1\<lparr>g_tasks := ts\<rparr>)" "gq_bag (?s1\<lparr>g_tasks := ts\<rparr>) = gq_bag s + mset (take (MAX_TASKS - size (gq_bag s)) [(fd, cstr p)])" by auto
    let ?s2 = "?s1\<lparr>g_tasks := ts\<rparr>"
    have run: "read_all fuel io fd s = read_all f io fd ?s2"
    proof -
      have "read_all fuel io fd s = bindM (bindM (terminate_at BUF_SIZE p) (global_queue_add_task fd)) (\<lambda>_. read_all f io fd) ?s1"
        using data(1,2) f(1) by (subst read_all.simps) (simp add: bindM_def [of "sys_read fd _"] bindM_assoc)
      then show ?thesis using s2(1) by (simp add: bindM_Inr)
    qed
    have "cm_repr io ?s2 M" using tab cm_repr_cong [of ?s2 s io M] by simp
    from less.IH [of f ?s2, OF _ s2(2) this] io opn f obtain s' where s': "read_all f io fd ?s2 = Inr ((), s')" "gq_wf s'"
      "gq_bag s' = gq_bag ?s2 + mset (take (MAX_TASKS - size (gq_bag ?s2)) (read_tasks fd rest))"
      "fd_open s' = (if rx_closes rest then fd_open s - {fd} else fd_open s)" "cm_repr io s' (if rx_closes rest then M(fd := None) else M)" "lx_frame ?s2 s'"
      by auto
    have "read_tasks fd (rx s fd) = (fd, cstr p) # read_tasks fd rest" using data(4) by (simp add: read_tasks_def)
    then have "gq_bag s' = gq_bag s + mset (take (MAX_TASKS - size (gq_bag s)) (read_tasks fd (rx s fd)))"
      unfolding s'(3) s2(3) using take_room [of MAX_TASKS "gq_bag s" "(fd, cstr p)" "read_tasks fd rest"] by (simp only: mset_append add.assoc)
    with s' run data(5) show ?thesis by (simp add: lx_frame_def)
  next
    case eof
    then have "read_all fuel io fd s = close_client io fd s" by (subst read_all.simps) (simp add: bindM_def)
    moreover have "read_tasks fd (rx s fd) = []" using eof(2) by (simp add: read_tasks_def)
    ultimately show ?thesis using eof(3) close_client_ok [OF wf tab io, of fd] by (simp only: if_True take_Nil mset.simps add_0_right)
  next
    case (error e r)
    let ?s = "s\<lparr>errno := e, rx := r\<rparr>"
    have run: "read_all fuel io fd s = (if e = EAGAIN then Inr ((), ?s) else close_client io fd ?s)"
      using error(1) by (subst read_all.simps) (simp add: bindM_def getM_def returnM_def)
    have keep: "gq_wf ?s" "cm_repr io ?s M" "lx_ios ?s io = Some I" "gq_bag ?s = gq_bag s"
      using wf tab io cm_repr_cong [of ?s s io M] by (simp_all add: gq_wf_def gq_bag_def)
    from close_client_ok [OF this(1-3), of fd] keep(4) have closed: "\<exists>s'. close_client io fd ?s = Inr ((), s') \<and> gq_wf s' \<and> gq_bag s' = gq_bag s \<and>
        fd_open s' = fd_open s - {fd} \<and> cm_repr io s' (M(fd := None)) \<and> lx_frame s s'" by (auto simp: lx_frame_def)
    have no: "read_tasks fd (rx s fd) = []" using error(2) by (simp add: read_tasks_def)
    show ?thesis
    proof (cases "e = EAGAIN")
      case True
      with keep error(3) no run show ?thesis by (simp add: lx_frame_def)
    next
      case False
      with closed error(3) no run show ?thesis by (simp only: if_True if_False simp_thms take_Nil mset.simps add_0_right)
    qed
  qed
qed

text \<open>
  What a writable event does with the pending output of a descriptor: one \<open>write\<close> is made, and however little of the text it takes, the rest is forgotten.
\<close>

definition write_result :: "addr \<Rightarrow> int \<Rightarrow> (int \<Rightarrow> string option) \<Rightarrow> 'a lx_store_scheme \<Rightarrow> 'a lx_store_scheme \<Rightarrow> bool" where
  "write_result io fd M s s' \<longleftrightarrow> (case (M fd, tx s fd) of
     (Some str, Accept k # t) \<Rightarrow> sent s' = (sent s)(fd := sent s fd @ take k (cstr str)) \<and> fd_open s' = fd_open s \<and> cm_repr io s' (M(fd := None))
   | (Some str, WrErr e # t) \<Rightarrow> sent s' = sent s \<and>
       fd_open s' = (if e = EAGAIN then fd_open s else fd_open s - {fd}) \<and> cm_repr io s' (if e = EAGAIN then M else M(fd := None))
   | _ \<Rightarrow> sent s' = sent s \<and> fd_open s' = fd_open s \<and> cm_repr io s' M)"

lemma write_result_cong: "tx s1 = tx s \<Longrightarrow> sent s1 = sent s \<Longrightarrow> fd_open s1 = fd_open s \<Longrightarrow> write_result io fd M s1 s' = write_result io fd M s s'"
  unfolding write_result_def by (simp only:)

lemma remove_keeps:
  assumes "cm_repr io s M"
  shows "\<exists>s'. conn_map_remove io fd s = Inr ((), s') \<and> cm_repr io s' (M(fd := None)) \<and> g_tasks s' = g_tasks s \<and> g_task_lock s' = g_task_lock s \<and>
    lx_ios s' = lx_ios s \<and> sent s' = sent s \<and> tx s' = tx s \<and> fd_open s' = fd_open s"
proof -
  obtain s' where s': "conn_map_remove io fd s = Inr ((), s')" "cm_repr io s' (M(fd := None))" using cm.del_law [OF assms] by blast
  have fr: "s' = s\<lparr>centries := centries s', cmaps := cmaps s'\<rparr>" by (rule conn_map_remove_frame [OF s'(1)])
  have "g_tasks s' = g_tasks s" "g_task_lock s' = g_task_lock s" "lx_ios s' = lx_ios s" "sent s' = sent s" "tx s' = tx s" "fd_open s' = fd_open s"
    by (subst fr, simp)+
  with s' show ?thesis by blast
qed

lemma write_out_ok:
  assumes wf: "gq_wf s" and tab: "cm_repr io s M" and io: "lx_ios s io = Some I" and opn: "M fd = None \<or> fd \<in> fd_open s"
  shows "\<exists>s'. write_out io fd s = Inr ((), s') \<and> gq_wf s' \<and> gq_bag s' = gq_bag s \<and> lx_ios s' = lx_ios s \<and> write_result io fd M s s'"
proof (cases "M fd")
  case None
  then have "write_out io fd s = Inr ((), s)" using get_repr [OF tab, of fd] by (simp add: write_out_def bindM_def returnM_def)
  then show ?thesis using wf tab None by (simp add: write_result_def)
next
  case (Some str)
  with opn have opn: "fd \<in> fd_open s" by simp
  have def_bytes: "None \<notin> set (map Some (cstr str))" by auto
  have run: "write_out io fd s = bindM (sys_write fd (map Some (cstr str))) (\<lambda>len.
           if 0 \<le> len then
             bindM (lx_load io) (\<lambda>I.
             bindM (sys_epoll_ctl (lt_epoll_fd I) EPOLL_CTL_MOD fd (EPOLLIN OR EPOLLET, U_Fd fd)) (\<lambda>_.
             conn_map_remove io fd))
           else bindM (getM errno) (\<lambda>e.
             if e \<noteq> EAGAIN then bindM (sys_close fd) (\<lambda>_. conn_map_remove io fd) else returnM ())) s"
    using get_repr [OF tab, of fd] Some by (simp add: write_out_def bindM_def [of "conn_map_get io fd"])
  show ?thesis
  proof (cases "tx s fd")
    case Nil
    let ?s = "s\<lparr>errno := EAGAIN\<rparr>"
    have "write_out io fd s = Inr ((), ?s)"
      unfolding run using opn def_bytes Nil by (simp add: bindM_def sys_write_def getM_def returnM_def)
    moreover have "cm_repr io ?s M" using tab cm_repr_cong [of ?s s io M] by simp
    ultimately show ?thesis using wf Nil Some by (simp add: write_result_def gq_wf_def gq_bag_def)
  next
    case (Cons x t)
    show ?thesis
    proof (cases x)
      case (Accept k)
      let ?s1 = "s\<lparr>tx := (tx s)(fd := t), sent := (sent s)(fd := sent s fd @ take k (cstr str))\<rparr>"
      have w: "sys_write fd (map Some (cstr str)) s = Inr (int (min k (length (cstr str))), ?s1)"
      proof -
        have "take (min k (length (cstr str))) (cstr str) = take k (cstr str)" by (simp add: min_def)
        then show ?thesis using opn def_bytes Cons Accept by (simp add: sys_write_def Let_def take_map comp_def)
      qed
      obtain r e i where ctl: "sys_epoll_ctl (lt_epoll_fd I) EPOLL_CTL_MOD fd (EPOLLIN OR EPOLLET, U_Fd fd) ?s1 = Inr (r, ?s1\<lparr>errno := e, ep_interest := i\<rparr>)"
        using epoll_mod_frame by blast
      let ?s2 = "?s1\<lparr>errno := e, ep_interest := i\<rparr>"
      have "cm_repr io ?s2 M" using tab cm_repr_cong [of ?s2 s io M] by simp
      from remove_keeps [OF this, of fd] obtain s' where s': "conn_map_remove io fd ?s2 = Inr ((), s')" "cm_repr io s' (M(fd := None))" "g_tasks s' = g_tasks s"
        "g_task_lock s' = g_task_lock s" "lx_ios s' = lx_ios s" "sent s' = sent ?s1" "fd_open s' = fd_open s" by auto
      have "write_out io fd s = Inr ((), s')"
        unfolding run using w ctl s'(1) io by (simp add: bindM_def lx_load_Some)
      moreover have "write_result io fd M s s'" using s' Some Cons Accept by (simp add: write_result_def)
      ultimately show ?thesis using s' wf by (simp add: gq_wf_def gq_bag_def)
    next
      case (WrErr e)
      let ?s1 = "s\<lparr>errno := e, tx := (tx s)(fd := t)\<rparr>"
      have w: "sys_write fd (map Some (cstr str)) s = Inr (- 1, ?s1)" using opn def_bytes Cons WrErr by (simp add: sys_write_def)
      have tab1: "cm_repr io ?s1 M" using tab cm_repr_cong [of ?s1 s io M] by simp
      show ?thesis
      proof (cases "e = EAGAIN")
        case True
        have "write_out io fd s = Inr ((), ?s1)" unfolding run using w True by (simp add: bindM_def getM_def returnM_def)
        then show ?thesis using wf tab1 Some Cons WrErr True by (simp add: write_result_def gq_wf_def gq_bag_def)
      next
        case False
        have "cm_repr io (after_close fd ?s1) M" using tab1 cm_repr_cong [of "after_close fd ?s1" ?s1 io M] by (simp add: after_close_tables)
        from remove_keeps [OF this, of fd] obtain s' where s': "conn_map_remove io fd (after_close fd ?s1) = Inr ((), s')" "cm_repr io s' (M(fd := None))"
          "g_tasks s' = g_tasks s" "g_task_lock s' = g_task_lock s" "lx_ios s' = lx_ios s" "sent s' = sent s" "fd_open s' = fd_open s - {fd}"
          by (auto simp: after_close_tables)
        have "write_out io fd s = Inr ((), s')" unfolding run using w s'(1) False by (simp add: bindM_def getM_def sys_close_def)
        moreover have "write_result io fd M s s'" using s' Some Cons WrErr False by (simp add: write_result_def)
        ultimately show ?thesis using s' wf by (simp add: gq_wf_def gq_bag_def)
      qed
    qed
  qed
qed

section \<open>Correctness\<close>

text \<open>The pieces are the bytes of the stream in order, cut into at most 4095 bytes each.\<close>

lemma groups_pieces: "0 < n \<Longrightarrow> concat (groups n xs) = xs \<and> (\<forall>p \<in> set (groups n xs). p \<noteq> [] \<and> length p \<le> n)"
proof (induction n xs rule: groups.induct)
  case (1 n xs)
  show ?case
  proof (cases "xs = []")
    case False
    with 1(2) have "groups n xs = take n xs # groups n (drop n xs)" "n \<noteq> 0" "take n xs \<noteq> []" by (simp_all add: groups.simps [of n xs])
    with 1 False show ?thesis by simp
  qed (simp add: groups.simps)
qed


text \<open>Destroying a pool gives back what its initialisation allocated, and no thread is stopped.\<close>

lemma thread_pool_roundtrip:
  assumes "mem s = []" and "next_addr s \<notin> lx_blocks s"
  shows "bindM (thread_pool_init n) thread_pool_destroy_lx s = Inr ((), s\<lparr>next_addr := Suc (next_addr s)\<rparr>)"
  using assms by (simp add: thread_pool_init_def thread_pool_destroy_lx_def bindM_def mallocM_def returnM_def getM_def modifyM_def)

text \<open>Left alone, the worker takes every task out of the array and prints one echo per task; nothing is sent.\<close>

lemma worker_drains:
  "gq_wf s \<Longrightarrow> size (gq_bag s) \<le> n \<Longrightarrow> \<exists>out s'. worker_func n s = Inr (out, s') \<and> gq_wf s' \<and> gq_bag s' = {#} \<and> sent s' = sent s \<and>
     mset out = image_mset (\<lambda>(fd, d). (fd, ''Echo: '' @ d)) (gq_bag s)"
proof (induction n arbitrary: s)
  case 0
  then show ?case by (simp add: returnM_def)
next
  case (Suc n)
  obtain r t s1 where s1: "global_queue_get_task s = Inr ((r, t), s1)" "gq_wf s1"
    "if gq_bag s = {#} then r = - 1 \<and> t = None \<and> s1 = s else r = 0 \<and> (\<exists>x. t = Some x \<and> gt_valid x \<and> gq_bag s = add_mset (gq_entry x) (gq_bag s1))"
    using get_task_bag [OF Suc.prems(1)] by blast
  have snt: "sent s1 = sent s" using s1(1) Suc.prems(1) get_task_exec [of s] by (auto simp: gq_wf_def split: option.splits)
  have "size (gq_bag s1) \<le> n" using s1(3) Suc.prems(2) by (auto split: if_splits)
  from Suc.IH [OF s1(2) this] obtain out s' where ih: "worker_func n s1 = Inr (out, s')" "gq_wf s'" "gq_bag s' = {#}" "sent s' = sent s1"
    "mset out = image_mset (\<lambda>(fd, d). (fd, ''Echo: '' @ d)) (gq_bag s1)" by blast
  show ?case
  proof (cases "gq_bag s = {#}")
    case True
    then have "worker_func (Suc n) s = Inr (out, s')" using s1 ih(1) by (simp add: bindM_def worker_step_lx_def returnM_def)
    then show ?thesis using ih s1(3) True snt by auto
  next
    case False
    then obtain x where x: "r = 0" "t = Some x" "gt_valid x" "gq_bag s = add_mset (gq_entry x) (gq_bag s1)" using s1(3) by auto
    have "slot_wf x" using s1(1) x(2) Suc.prems(1) get_task_exec [of s] find_slot_Some [of True "g_tasks s"] by (auto simp: gq_wf_def split: option.splits)
    then have "length (cstr (gt_data x)) \<le> MAX_DATA_SIZE" using length_cstr_le [of "gt_data x"] by (simp add: slot_wf_def)
    then have "echo_response (gt_data x) = ''Echo: '' @ cstr (gt_data x)" by (simp add: echo_response_def)
    then have "worker_func (Suc n) s = Inr ((gt_fd x, ''Echo: '' @ cstr (gt_data x)) # out, s')"
      using s1(1) ih(1) x by (simp add: bindM_def worker_step_lx_def returnM_def)
    then show ?thesis using ih x(4) snt by (auto simp: gq_entry_def)
  qed
qed

section \<open>A concrete thread\<close>

definition demo_lx_store :: lx_store where
  "demo_lx_store = (gq_store.extend demo_gq_store \<lparr>lx_ios = [1 \<mapsto> \<lparr>lt_epoll_fd = 3, lt_index = 0\<rparr>], lx_blocks = {}\<rparr>)\<lparr>rx := (\<lambda>_. []) (5 := [Chunk CHR ''h'' ''i'', Fin])\<rparr>"

lemma demo_lx_fields:
  "g_tasks demo_lx_store = g_tasks demo_gq_store" "g_task_lock demo_lx_store = g_task_lock demo_gq_store" "rx demo_lx_store 5 = [Chunk CHR ''h'' ''i'', Fin]"
  "lx_ios demo_lx_store 1 = Some \<lparr>lt_epoll_fd = 3, lt_index = 0\<rparr>" "fd_open demo_lx_store = {3, 5, 6}" "centries demo_lx_store = centries demo_cm_store"
  "cmaps demo_lx_store = cmaps demo_cm_store" "next_addr demo_lx_store = next_addr demo_cm_store" "mem demo_lx_store = mem demo_cm_store"
  by (simp_all add: demo_lx_store_def demo_gq_store_def gq_store.extend_def cm_store.extend_def demo_cm_store_def)

lemma demo_lx_ok: "gq_wf demo_lx_store" "gq_bag demo_lx_store = {#}" "cm_repr 1 demo_lx_store Map.empty"
  using demo_gq_wf by (simp_all add: gq_wf_def gq_bag_def demo_lx_fields) (simp add: cm_repr_def cm_list_def demo_lx_fields demo_cm_store_def, auto simp: cm_fun_def intro!: exI [of _ "[]"])


end
