(* ===== verification/Simple_Servers.thy ===== *)
theory Simple_Servers
  imports Linux_Io
begin

text \<open>
  The three single-file servers: \<open>linux/epoll/basic_epoll_server.c\<close>, \<open>linux/epoll/epoll_multithread_server.c\<close> and \<open>osx/kqueue/kqueue_server.c\<close>. They print what they
  receive; \<open>printed\<close> records the descriptor and the text of each message. None of them checks the calls that open and register descriptors.
\<close>

section \<open>Data\<close>

record worker_mt =
  wk_epoll_fd :: int
  wk_pipe_fd :: "int \<times> int"

record simple_store = kernel +
  printed :: "(int \<times> string) list"
  workers :: "worker_mt list"
  current_worker :: int

definition BUFFER_SIZE_basic :: nat where
  "BUFFER_SIZE_basic = 1024"

definition MAX_EVENTS_basic :: int where
  "MAX_EVENTS_basic = 10"

definition print_received :: "int \<Rightarrow> string \<Rightarrow> ('a simple_store_scheme, unit) cmd" where
  "print_received fd buffer = modifyM (\<lambda>s. s\<lparr>printed := printed s @ [(fd, cstr buffer)]\<rparr>)"

section \<open>The basic epoll server\<close>

definition basic_accept :: "int \<Rightarrow> int \<Rightarrow> ('a simple_store_scheme, unit) cmd" where
  "basic_accept epoll_fd listen_fd =
     bindM (sys_accept listen_fd) (\<lambda>(conn_fd, _).
     bindM (sys_epoll_ctl epoll_fd EPOLL_CTL_ADD conn_fd (EPOLLIN OR EPOLLET, U_Fd conn_fd)) (\<lambda>_. returnM ()))"

text \<open>One \<open>read\<close> per event, although the sockets are watched edge triggered, of as many bytes as the buffer has.\<close>

definition basic_read :: "int \<Rightarrow> int \<Rightarrow> ('a simple_store_scheme, unit) cmd" where
  "basic_read epoll_fd client_fd =
     bindM (sys_read client_fd BUFFER_SIZE_basic) (\<lambda>(n, got).
       if n \<le> 0 then
         bindM (sys_close client_fd) (\<lambda>_.
         bindM (sys_epoll_ctl epoll_fd EPOLL_CTL_DEL client_fd (0, U_Null)) (\<lambda>_. returnM ()))
       else bindM (terminate_at BUFFER_SIZE_basic got) (print_received client_fd))"

fun basic_events :: "int \<Rightarrow> int \<Rightarrow> (udata \<times> 32 word) list \<Rightarrow> ('a simple_store_scheme, unit) cmd" where
  "basic_events epoll_fd listen_fd [] = returnM ()"
| "basic_events epoll_fd listen_fd (ev # evs) =
     thenM (case fst ev of
              U_Fd fd \<Rightarrow> if fd = listen_fd then basic_accept epoll_fd listen_fd else basic_read epoll_fd fd
            | _ \<Rightarrow> failM Uninitialised)
           (basic_events epoll_fd listen_fd evs)"

fun basic_rounds :: "nat \<Rightarrow> int \<Rightarrow> int \<Rightarrow> ('a simple_store_scheme, unit) cmd" where
  "basic_rounds 0 epoll_fd listen_fd = returnM ()"
| "basic_rounds (Suc k) epoll_fd listen_fd =
     bindM (sys_epoll_wait epoll_fd (nat MAX_EVENTS_basic) MAX_EVENTS_basic (- 1)) (\<lambda>(nfds, events).
     thenM (basic_events epoll_fd listen_fd (take (nat nfds) events)) (basic_rounds k epoll_fd listen_fd))"

definition basic_main :: "nat \<Rightarrow> ('a simple_store_scheme, unit) cmd" where
  "basic_main rounds =
     bindM sys_newfd (\<lambda>listen_fd.
     bindM sys_newfd (\<lambda>epoll_fd.
     bindM (sys_epoll_ctl epoll_fd EPOLL_CTL_ADD listen_fd (EPOLLIN, U_Fd listen_fd)) (\<lambda>_.
     basic_rounds rounds epoll_fd listen_fd)))"

section \<open>The multi-threaded epoll server\<close>

definition WORKER_COUNT :: int where
  "WORKER_COUNT = 4"

definition INT_SIZE :: nat where
  "INT_SIZE = 4"

definition int_cells :: "int \<Rightarrow> pcell list" where
  "int_cells n = map (PInt n) [0..<INT_SIZE]"

definition cells_int :: "pcell list \<Rightarrow> int option" where
  "cells_int cs = (case cs of PInt n 0 # _ \<Rightarrow> if cs = int_cells n then Some n else None | _ \<Rightarrow> None)"

text \<open>The pipes of this server block: a read from an empty and a write to a full pipe do not return.\<close>

definition pipe_read_block :: "int \<Rightarrow> nat \<Rightarrow> ('a kernel_scheme, int \<times> pcell list) cmd" where
  "pipe_read_block fd cnt s = (if fd \<in> fd_open s \<and> pipe_buf s fd = [] then Inl Would_Block else sys_pipe_read fd cnt s)"

definition pipe_write_block :: "int \<Rightarrow> pcell list \<Rightarrow> ('a kernel_scheme, int) cmd" where
  "pipe_write_block fd cs s =
     (if fd \<in> fd_open s \<and> PIPE_CAPACITY < length (pipe_buf s (pipe_peer s fd)) + length cs then Inl Would_Block else sys_pipe_write fd cs s)"

text \<open>The descriptor is used whatever \<open>read\<close> returned, so bytes that are no descriptor are an indeterminate value.\<close>

definition worker_register :: "worker_mt \<Rightarrow> ('a simple_store_scheme, unit) cmd" where
  "worker_register w =
     bindM (pipe_read_block (fst (wk_pipe_fd w)) INT_SIZE) (\<lambda>(_, cs). case cells_int cs of
       None \<Rightarrow> failM Uninitialised
     | Some client_fd \<Rightarrow>
         bindM (sys_epoll_ctl (wk_epoll_fd w) EPOLL_CTL_ADD client_fd (EPOLLIN OR EPOLLET, U_Fd client_fd)) (\<lambda>_. returnM ()))"

definition worker_event :: "worker_mt \<Rightarrow> udata \<times> 32 word \<Rightarrow> ('a simple_store_scheme, unit) cmd" where
  "worker_event w ev = (case fst ev of
     U_Fd fd \<Rightarrow> if fd = fst (wk_pipe_fd w) then worker_register w else basic_read (wk_epoll_fd w) fd
   | _ \<Rightarrow> failM Uninitialised)"

fun worker_events :: "worker_mt \<Rightarrow> (udata \<times> 32 word) list \<Rightarrow> ('a simple_store_scheme, unit) cmd" where
  "worker_events w [] = returnM ()"
| "worker_events w (ev # evs) = thenM (worker_event w ev) (worker_events w evs)"

definition MAX_EVENTS_mt :: int where
  "MAX_EVENTS_mt = 1024"

fun worker_loop :: "nat \<Rightarrow> worker_mt \<Rightarrow> ('a simple_store_scheme, unit) cmd" where
  "worker_loop 0 w = returnM ()"
| "worker_loop (Suc k) w =
     bindM (sys_epoll_wait (wk_epoll_fd w) (nat MAX_EVENTS_mt) MAX_EVENTS_mt (- 1)) (\<lambda>(n, events).
     thenM (worker_events w (take (nat n) events)) (worker_loop k w))"

text \<open>The array is static, so a worker whose \<open>pipe\<close> call fails keeps descriptor 0 for both ends.\<close>

definition start_worker :: "('a simple_store_scheme, worker_mt) cmd" where
  "start_worker =
     bindM sys_pipe (\<lambda>(r, rd, wr).
     let pipe_fd = (if r = 0 then (rd, wr) else (0, 0)) in
     bindM sys_newfd (\<lambda>epoll_fd.
     bindM (sys_epoll_ctl epoll_fd EPOLL_CTL_ADD (fst pipe_fd) (EPOLLIN, U_Fd (fst pipe_fd))) (\<lambda>_.
     returnM \<lparr>wk_epoll_fd = epoll_fd, wk_pipe_fd = pipe_fd\<rparr>)))"

fun start_workers :: "nat \<Rightarrow> ('a simple_store_scheme, unit) cmd" where
  "start_workers 0 = returnM ()"
| "start_workers (Suc k) = bindM start_worker (\<lambda>w. thenM (modifyM (\<lambda>s. s\<lparr>workers := workers s @ [w]\<rparr>)) (start_workers k))"

definition dispatch :: "int \<Rightarrow> ('a simple_store_scheme, unit) cmd" where
  "dispatch conn_fd =
     bindM (getM workers) (\<lambda>ws. bindM (getM current_worker) (\<lambda>k.
       if k < 0 \<or> int (length ws) \<le> k then failM Out_Of_Bounds
       else bindM (pipe_write_block (snd (wk_pipe_fd (ws ! nat k))) (int_cells conn_fd)) (\<lambda>_.
         modifyM (\<lambda>s. s\<lparr>current_worker := (current_worker s + 1) mod WORKER_COUNT\<rparr>))))"

text \<open>The loop of \<open>main\<close>; the result tells whether it was left.\<close>

fun mt_accept :: "nat \<Rightarrow> int \<Rightarrow> ('a simple_store_scheme, bool) cmd" where
  "mt_accept 0 listen_fd = returnM False"
| "mt_accept (Suc k) listen_fd =
     bindM (sys_accept listen_fd) (\<lambda>(conn_fd, _).
       if conn_fd = - 1 then bindM (getM errno) (\<lambda>e. if e = EAGAIN then mt_accept k listen_fd else returnM True)
       else thenM (dispatch conn_fd) (mt_accept k listen_fd))"

definition mt_main :: "nat \<Rightarrow> ('a simple_store_scheme, unit) cmd" where
  "mt_main rounds =
     bindM sys_newfd (\<lambda>listen_fd.
     thenM (start_workers (nat WORKER_COUNT))
    (bindM (mt_accept rounds listen_fd) (\<lambda>left.
     whenM left (bindM (sys_close listen_fd) (\<lambda>_. returnM ())))))"

section \<open>The kqueue server\<close>

definition kq_accept :: "int \<Rightarrow> int \<Rightarrow> ('a simple_store_scheme, unit) cmd" where
  "kq_accept kq listen_fd =
     bindM (sys_accept listen_fd) (\<lambda>(conn_fd, _).
     bindM (kevent_changes kq [K_Add conn_fd EVFILT_READ EV_ADD U_Null]) (\<lambda>_. returnM ()))"

definition kq_read :: "int \<Rightarrow> int \<Rightarrow> ('a simple_store_scheme, unit) cmd" where
  "kq_read kq fd =
     bindM (sys_read fd BUFFER_SIZE_basic) (\<lambda>(n, got).
       if n \<le> 0 then
         bindM (sys_close fd) (\<lambda>_. bindM (kevent_changes kq [K_Delete fd EVFILT_READ]) (\<lambda>_. returnM ()))
       else bindM (terminate_at BUFFER_SIZE_basic got) (print_received fd))"

fun kq_events :: "int \<Rightarrow> int \<Rightarrow> (int \<times> kfilter \<times> 32 word \<times> udata) list \<Rightarrow> ('a simple_store_scheme, unit) cmd" where
  "kq_events kq listen_fd [] = returnM ()"
| "kq_events kq listen_fd ((fd, filt, _, _) # evs) =
     thenM (if fd = listen_fd then kq_accept kq listen_fd
            else if filt = EVFILT_READ then kq_read kq fd
            else returnM ())
           (kq_events kq listen_fd evs)"

text \<open>The loop ends when \<open>kevent\<close> fails.\<close>

fun kq_rounds :: "nat \<Rightarrow> int \<Rightarrow> int \<Rightarrow> ('a simple_store_scheme, bool) cmd" where
  "kq_rounds 0 kq listen_fd = returnM False"
| "kq_rounds (Suc k) kq listen_fd =
     bindM (sys_kevent_wait kq (nat MAX_EVENTS_basic) MAX_EVENTS_basic None) (\<lambda>(nev, events).
       if nev = - 1 then returnM True
       else thenM (kq_events kq listen_fd (take (nat nev) events)) (kq_rounds k kq listen_fd))"

definition kq_main :: "nat \<Rightarrow> ('a simple_store_scheme, unit) cmd" where
  "kq_main rounds =
     bindM sys_newfd (\<lambda>listen_fd.
     bindM sys_newfd (\<lambda>kq.
     bindM (kevent_changes kq [K_Add listen_fd EVFILT_READ EV_ADD U_Null]) (\<lambda>_.
     bindM (kq_rounds rounds kq listen_fd) (\<lambda>left.
     whenM left (bindM (sys_close listen_fd) (\<lambda>_. bindM (sys_close kq) (\<lambda>_. returnM ())))))))"

section \<open>Correctness\<close>

text \<open>
  The text of a message is printed up to its first zero byte, unless the peer fills the whole buffer: then the terminating zero is written behind its end, in each
  of the three servers.
\<close>

lemma terminate_full: "length got = cap \<Longrightarrow> terminate_at cap got s = Inl Out_Of_Bounds"
  by (simp add: terminate_at_def failM_def)

lemma sys_read_chunk:
  assumes "fd \<in> fd_open s" and "rx s fd = Chunk c cs # r"
  shows "\<exists>rest. sys_read fd n s = Inr ((int (length (take n (c # cs))), take n (c # cs)), s\<lparr>rx := (rx s)(fd := rest)\<rparr>)"
  using assms by (simp add: sys_read_def Let_def del: take_Cons' drop_Cons') blast

lemma basic_read_outcome:
  assumes "fd \<in> fd_open s" and "rx s fd = Chunk c cs # r"
  shows "if length (c # cs) < BUFFER_SIZE_basic
         then (\<exists>s'. basic_read ep fd s = Inr ((), s') \<and> printed s' = printed s @ [(fd, cstr (c # cs))]) \<and> (\<exists>s'. kq_read ep fd s = Inr ((), s') \<and> printed s' = printed s @ [(fd, cstr (c # cs))])
         else basic_read ep fd s = Inl Out_Of_Bounds \<and> kq_read ep fd s = Inl Out_Of_Bounds"
proof -
  define p where "p = take BUFFER_SIZE_basic (c # cs)"
  obtain rest where rd: "sys_read fd BUFFER_SIZE_basic s = Inr ((int (length p), p), s\<lparr>rx := (rx s)(fd := rest)\<rparr>)"
    using sys_read_chunk [OF assms] unfolding p_def by blast
  have "0 < length p" by (simp add: p_def BUFFER_SIZE_basic_def)
  then have run: "basic_read ep fd s = bindM (terminate_at BUFFER_SIZE_basic p) (print_received fd) (s\<lparr>rx := (rx s)(fd := rest)\<rparr>)"
    "kq_read ep fd s = bindM (terminate_at BUFFER_SIZE_basic p) (print_received fd) (s\<lparr>rx := (rx s)(fd := rest)\<rparr>)"
    unfolding basic_read_def kq_read_def bindM_def [of "sys_read _ _"] rd by simp_all
  show ?thesis
  proof (cases "length (c # cs) < BUFFER_SIZE_basic")
    case True
    then have p: "p = c # cs" "length p < BUFFER_SIZE_basic" by (simp_all add: p_def)
    then have "bindM (terminate_at BUFFER_SIZE_basic p) (print_received fd) t = Inr ((), t\<lparr>printed := printed t @ [(fd, cstr p)]\<rparr>)" for t :: "'a simple_store_scheme"
      by (simp add: terminate_at_def print_received_def modifyM_def cstr_terminated del: append_Cons)
    with True show ?thesis unfolding run p(1) by simp
  next
    case False
    then have "length p = BUFFER_SIZE_basic" unfolding p_def by (simp del: take_Cons')
    with False show ?thesis unfolding run by (simp add: terminate_full bindM_Inl)
  qed
qed

text \<open>A client makes the trip from the acceptor of the multi-threaded server to the worker whose turn it is.\<close>

lemma cells_int_cells: "cells_int (int_cells n) = Some n"
  by (simp add: cells_int_def int_cells_def INT_SIZE_def upt_rec)

lemma mt_handover:
  assumes "0 \<le> current_worker s" and "current_worker s < WORKER_COUNT" and "length (workers s) = nat WORKER_COUNT"
    and "workers s ! nat (current_worker s) = w" and "wk_pipe_fd w = (rd, wr)" and "{rd, wr, wk_epoll_fd w, fd} \<subseteq> fd_open s" and "pipe_peer s wr = rd" and "pipe_buf s rd = []"
    and "ep_interest s (wk_epoll_fd w) fd = None"
  shows "\<exists>s'. thenM (dispatch fd) (worker_event w (U_Fd rd, EPOLLIN)) s = Inr ((), s') \<and>
     ep_interest s' (wk_epoll_fd w) fd = Some (EPOLLIN OR EPOLLET, U_Fd fd) \<and> pipe_buf s' rd = [] \<and> current_worker s' = (current_worker s + 1) mod WORKER_COUNT"
proof -
  let ?s1 = "s\<lparr>pipe_buf := (pipe_buf s)(rd := int_cells fd), current_worker := (current_worker s + 1) mod WORKER_COUNT\<rparr>"
  have len: "length (int_cells fd) = INT_SIZE" "int_cells fd \<noteq> []" by (simp_all add: int_cells_def INT_SIZE_def upt_rec)
  have "dispatch fd s = Inr ((), ?s1)"
    using assms len by (simp add: dispatch_def bindM_def getM_def modifyM_def pipe_write_block_def sys_pipe_write_def WORKER_COUNT_def INT_SIZE_def PIPE_CAPACITY_def Let_def)
  moreover have rd: "sys_pipe_read rd INT_SIZE ?s1 = Inr ((int INT_SIZE, int_cells fd), ?s1\<lparr>pipe_buf := (pipe_buf ?s1)(rd := [])\<rparr>)"
    using assms(6) len by (cases "int_cells fd") (simp_all add: sys_pipe_read_def)
  then have "\<exists>s'. worker_event w (U_Fd rd, EPOLLIN) ?s1 = Inr ((), s') \<and> ep_interest s' (wk_epoll_fd w) fd = Some (EPOLLIN OR EPOLLET, U_Fd fd) \<and>
      pipe_buf s' rd = [] \<and> current_worker s' = current_worker ?s1"
    using assms(5,6,9) len(2) by (simp add: worker_event_def worker_register_def bindM_def pipe_read_block_def cells_int_cells sys_epoll_ctl_def returnM_def)
  ultimately show ?thesis by (auto simp: thenM_Inr)
qed

end
