(* ===== verification/Test_Client.thy ===== *)
theory Test_Client
  imports Complex_Main Linux_Io
begin

text \<open>
  \<open>advanced-reactor-server/test_client.c\<close>: the load generator. Each thread makes a fixed number of requests on fresh sockets and counts their outcomes, and \<open>main\<close> adds the
  counts and the times up. A receive that times out is a read that would block. The readings of the clock are arguments; times are exact rational numbers where the
  code has \<open>double\<close>s, and the pauses between requests have no effect.
\<close>

section \<open>Operations\<close>

definition NUM_THREADS :: nat where
  "NUM_THREADS = 10"

definition REQUESTS_PER_THREAD :: nat where
  "REQUESTS_PER_THREAD = 100"

record thread_data =
  td_thread_id :: int
  td_successful :: int
  td_failed :: int
  td_connect_failures :: int
  td_send_failures :: int
  td_recv_failures :: int
  td_total_time :: rat

text \<open>A reading of the monotonic clock in seconds and nanoseconds, and the time between two readings.\<close>

type_synonym timespec = "int \<times> int"

definition elapsed :: "timespec \<Rightarrow> timespec \<Rightarrow> rat" where
  "elapsed start fin = of_int (fst fin - fst start) + of_int (snd fin - snd start) / 10 ^ 9"

definition thread_data_init :: "int \<Rightarrow> thread_data" where
  "thread_data_init i = \<lparr>td_thread_id = i, td_successful = 0, td_failed = 0, td_connect_failures = 0, td_send_failures = 0, td_recv_failures = 0, td_total_time = 0\<rparr>"

text \<open>The terminating zero goes into a buffer of 4096 bytes. A first \<open>recv\<close> without data is repeated once.\<close>

definition count_received :: "thread_data \<Rightarrow> int \<times> string \<Rightarrow> ('s, thread_data) cmd" where
  "count_received d r =
     (if 0 < fst r then bindM (terminate_at 4096 (snd r)) (\<lambda>_. returnM (d\<lparr>td_successful := td_successful d + 1\<rparr>))
      else returnM (d\<lparr>td_failed := td_failed d + 1, td_recv_failures := td_recv_failures d + 1\<rparr>))"

definition client_receive :: "int \<Rightarrow> thread_data \<Rightarrow> ('a kernel_scheme, thread_data) cmd" where
  "client_receive sock d =
     bindM (sys_read sock (4096 - 1)) (\<lambda>r.
     bindM (if fst r \<le> 0 then sys_read sock (4096 - 1) else returnM r) (count_received d))"

text \<open>One iteration of the loop, with the outcomes of \<open>connect\<close> and \<open>send\<close> and the two readings of the clock.\<close>

record attempt =
  connect_ok :: bool
  send_ok :: bool
  started :: timespec
  ended :: timespec

definition client_request :: "attempt \<Rightarrow> thread_data \<Rightarrow> ('a kernel_scheme, thread_data) cmd" where
  "client_request x d =
     bindM sys_newfd (\<lambda>sock.
       if sock < 0 then returnM (d\<lparr>td_failed := td_failed d + 1\<rparr>)
       else if \<not> connect_ok x then
         bindM (sys_close sock) (\<lambda>_. returnM (d\<lparr>td_failed := td_failed d + 1, td_connect_failures := td_connect_failures d + 1\<rparr>))
       else if \<not> send_ok x then
         bindM (sys_close sock) (\<lambda>_. returnM (d\<lparr>td_failed := td_failed d + 1, td_send_failures := td_send_failures d + 1\<rparr>))
       else bindM (client_receive sock d) (\<lambda>d. bindM (sys_close sock) (\<lambda>_.
         returnM (d\<lparr>td_total_time := td_total_time d + elapsed (started x) (ended x)\<rparr>))))"

fun client_requests :: "nat \<Rightarrow> (nat \<Rightarrow> attempt) \<Rightarrow> thread_data \<Rightarrow> ('a kernel_scheme, thread_data) cmd" where
  "client_requests 0 xs d = returnM d"
| "client_requests (Suc k) xs d = bindM (client_request (xs k) d) (client_requests k xs)"

definition client_thread :: "(nat \<Rightarrow> attempt) \<Rightarrow> thread_data \<Rightarrow> ('a kernel_scheme, thread_data) cmd" where
  "client_thread xs d = client_requests REQUESTS_PER_THREAD xs d"

fun run_clients :: "(nat \<Rightarrow> nat \<Rightarrow> attempt) \<Rightarrow> nat \<Rightarrow> nat \<Rightarrow> ('a kernel_scheme, thread_data list) cmd" where
  "run_clients xs i 0 = returnM []"
| "run_clients xs i (Suc k) =
     bindM (client_thread (xs i) (thread_data_init (int i))) (\<lambda>d. bindM (run_clients xs (Suc i) k) (\<lambda>ds. returnM (d # ds)))"

text \<open>The numbers \<open>main\<close> prints; a quotient by zero, which prints as no number, is \<open>None\<close>.\<close>

record report =
  r_total :: int
  r_successful :: int
  r_failed :: int
  r_failures :: "(int \<times> int \<times> int) option"
  r_success_rate :: "rat option"
  r_test_time :: rat
  r_per_second :: "rat option"
  r_average_time :: "rat option"

definition quotient :: "rat \<Rightarrow> rat \<Rightarrow> rat option" where
  "quotient x y = (if y = 0 then None else Some (x / y))"

definition total :: "(thread_data \<Rightarrow> 'n::comm_monoid_add) \<Rightarrow> thread_data list \<Rightarrow> 'n" where
  "total f ds = sum_list (map f ds)"

definition make_report :: "rat \<Rightarrow> thread_data list \<Rightarrow> report" where
  "make_report time ds =
     (let good = total td_successful ds; bad = total td_failed ds in
      \<lparr>r_total = good + bad, r_successful = good, r_failed = bad,
       r_failures = (if 0 < bad then Some (total td_connect_failures ds, total td_send_failures ds, total td_recv_failures ds) else None),
       r_success_rate = quotient (of_int good * 100) (of_int (good + bad)),
       r_test_time = time, r_per_second = quotient (of_int good) time,
       r_average_time = quotient (total td_total_time ds) (of_int good)\<rparr>)"

definition client_main :: "(nat \<Rightarrow> nat \<Rightarrow> attempt) \<Rightarrow> timespec \<Rightarrow> timespec \<Rightarrow> ('a kernel_scheme, report) cmd" where
  "client_main xs test_start test_end =
     bindM (run_clients xs 0 NUM_THREADS) (\<lambda>ds. returnM (make_report (elapsed test_start test_end) ds))"

section \<open>Correctness\<close>

text \<open>Every request counts once, as a success or as a failure; a failure for which no reason is counted is a socket that could not be made.\<close>

definition counts_ok :: "nat \<Rightarrow> thread_data \<Rightarrow> bool" where
  "counts_ok n d \<longleftrightarrow> 0 \<le> td_successful d \<and> 0 \<le> td_failed d \<and> td_successful d + td_failed d = int n \<and> td_connect_failures d + td_send_failures d + td_recv_failures d \<le> td_failed d"

lemma okM_read_any: "(\<And>n got r e. length got \<le> cnt \<Longrightarrow> n = int (length got) \<or> n \<le> 0 \<Longrightarrow> Q (n, got) (s\<lparr>rx := r, errno := e\<rparr>)) \<Longrightarrow> okM (sys_read fd cnt) s Q"
proof -
  assume Q: "\<And>n got r e. length got \<le> cnt \<Longrightarrow> n = int (length got) \<or> n \<le> 0 \<Longrightarrow> Q (n, got) (s\<lparr>rx := r, errno := e\<rparr>)"
  have "\<exists>n got r e. sys_read fd cnt s = Inr ((n, got), s\<lparr>rx := r, errno := e\<rparr>) \<and> length got \<le> cnt \<and> (n = int (length got) \<or> n \<le> 0)"
  proof (cases "fd \<in> fd_open s")
    case False
    then show ?thesis by (intro exI [of _ "- 1"] exI [of _ "[]"] exI [of _ "rx s"] exI [of _ EBADF]) (simp add: sys_read_def)
  next
    case True
    show ?thesis
    proof (cases "rx s fd")
      case Nil
      with True show ?thesis by (intro exI [of _ "- 1"] exI [of _ "[]"] exI [of _ "rx s"] exI [of _ EAGAIN]) (simp add: sys_read_def)
    next
      case (Cons x r)
      show ?thesis
      proof (cases x)
        case (Chunk c cs)
        with Cons True show ?thesis
          by (intro exI [of _ "int (length (take cnt (c # cs)))"] exI [of _ "take cnt (c # cs)"] exI [of _ "(rx s)(fd := case drop cnt (c # cs) of [] \<Rightarrow> r | d # ds \<Rightarrow> Chunk d ds # r)"] exI [of _ "errno s"])
            (simp add: sys_read_def Let_def del: take_Cons' drop_Cons')
      next
        case Fin
        with Cons True show ?thesis by (intro exI [of _ 0] exI [of _ "[]"] exI [of _ "rx s"] exI [of _ "errno s"]) (simp add: sys_read_def)
      next
        case (RdErr e)
        with Cons True show ?thesis by (intro exI [of _ "- 1"] exI [of _ "[]"] exI [of _ "(rx s)(fd := r)"] exI [of _ e]) (simp add: sys_read_def)
      qed
    qed
  qed
  with Q show "okM (sys_read fd cnt) s Q" by (auto simp: okM_def)
qed

lemma count_received_counts:
  assumes "counts_ok n d" and "length (snd r) \<le> 4096 - 1"
  shows "okM (count_received d r) s (\<lambda>d' s'. counts_ok (Suc n) d' \<and> s' = s)"
  using assms by (simp add: count_received_def wp terminate_at_def counts_ok_def)

lemma client_receive_counts:
  assumes "counts_ok n d"
  shows "okM (client_receive sock d) s (\<lambda>d' s'. counts_ok (Suc n) d' \<and> fd_open s' = fd_open s)"
  unfolding client_receive_def okM_bind
proof (rule okM_read_any)
  fix m r e and got :: string
  assume got: "length got \<le> 4096 - 1"
  let ?t = "s\<lparr>rx := r, errno := e\<rparr>"
  show "okM (if fst (m, got) \<le> 0 then sys_read sock (4096 - 1) else returnM (m, got)) ?t
     (\<lambda>x s'. okM (count_received d x) s' (\<lambda>d' s'. counts_ok (Suc n) d' \<and> fd_open s' = fd_open s))"
  proof (cases "m \<le> 0")
    case True
    show ?thesis unfolding fst_conv if_P [OF True]
    proof (rule okM_read_any)
      fix m' r' e' and got' :: string
      assume "length got' \<le> 4096 - 1"
      then show "okM (count_received d (m', got')) (?t\<lparr>rx := r', errno := e'\<rparr>) (\<lambda>d' s'. counts_ok (Suc n) d' \<and> fd_open s' = fd_open s)"
        using count_received_counts [OF assms, of "(m', got')" "?t\<lparr>rx := r', errno := e'\<rparr>"] by (auto elim!: okM_mono)
    qed
  next
    case False
    then show ?thesis using count_received_counts [OF assms, of "(m, got)" ?t] got by (auto simp: wp elim!: okM_mono)
  qed
qed

text \<open>No request leaves a socket open.\<close>

lemma client_request_counts:
  assumes "counts_ok n d"
  shows "okM (client_request x d) st (\<lambda>d' s'. counts_ok (Suc n) d' \<and> fd_open s' = fd_open st)"
proof (cases "connect_ok x \<and> send_ok x \<and> (\<exists>f fs. newfd st = f # fs \<and> 0 \<le> f \<and> f \<notin> fd_open st)")
  case True
  then obtain f fs where f: "newfd st = f # fs" "0 \<le> f" "f \<notin> fd_open st" "connect_ok x" "send_ok x" by blast
  let ?t = "st\<lparr>fd_open := insert f (fd_open st), newfd := fs\<rparr>"
  let ?rest = "bindM (client_receive f d) (\<lambda>d. bindM (sys_close f) (\<lambda>_. returnM (d\<lparr>td_total_time := td_total_time d + elapsed (started x) (ended x)\<rparr>)))"
  have "okM (client_request x d) st Q = okM ?rest ?t Q" for Q
    using f by (simp add: okM_def client_request_def sys_newfd_def bindM_def [of sys_newfd])
  moreover have "okM ?rest ?t (\<lambda>d' s'. counts_ok (Suc n) d' \<and> fd_open s' = fd_open st)"
    unfolding okM_bind by (rule okM_mono [OF client_receive_counts [OF assms]]) (use f in \<open>auto simp: wp after_close_def counts_ok_def\<close>)
  ultimately show ?thesis by simp
next
  case False
  with assms show ?thesis by (auto simp: client_request_def wp counts_ok_def after_close_def split: list.splits)
qed

lemma client_requests_counts:
  "counts_ok n d \<Longrightarrow> okM (client_requests k xs d) s (\<lambda>d' s'. counts_ok (k + n) d' \<and> fd_open s' = fd_open s)"
  for s :: "'a kernel_scheme"
proof (induction k arbitrary: n d s)
  case (Suc k)
  show ?case
    unfolding client_requests.simps okM_bind
  proof (rule okM_mono [OF client_request_counts [OF Suc.prems]])
    fix d' and s' :: "'a kernel_scheme" assume "counts_ok (Suc n) d' \<and> fd_open s' = fd_open s"
    then show "okM (client_requests k xs d') s' (\<lambda>d'' s''. counts_ok (Suc k + n) d'' \<and> fd_open s'' = fd_open s)"
      using Suc.IH [of "Suc n" d' s'] by simp
  qed
qed (simp add: wp)

text \<open>The run ends, leaves no socket open, and the totals add up to the number of requests.\<close>

lemma run_clients_counts:
  "okM (run_clients xs i k) s (\<lambda>ds s'. length ds = k \<and> (\<forall>d \<in> set ds. counts_ok REQUESTS_PER_THREAD d) \<and> fd_open s' = fd_open s)"
  for s :: "'a kernel_scheme"
proof (induction k arbitrary: i s)
  case (Suc k)
  have "counts_ok 0 (thread_data_init (int i))" by (simp add: counts_ok_def thread_data_init_def)
  note one = client_requests_counts [OF this, of REQUESTS_PER_THREAD "xs i" s, folded client_thread_def]
  show ?case
    unfolding run_clients.simps okM_bind
  proof (rule okM_mono [OF one])
    fix d and s' :: "'a kernel_scheme" assume d: "counts_ok (REQUESTS_PER_THREAD + 0) d \<and> fd_open s' = fd_open s"
    show "okM (run_clients xs (Suc i) k) s' (\<lambda>ds s''. okM (returnM (d # ds)) s'' (\<lambda>ds s'. length ds = Suc k \<and> (\<forall>d \<in> set ds. counts_ok REQUESTS_PER_THREAD d) \<and> fd_open s' = fd_open s))"
      by (rule okM_mono [OF Suc.IH]) (use d in \<open>simp add: wp\<close>)
  qed
qed (simp add: wp)

lemma totals_counts:
  "\<forall>d \<in> set ds. counts_ok n d \<Longrightarrow>
     0 \<le> total td_successful ds \<and> 0 \<le> total td_failed ds \<and> total td_successful ds + total td_failed ds = int (length ds * n)"
  by (induction ds) (auto simp: total_def counts_ok_def algebra_simps)

lemma percentage:
  assumes "0 \<le> g" and "g \<le> n" and "0 < n"
  shows "0 \<le> of_int g * 100 / (of_int n :: rat)" "of_int g * 100 / (of_int n :: rat) \<le> 100"
proof -
  have "(of_int g :: rat) \<le> of_int n" using assms(2) by (simp only: of_int_le_iff)
  then have "(of_int g :: rat) * 100 \<le> 100 * of_int n" by simp
  then show "0 \<le> of_int g * 100 / (of_int n :: rat)" "of_int g * 100 / (of_int n :: rat) \<le> 100" using assms(1,3) by (simp_all add: divide_le_eq)
qed

text \<open>
  The report is right about the counts: every request is counted, the success rate is a percentage of all of them, and the
  average time is a number exactly if some request succeeded.
\<close>

lemma client_totals:
  "\<exists>R s'. client_main xs t0 t1 s = Inr (R, s') \<and> fd_open s' = fd_open s \<and> r_total R = int (NUM_THREADS * REQUESTS_PER_THREAD) \<and>
     r_successful R + r_failed R = r_total R \<and> (\<exists>p. r_success_rate R = Some p \<and> 0 \<le> p \<and> p \<le> 100) \<and>
     (r_average_time R = None \<longleftrightarrow> r_successful R = 0)"
proof -
  obtain ds s' where ds: "run_clients xs 0 NUM_THREADS s = Inr (ds, s')" "length ds = NUM_THREADS" "\<forall>d \<in> set ds. counts_ok REQUESTS_PER_THREAD d" "fd_open s' = fd_open s"
    using run_clients_counts [of xs 0 NUM_THREADS s] by (auto simp: okM_iff)
  let ?g = "total td_successful ds" and ?b = "total td_failed ds" and ?n = "int (NUM_THREADS * REQUESTS_PER_THREAD)"
  have t: "0 \<le> ?g" "0 \<le> ?b" "?g + ?b = ?n" using totals_counts [OF ds(3)] ds(2) by simp_all
  have "0 < ?n" by (simp add: NUM_THREADS_def REQUESTS_PER_THREAD_def)
  then have n: "0 < ?g + ?b" using t(3) by simp
  let ?p = "of_int ?g * 100 / of_int (?g + ?b) :: rat"
  have p: "0 \<le> ?p" "?p \<le> 100" using percentage [of ?g "?g + ?b"] t n by auto
  define R where "R = make_report (elapsed t0 t1) ds"
  have R: "r_total R = ?g + ?b" "r_successful R = ?g" "r_failed R = ?b" "r_success_rate R = quotient (of_int ?g * 100) (of_int (?g + ?b))"
    "r_average_time R = quotient (total td_total_time ds) (of_int ?g)" by (simp_all add: R_def make_report_def Let_def)
  have "of_int (?g + ?b) \<noteq> (0 :: rat)" using n by (simp only: of_int_eq_0_iff)
  then have "r_success_rate R = Some ?p" unfolding R(4) by (simp only: quotient_def if_False)
  moreover have "client_main xs t0 t1 s = Inr (R, s')" using ds(1) by (simp add: client_main_def bindM_Inr returnM_def R_def)
  moreover have "r_average_time R = None \<longleftrightarrow> r_successful R = 0" unfolding R(2,5) by (simp add: quotient_def)
  ultimately show ?thesis using ds(4) p t(3) R(1-3) by auto
qed

text \<open>
  What the code calls the average request time is not the mean over the successful requests when a receive failed: the time of a request without an answer
  is added all the same, while only answered requests are counted.
\<close>

lemma failed_receive_timed:
  assumes "newfd s = f # fs" and "0 \<le> f" and "f \<notin> fd_open s" and "rx s f = []" and "connect_ok x" and "send_ok x"
  shows "okM (client_request x d) s (\<lambda>d' _. td_successful d' = td_successful d \<and> td_recv_failures d' = td_recv_failures d + 1 \<and>
     td_total_time d' = td_total_time d + elapsed (started x) (ended x))"
  using assms by (simp add: client_request_def client_receive_def count_received_def okM_def bindM_def returnM_def sys_newfd_def sys_read_def sys_close_def)

end
