(* ===== verification/Spec2Isabelle.thy ===== *)
theory Spec2Isabelle
  imports Queue_Monitor Http_Response Echo Startup Server_Main Epoll_Wrapper Simple_Servers Test_Client
begin

text \<open>
  \<^bold>\<open>A verification of the event-driven servers of this repository.\<close>

  \<^bold>\<open>The programs.\<close> \<open>advanced-reactor-server\<close> is an HTTP echo server for Linux and macOS: the main thread accepts connections and hands each to one of
  several I/O threads through a pipe; an I/O thread watches its connections with a portable event loop over epoll or kqueue, reads requests and puts
  them as tasks into a bounded queue; worker threads take tasks, write a response into the connection and send a message to the owning I/O thread,
  which then writes the response out. Connections are shared by reference counts. \<open>linux/reactor-server\<close> is a smaller server with a fixed array of tasks,
  \<open>linux/epoll\<close> and \<open>osx/kqueue\<close> hold three single-file servers, and \<open>test_client.c\<close> is a load generator.

  \<^bold>\<open>How the code is modelled.\<close> A C function is a command: a function of the state that ends in a fault or returns a value and the new state (\<open>Prelude\<close>).
  Undefined behaviour (a null or dangling pointer, an access out of bounds, the use of an indeterminate byte, signed overflow), a self-deadlock, the
  end of the process and waiting on a condition variable are faults. The state is a record that starts with the operating system (\<open>Posix\<close>) and that
  each component extends with the heap of its objects, from addresses to records; addresses are never reused, so a dangling pointer stays
  dangling. What the environment may do is data of the state or an argument: the bytes a peer sends, what a socket takes, the
  events a wait reports, the connections that arrive, which allocations fail, and the outcomes of \<open>pthread_create\<close>, \<open>pthread_mutex_init\<close>,
  \<open>bind\<close>, \<open>connect\<close> and \<open>getopt_long\<close>. A theorem for every state is thus a theorem for every environment.

  \<^bold>\<open>Theories and sources\<close> (under \<open>src/advanced-reactor-server\<close> unless said otherwise).
  \<^item> \<open>Prelude\<close>, \<open>Interfaces\<close>, \<open>Posix\<close>: commands and their weakest preconditions, linked lists in a heap; the contracts of a counted object, of a linked queue and
    of a table as locales, each interpreted on the components that provide it; system calls.
  \<^item> \<open>Event_Loop\<close> (\<open>event_loop.c\<close>, \<open>event_loop_epoll.c\<close>, \<open>event_loop_kqueue.c\<close>): C9 to C13, that masks survive their translation, what add and mod register on both back ends, that waits
    stay within their arrays, and that creation leaks nothing. \<open>Epoll_Wrapper\<close> (\<open>epoll_wrapper.c\<close>): its life cycle, bounds and agreement with the event loop.
  \<^item> \<open>Connection\<close> (\<open>connection.c\<close>): C17 and C23, that the count is exact and a descriptor is closed at most once.
  \<^item> \<open>Task_Queue\<close> (\<open>task_queue.c\<close>): C3 to C6, that the linked queue refines a bounded queue, is first in, first out, and drains after a shutdown. \<open>Queue_Monitor\<close>: C7 and C8, the
    interleaving of any number of threads that wait on the two condition variables, as a step relation. \<open>Ownership\<close>: C15 and C16, who holds which reference.
  \<^item> \<open>Http_Response\<close>, \<open>Thread_Pool\<close>, \<open>Worker\<close> (\<open>thread_pool.c\<close>): C14 the text of a response, C18 and C19 the life of the pool, C22 the worker loop, and the answer
    to a request.
  \<^item> \<open>Io_Message\<close>, \<open>System_State\<close>, \<open>Io_Read\<close>, \<open>Io_Write\<close>, \<open>Io_Events\<close>, \<open>Io_Thread\<close> (\<open>io_thread.c\<close>): C20 and C21 messages, C25 and C26 reading, C27 and C28 writing, C29 and C30 the dispatch
    of events, safe when the connection is also held elsewhere and a use of freed memory when it is not, C31 to C35 the hand-over of connections and the life
    of a thread. \<open>System_State\<close> holds the invariant of the whole server, \<open>sys_inv\<close>, which every handler keeps.
  \<^item> \<open>Reactor\<close>, \<open>Echo\<close>: the parts of the server put together. The handlers become actions that the acceptor, the I/O threads, the workers and the clients take in any order. C1: in every
    state that can be reached every action is safe, up to the use of freed memory above, whose only precondition is that the registration holds the last reference.
    C2: requests on an open connection come back as exactly their responses, in order. \<open>Pipe_Frames\<close> is the frame calculus behind both: what each handler leaves alone, by the structure
    of its command.
  \<^item> \<open>Server\<close>, \<open>Server_Main\<close> (\<open>server.c\<close>, \<open>main.c\<close>): C40, that accepting loses no client; the main loop, signals, creation and destruction, the command line with the range of its
    thread counts. \<open>Startup\<close>: C24, that \<open>server_create\<close> leaves a server in a state from which C1 applies, or nothing at all, whatever call fails on the way;
    with it a created server is safe in every state it can reach (\<open>created_server_safe\<close>), and destroying it gives everything back (\<open>server_create_destroy\<close>).
  \<^item> \<open>Conn_Map\<close>, \<open>Global_Queue\<close>, \<open>Linux_Io\<close> (\<open>src/linux/reactor-server\<close>): C36 the table of pending output is a map, C37 and C38 the array of tasks is a bag of terminated
    strings, C39 what a readable event does; the worker prints every task exactly once.
  \<^item> \<open>Simple_Servers\<close> (\<open>src/linux/epoll\<close>, \<open>src/osx/kqueue\<close>): what is printed of a message, the overrun of the buffer by a full read, and the hand-over to a worker.
    \<open>Test_Client\<close> (\<open>test_client.c\<close>): every request is counted once, no socket is left open, and what the report says of rates and times.

  \<^bold>\<open>Fuel.\<close> Loops over \<open>read\<close>, \<open>write\<close> and \<open>accept\<close> take fuel; the theorems ask for as much as there is scripted input, bytes to send or connections waiting, and then the loops end.
  Loops over linked lists take the next free address, which bounds the length of every list that ends; the actions of \<open>Reactor\<close> compute this fuel from the state. Threads that never end are run for a number of rounds.

  \<^bold>\<open>Not modelled.\<close> Log output, socket options and \<open>O_NONBLOCK\<close> (descriptors of the servers never block, except the pipes of the multi-threaded epoll server); the byte order of
  ports; \<open>long\<close> counters are unbounded, and the load generator's \<open>double\<close>s are exact. Each command runs to its end: threads interleave inside an operation in \<open>Queue_Monitor\<close> and between
  handlers in \<open>Reactor\<close>, where an action that would sleep is taken later instead; so data races between
  an I/O thread and a worker on the fields of a connection that no mutex protects are outside the model, and so is the reuse of descriptor numbers by another thread between the two
  closes of a failed hand-over.
\<close>

end
